(* ===== verification/Prelude.thy ===== *)
theory Prelude
  imports Main
    "HOL-Library.Char_ord" "HOL-Library.List_Lexorder" "HOL-Library.Finite_Map"
    "HOL-Library.Word" "HOL-Library.Multiset"
begin

text \<open>
  What every component of the engine shares.
  \<^item> Errors are values of a sum type: \<open>Inl e\<close> is the exception thrown, \<open>Inr x\<close> the
    value returned; \<open>ebind\<close> sequences two steps and stops at the first exception.
  \<^item> \<open>std::string\<close> is \<open>string\<close> (a list of 8-bit characters). Its \<open>operator<\<close> compares
    the characters as unsigned bytes, which is the lexicographic order of
    \<open>HOL-Library.List_Lexorder\<close> over \<open>HOL-Library.Char_ord\<close>.
  \<^item> \<open>Row\<close> (\<open>std::unordered_map<std::string, std::string>\<close>, include/row.h) is a finite map.
    The iteration order of an \<open>unordered_map\<close> is not specified by the language: where
    the code iterates over a row, the model takes the enumeration as an argument.
  \<^item> \<open>PageId\<close>, \<open>TxnId\<close> and \<open>LSN\<close> are unsigned words of the source's width.
\<close>

named_theorems model_defs \<open>definitions that evaluate on closed terms\<close>
named_theorems inv_intros \<open>an operation keeps the invariant of its component\<close>

section \<open>Errors as values\<close>

definition ebind :: "'e + 'a \<Rightarrow> ('a \<Rightarrow> 'e + 'b) \<Rightarrow> 'e + 'b" where
  "ebind m f = (case m of Inl e \<Rightarrow> Inl e | Inr x \<Rightarrow> f x)"

lemma ebind_simps [simp]:
  "ebind (Inl e) f = Inl e"
  "ebind (Inr x) f = f x"
  by (simp_all add: ebind_def)

lemma ebind_cong [fundef_cong]:
  "m = m' \<Longrightarrow> (\<And>x. m' = Inr x \<Longrightarrow> f x = g x) \<Longrightarrow> ebind m f = ebind m' g"
  by (simp add: ebind_def split: sum.split)

lemma ebind_eq_Inr [simp]: "ebind m f = Inr y \<longleftrightarrow> (\<exists>x. m = Inr x \<and> f x = Inr y)"
  by (simp add: ebind_def split: sum.split)

lemma ebind_eq_Inl: "ebind m f = Inl e \<longleftrightarrow> m = Inl e \<or> (\<exists>x. m = Inr x \<and> f x = Inl e)"
  by (auto simp: ebind_def split: sum.split)

lemma ebind_assoc [simp]: "ebind (ebind m f) g = ebind m (\<lambda>x. ebind (f x) g)"
  by (simp add: ebind_def split: sum.split)

lemma ebind_Inr_right [simp]: "ebind m Inr = m"
  by (simp add: ebind_def split: sum.split)

section \<open>Rows, storage and identifiers\<close>

type_synonym row = "(string, string) fmap"
type_synonym table_storage = "string \<rightharpoonup> row list"
type_synonym page_id = "32 word"
type_synonym txn_id = "64 word"
type_synonym lsn = "64 word"

section \<open>Lists and positions\<close>

lemma drop_eq_ConsD: "drop n xs = y # ys \<Longrightarrow> n < length xs \<and> xs ! n = y \<and> drop (Suc n) xs = ys"
  by (metis Cons_nth_drop_Suc drop_eq_Nil2 linorder_not_less list.distinct(1) list.inject)

lemma drop_length_append [simp]: "drop (length xs) (xs @ ys) = ys"
  by simp

lemma takeWhile_stop: "x \<notin> set xs \<Longrightarrow> takeWhile (\<lambda>c. c \<noteq> x) (xs @ x # ys) = xs"
  and dropWhile_stop: "x \<notin> set xs \<Longrightarrow> dropWhile (\<lambda>c. c \<noteq> x) (xs @ x # ys) = x # ys"
  by (induction xs) auto

lemma foldl_snoc: "foldl f a (xs @ [x]) = f (foldl f a xs) x"
  by simp

lemma nth_append_length' [simp]: "(xs @ y # ys) ! length xs = y"
  by simp

end
