(* ===== verification/Ast.thy ===== *)
theory Ast
  imports Prelude
begin

text \<open>
  The abstract syntax (include/ast.h): the variant \<open>Expr\<close> is a datatype with one constructor
  per alternative, the statement structs are records, \<open>Statement\<close> is their sum. The shared
  pointers of the source are never shared between nodes, so trees are values.
\<close>

datatype lit_kind = LkInteger | LkFloat | LkString | LkBool

datatype expr =
    LiteralExpr lit_kind string
  | ColumnRefExpr string string   \<comment> \<open>table (empty when absent), column\<close>
  | BinaryExpr string expr expr
  | UnaryExpr string expr

record columnDef =
  cd_name :: string
  cd_type :: string
  cd_primaryKey :: bool
  cd_notNull :: bool

record orderByClause =
  ob_column :: string
  ob_ascending :: bool

record selectStatement =
  sel_columns :: "string list"
  sel_table :: string
  sel_where :: "expr option"
  sel_orderBy :: "orderByClause list"
  sel_limit :: "int option"

record insertStatement =
  ins_table :: string
  ins_columns :: "string list"
  ins_values :: "expr list"

record updateStatement =
  upd_table :: string
  upd_assignments :: "(string \<times> expr) list"
  upd_where :: "expr option"

record deleteStatement =
  del_table :: string
  del_where :: "expr option"

record createTableStatement =
  ct_table :: string
  ct_columns :: "columnDef list"

record dropTableStatement =
  dt_table :: string

datatype statement =
    StSelect selectStatement
  | StInsert insertStatement
  | StUpdate updateStatement
  | StDelete deleteStatement
  | StCreateTable createTableStatement
  | StDropTable dropTableStatement

end
