(* ===== verification/Ctype.thy ===== *)
theory Ctype
  imports Prelude
begin

text \<open>
  The character classification functions of the C library the engine calls, in the "C"
  locale, and decimal digit strings (\<open>std::to_string\<close> and its inverse).
\<close>

section \<open>Character classes\<close>

definition isspace :: "char \<Rightarrow> bool" where
  "isspace c \<longleftrightarrow> c = CHR '' '' \<or> c = CHR 0x09 \<or> c = CHR 0x0A \<or> c = CHR 0x0B
     \<or> c = CHR 0x0C \<or> c = CHR 0x0D"

definition isdigit :: "char \<Rightarrow> bool" where
  "isdigit c \<longleftrightarrow> CHR ''0'' \<le> c \<and> c \<le> CHR ''9''"

definition isupper :: "char \<Rightarrow> bool" where
  "isupper c \<longleftrightarrow> CHR ''A'' \<le> c \<and> c \<le> CHR ''Z''"

definition islower :: "char \<Rightarrow> bool" where
  "islower c \<longleftrightarrow> CHR ''a'' \<le> c \<and> c \<le> CHR ''z''"

definition isalpha :: "char \<Rightarrow> bool" where
  "isalpha c \<longleftrightarrow> isupper c \<or> islower c"

definition isalnum :: "char \<Rightarrow> bool" where
  "isalnum c \<longleftrightarrow> isalpha c \<or> isdigit c"

definition toupper :: "char \<Rightarrow> char" where
  "toupper c = (if islower c then char_of (of_char c - (32::nat)) else c)"

definition is_word_char :: "char \<Rightarrow> bool" where
  "is_word_char c \<longleftrightarrow> isalnum c \<or> c = CHR ''_''"

lemmas char_class_defs [model_defs] =
  isspace_def isdigit_def isupper_def islower_def isalpha_def isalnum_def toupper_def
  is_word_char_def

section \<open>Decimal digit strings\<close>

definition digit_value :: "char \<Rightarrow> int" where
  "digit_value c = int (of_char c) - 48"

definition digits_val :: "string \<Rightarrow> int" where
  "digits_val ds = foldl (\<lambda>n c. 10 * n + digit_value c) 0 ds"

definition digit_char :: "nat \<Rightarrow> char" where
  "digit_char n = char_of (48 + n)"

fun nat_to_string :: "nat \<Rightarrow> string" where
  "nat_to_string n = (if n < 10 then [digit_char n]
                      else nat_to_string (n div 10) @ [digit_char (n mod 10)])"

declare nat_to_string.simps [simp del]

lemma isdigit_iff_of_char: "isdigit c \<longleftrightarrow> 48 \<le> (of_char c :: nat) \<and> of_char c \<le> (57::nat)"
  by (simp add: isdigit_def less_eq_char_def)

lemma isdigit_digit_char [simp]: "n < 10 \<Longrightarrow> isdigit (digit_char n)"
  by (simp add: isdigit_iff_of_char digit_char_def)

lemma digit_value_digit_char [simp]: "n < 10 \<Longrightarrow> digit_value (digit_char n) = int n"
  by (simp add: digit_value_def digit_char_def)

lemma digits_val_snoc [simp]: "digits_val (ds @ [c]) = 10 * digits_val ds + digit_value c"
  by (simp add: digits_val_def)

lemma nat_to_string_digits: "list_all isdigit (nat_to_string n) \<and> nat_to_string n \<noteq> []"
proof (induction n rule: nat_to_string.induct)
  case (1 n)
  then show ?case by (subst (1 2) nat_to_string.simps) simp
qed

lemma digits_val_nat_to_string [simp]: "digits_val (nat_to_string n) = int n"
proof (induction n rule: nat_to_string.induct)
  case (1 n)
  show ?case
  proof (cases "n < 10")
    case True
    then show ?thesis by (subst nat_to_string.simps) (simp add: digits_val_def)
  next
    case False
    with 1 show ?thesis by (subst nat_to_string.simps) (simp add: zdiv_int zmod_int)
  qed
qed

lemma takeWhile_nat_to_string:
  assumes "r = [] \<or> \<not> isdigit (hd r)"
  shows "takeWhile isdigit (nat_to_string n @ r) = nat_to_string n"
    and "dropWhile isdigit (nat_to_string n @ r) = r"
proof -
  have a: "\<forall>c\<in>set (nat_to_string n). isdigit c" using nat_to_string_digits by (simp add: list_all_iff)
  have t: "takeWhile isdigit r = []" "dropWhile isdigit r = r" using assms by (cases r; simp)+
  show "takeWhile isdigit (nat_to_string n @ r) = nat_to_string n"
    using a t by (simp add: takeWhile_append2)
  show "dropWhile isdigit (nat_to_string n @ r) = r"
    using a t by (simp add: dropWhile_append2)
qed

lemma isdigit_not:
  assumes "isdigit c"
  shows "\<not> isspace c" "\<not> islower c" "\<not> isupper c" "c \<noteq> CHR ''-''" "c \<noteq> CHR ''+''" "c \<noteq> CHR ''.''"
proof -
  have ne: "\<And>d. \<not> isdigit d \<Longrightarrow> c \<noteq> d" using assms by auto
  show "\<not> isspace c" unfolding isspace_def de_Morgan_disj
    by (intro conjI; rule ne; simp add: isdigit_def)
  show "c \<noteq> CHR ''-''" "c \<noteq> CHR ''+''" "c \<noteq> CHR ''.''" by (rule ne, simp add: isdigit_def)+
  have "\<not> CHR ''a'' \<le> CHR ''9''" "\<not> CHR ''A'' \<le> CHR ''9''" by simp_all
  with assms show "\<not> islower c" "\<not> isupper c" unfolding isdigit_def islower_def isupper_def
    by (meson order_trans)+
qed

lemma isdigit_toupper [simp]: "isdigit c \<Longrightarrow> toupper c = c"
  by (simp add: toupper_def isdigit_not)

lemma nat_to_string_Cons: "\<exists>c cs. nat_to_string n = c # cs \<and> isdigit c \<and> list_all isdigit cs"
  using nat_to_string_digits [of n] by (cases "nat_to_string n") auto

lemma takeWhile_digits [simp]:
  "takeWhile isdigit (nat_to_string n) = nat_to_string n"
  "dropWhile isdigit (nat_to_string n) = []"
  using takeWhile_nat_to_string [of "[]" n] by simp_all

lemma nat_to_string_not_Nil [simp]: "nat_to_string n \<noteq> []"
  using nat_to_string_digits by blast

end
