(* ===== verification/Numeric.thy ===== *)
theory Numeric
  imports Ctype
begin

text \<open>
  The number parsing of the C++ standard library the engine uses: \<open>std::stoi\<close> (the parser's
  LIMIT clause) and \<open>std::stod\<close> (every comparison of values). Both read the longest numeric
  prefix of the string, after white space and a sign, and ignore what follows it; they throw
  \<open>std::invalid_argument\<close> when there is no such prefix and \<open>std::out_of_range\<close> when the value
  does not fit.

  A \<open>double\<close> is a binary64 value: a NaN, an infinity, or a finite value \<open>m * 2^e\<close> (both
  zeros are \<open>Fin 0 0\<close>, which no comparison distinguishes). Rounding is to nearest, ties
  to even. An inexact subnormal result is a range error, as in glibc (the C standard leaves
  this to the implementation).
\<close>

datatype conv_error = Invalid_argument | Out_of_range

definition split_sign :: "string \<Rightarrow> bool \<times> string" where
  "split_sign s = (case s of [] \<Rightarrow> (False, [])
     | c # cs \<Rightarrow> if c = CHR ''-'' then (True, cs) else if c = CHR ''+'' then (False, cs)
                 else (False, s))"

definition stoi :: "string \<Rightarrow> conv_error + int" where
  "stoi s =
    (let (neg, r) = split_sign (dropWhile isspace s);
         d = takeWhile isdigit r;
         v = (if neg then - digits_val d else digits_val d)
     in if d = [] then Inl Invalid_argument
        else if - (2 ^ 31) \<le> v \<and> v < 2 ^ 31 then Inr v else Inl Out_of_range)"

section \<open>Binary64 values\<close>

datatype double = NaN | Inf (inf_neg: bool) | Fin int int

text \<open>\<open>Fin m e\<close> is the value \<open>m * 2^e\<close>; comparisons bring both to the smaller exponent.\<close>

definition scaled :: "int \<Rightarrow> int \<Rightarrow> int \<Rightarrow> int" where
  "scaled m e e0 = m * 2 ^ nat (e - e0)"

definition dbl_eq :: "double \<Rightarrow> double \<Rightarrow> bool" where
  "dbl_eq a b = (case a of
      NaN \<Rightarrow> False
    | Inf s \<Rightarrow> (case b of Inf t \<Rightarrow> s = t | _ \<Rightarrow> False)
    | Fin m e \<Rightarrow> (case b of
        Fin n f \<Rightarrow> scaled m e (min e f) = scaled n f (min e f) | _ \<Rightarrow> False))"

definition dbl_lt :: "double \<Rightarrow> double \<Rightarrow> bool" where
  "dbl_lt a b = (case a of
      NaN \<Rightarrow> False
    | Inf s \<Rightarrow> (case b of NaN \<Rightarrow> False | Inf t \<Rightarrow> s \<and> \<not> t | Fin _ _ \<Rightarrow> s)
    | Fin m e \<Rightarrow> (case b of NaN \<Rightarrow> False | Inf t \<Rightarrow> \<not> t
        | Fin n f \<Rightarrow> scaled m e (min e f) < scaled n f (min e f)))"

definition dbl_le :: "double \<Rightarrow> double \<Rightarrow> bool" where
  "dbl_le a b \<longleftrightarrow> dbl_lt a b \<or> dbl_eq a b"

section \<open>Rounding to binary64\<close>

text \<open>The position of the highest bit of a positive integer.\<close>

function ilog2 :: "int \<Rightarrow> int" where
  "ilog2 n = (if n < 2 then 0 else 1 + ilog2 (n div 2))"
  by pat_completeness auto
termination
  by (relation "measure nat") auto

declare ilog2.simps [simp del]

text \<open>The binary exponent of \<open>n / d\<close>: the \<open>l\<close> with \<open>2^l \<le> n / d < 2^(l + 1)\<close>.\<close>

definition frac_exponent :: "int \<Rightarrow> int \<Rightarrow> int" where
  "frac_exponent n d = (let l = ilog2 n - ilog2 d in
     if (if 0 \<le> l then n < d * 2 ^ nat l else n * 2 ^ nat (- l) < d) then l - 1 else l)"

definition div_half_even :: "int \<Rightarrow> int \<Rightarrow> int" where
  "div_half_even n d = (let q = n div d; r = n mod d in
     if 2 * r < d then q else if d < 2 * r then q + 1 else if even q then q else q + 1)"

text \<open>
  The fraction \<open>n / d\<close> (both positive) as \<open>k * 2^e\<close> with a 53-bit \<open>k\<close>. \<open>None\<close> is the range
  error: a value of at least \<open>2^1024\<close>, or a subnormal one that is not exact.
\<close>

definition round_binary64 :: "int \<Rightarrow> int \<Rightarrow> (int \<times> int) option" where
  "round_binary64 n d =
    (let e = frac_exponent n d - 52;
         k = (if 0 \<le> e then div_half_even n (d * 2 ^ nat e) else div_half_even (n * 2 ^ nat (- e)) d);
         (k', e') = (if k = 2 ^ 53 then (2 ^ 52, e + 1) else (k, e))
     in if 971 < e' then None
        else if - 1074 \<le> e' then Some (k', e')
        else if n * 2 ^ 1074 mod d = 0 then Some (n * 2 ^ 1074 div d, - 1074) else None)"

text \<open>The significand without its trailing zero bits, so that small integers read as such.\<close>

function strip2 :: "int \<Rightarrow> int \<Rightarrow> int \<times> int" where
  "strip2 k e = (if k \<noteq> 0 \<and> even k then strip2 (k div 2) (e + 1) else (k, e))"
  by pat_completeness auto
termination
  by (relation "measure (\<lambda>(k, e). nat \<bar>k\<bar>)") (auto elim!: evenE simp: abs_mult)

declare strip2.simps [simp del]

section \<open>The grammar of strtod\<close>

definition ci_prefix :: "string \<Rightarrow> string \<Rightarrow> bool" where
  "ci_prefix p s \<longleftrightarrow> map toupper (take (length p) s) = p"

text \<open>An optional exponent: the marker, a sign and at least one digit, else 0.\<close>

definition read_exponent :: "char \<Rightarrow> string \<Rightarrow> int" where
  "read_exponent marker s = (case s of [] \<Rightarrow> 0
     | c # cs \<Rightarrow>
         let (neg, u) = split_sign cs; d = takeWhile isdigit u
         in if toupper c \<noteq> marker \<or> d = [] then 0
            else if neg then - digits_val d else digits_val d)"

text \<open>Digits, and a fraction after an optional point: both parts and the rest.\<close>

definition read_mantissa :: "(char \<Rightarrow> bool) \<Rightarrow> string \<Rightarrow> string \<times> string \<times> string" where
  "read_mantissa dig s =
    (let ip = takeWhile dig s; r = dropWhile dig s in
     case r of [] \<Rightarrow> (ip, [], [])
     | c # t \<Rightarrow> if c = CHR ''.'' then (ip, takeWhile dig t, dropWhile dig t) else (ip, [], r))"

text \<open>A parsed number is a fraction of integers.\<close>

definition scale_frac :: "int \<Rightarrow> int \<Rightarrow> int \<Rightarrow> int \<times> int" where
  "scale_frac v base e = (if 0 \<le> e then (v * base ^ nat e, 1) else (v, base ^ nat (- e)))"

definition dec_float :: "string \<Rightarrow> (int \<times> int) option" where
  "dec_float s = (let (ip, fp, r) = read_mantissa isdigit s in
    if ip = [] \<and> fp = [] then None
    else Some (scale_frac (digits_val (ip @ fp)) 10
                 (read_exponent (CHR ''E'') r - int (length fp))))"

definition isxdigit :: "char \<Rightarrow> bool" where
  "isxdigit c \<longleftrightarrow> isdigit c \<or> CHR ''A'' \<le> toupper c \<and> toupper c \<le> CHR ''F''"

definition xdigit_value :: "char \<Rightarrow> int" where
  "xdigit_value c = (if isdigit c then digit_value c else int (of_char (toupper c)) - 55)"

definition xdigits_val :: "string \<Rightarrow> int" where
  "xdigits_val ds = foldl (\<lambda>n c. 16 * n + xdigit_value c) 0 ds"

definition hex_float :: "string \<Rightarrow> (int \<times> int) option" where
  "hex_float s = (if \<not> ci_prefix ''0X'' s then None
    else let (ip, fp, r) = read_mantissa isxdigit (drop 2 s) in
      if ip = [] \<and> fp = [] then None
      else Some (scale_frac (xdigits_val (ip @ fp)) 2
                   (read_exponent (CHR ''P'') r - 4 * int (length fp))))"

definition to_double :: "bool \<Rightarrow> int \<Rightarrow> int \<Rightarrow> conv_error + double" where
  "to_double neg n d = (if n = 0 then Inr (Fin 0 0)
     else case round_binary64 n d of None \<Rightarrow> Inl Out_of_range
          | Some (k, e) \<Rightarrow> (case strip2 k e of (m, f) \<Rightarrow> Inr (Fin (if neg then - m else m) f)))"

definition stod :: "string \<Rightarrow> conv_error + double" where
  "stod s =
    (let (neg, r) = split_sign (dropWhile isspace s) in
     if ci_prefix ''INF'' r then Inr (Inf neg)
     else if ci_prefix ''NAN'' r then Inr NaN
     else case (case hex_float r of None \<Rightarrow> dec_float r | Some x \<Rightarrow> Some x) of
       None \<Rightarrow> Inl Invalid_argument
     | Some (n, d) \<Rightarrow> to_double neg n d)"

section \<open>The order of doubles\<close>

lemma scaled_shift: "e1 \<le> e0 \<Longrightarrow> e0 \<le> e \<Longrightarrow> scaled m e e1 = scaled m e e0 * 2 ^ nat (e0 - e1)"
proof -
  assume "e1 \<le> e0" "e0 \<le> e"
  then have "nat (e - e1) = nat (e - e0) + nat (e0 - e1)" by simp
  then show ?thesis by (simp only: scaled_def power_add mult.assoc)
qed

lemma scaled_less_iff:
  "e0 \<le> min e f \<Longrightarrow> scaled m e (min e f) < scaled n f (min e f) \<longleftrightarrow> scaled m e e0 < scaled n f e0"
  by (simp add: scaled_shift [of e0 "min e f"])

lemma scaled_eq_iff:
  "e0 \<le> min e f \<Longrightarrow> scaled m e (min e f) = scaled n f (min e f) \<longleftrightarrow> scaled m e e0 = scaled n f e0"
  by (simp add: scaled_shift [of e0 "min e f"])

lemma Fin_less_iff:
  "e0 \<le> e \<Longrightarrow> e0 \<le> f \<Longrightarrow> dbl_lt (Fin m e) (Fin n f) \<longleftrightarrow> scaled m e e0 < scaled n f e0"
  by (simp add: dbl_lt_def scaled_less_iff)

lemma Fin_eq_iff:
  "e0 \<le> e \<Longrightarrow> e0 \<le> f \<Longrightarrow> dbl_eq (Fin m e) (Fin n f) \<longleftrightarrow> scaled m e e0 = scaled n f e0"
  by (simp add: dbl_eq_def scaled_eq_iff)

lemma dbl_lt_irrefl [simp]: "\<not> dbl_lt a a"
  by (cases a) (simp_all add: dbl_lt_def)

lemma dbl_lt_NaN [simp]: "\<not> dbl_lt NaN a" "\<not> dbl_lt a NaN"
  by (cases a; simp add: dbl_lt_def)+

lemma dbl_eq_NaN [simp]: "\<not> dbl_eq NaN a" "\<not> dbl_eq a NaN"
  by (cases a; simp add: dbl_eq_def)+

lemma dbl_lt_trans: "dbl_lt a b \<Longrightarrow> dbl_lt b c \<Longrightarrow> dbl_lt a c"
proof (cases a; cases b; cases c)
  fix m e n f p g assume abc: "a = Fin m e" "b = Fin n f" "c = Fin p g" "dbl_lt a b" "dbl_lt b c"
  define e0 where "e0 = min e (min f g)"
  have le: "e0 \<le> e" "e0 \<le> f" "e0 \<le> g" by (simp_all add: e0_def)
  from abc show "dbl_lt a c"
    using Fin_less_iff [OF le(1,2)] Fin_less_iff [OF le(2,3)] Fin_less_iff [OF le(1,3)] by simp
qed (simp_all add: dbl_lt_def)

text \<open>Without a NaN the order is total: exactly one of the three comparisons holds.\<close>

lemma dbl_trichotomy: "a \<noteq> NaN \<Longrightarrow> b \<noteq> NaN \<Longrightarrow> dbl_eq a b \<longleftrightarrow> \<not> dbl_lt a b \<and> \<not> dbl_lt b a"
proof (cases a; cases b)
  fix m e n f assume "a = Fin m e" "b = Fin n f"
  then show "dbl_eq a b \<longleftrightarrow> \<not> dbl_lt a b \<and> \<not> dbl_lt b a"
    by (auto simp: Fin_eq_iff [of "min e f"] Fin_less_iff [of "min e f"])
qed (auto simp: dbl_lt_def dbl_eq_def)

lemma dbl_eq_refl [simp]: "a \<noteq> NaN \<Longrightarrow> dbl_eq a a"
  by (simp add: dbl_trichotomy)

lemma dbl_eq_sym: "dbl_eq a b = dbl_eq b a"
  by (cases "a = NaN"; cases "b = NaN"; auto simp: dbl_trichotomy)

lemma dbl_eq_lt: "dbl_eq a b \<Longrightarrow> dbl_lt b c = dbl_lt a c"
  and dbl_lt_eq: "dbl_eq a b \<Longrightarrow> dbl_lt c b = dbl_lt c a"
proof -
  show "dbl_lt b c = dbl_lt a c" if ab: "dbl_eq a b"
  proof (cases a; cases b; cases c)
    fix m e n f p g assume abc: "a = Fin m e" "b = Fin n f" "c = Fin p g"
    define e0 where "e0 = min e (min f g)"
    have le: "e0 \<le> e" "e0 \<le> f" "e0 \<le> g" by (simp_all add: e0_def)
    from abc ab show ?thesis
      using Fin_eq_iff [OF le(1,2)] Fin_less_iff [OF le(2,3)] Fin_less_iff [OF le(1,3)]
        Fin_less_iff [OF le(3,2)] Fin_less_iff [OF le(3,1)] by simp
  qed (use ab in \<open>simp_all add: dbl_lt_def dbl_eq_def\<close>)
  show "dbl_lt c b = dbl_lt c a" if ab: "dbl_eq a b"
  proof (cases a; cases b; cases c)
    fix m e n f p g assume abc: "a = Fin m e" "b = Fin n f" "c = Fin p g"
    define e0 where "e0 = min e (min f g)"
    have le: "e0 \<le> e" "e0 \<le> f" "e0 \<le> g" by (simp_all add: e0_def)
    from abc ab show ?thesis
      using Fin_eq_iff [OF le(1,2)] Fin_less_iff [OF le(2,3)] Fin_less_iff [OF le(1,3)]
        Fin_less_iff [OF le(3,2)] Fin_less_iff [OF le(3,1)] by simp
  qed (use ab in \<open>auto simp: dbl_lt_def dbl_eq_def\<close>)
qed

lemma dbl_eq_trans: "dbl_eq a b \<Longrightarrow> dbl_eq b c \<Longrightarrow> dbl_eq a c"
proof -
  assume ab: "dbl_eq a b" and bc: "dbl_eq b c"
  then have "a \<noteq> NaN" "b \<noteq> NaN" "c \<noteq> NaN" by auto
  with ab bc show ?thesis
    using dbl_eq_lt [OF ab, of c] dbl_lt_eq [OF ab, of c] by (simp add: dbl_trichotomy)
qed

section \<open>Decimal integers are read exactly\<close>

lemma ilog2_bounds: "1 \<le> n \<Longrightarrow> 0 \<le> ilog2 n \<and> 2 ^ nat (ilog2 n) \<le> n \<and> n < 2 * 2 ^ nat (ilog2 n)"
proof (induction n rule: ilog2.induct)
  case (1 n)
  show ?case
  proof (cases "n < 2")
    case True
    with "1.prems" show ?thesis by (simp add: ilog2.simps)
  next
    case False
    then have "1 \<le> n div 2" by linarith
    with 1 False have IH: "0 \<le> ilog2 (n div 2)" "2 ^ nat (ilog2 (n div 2)) \<le> n div 2"
      "n div 2 < 2 * 2 ^ nat (ilog2 (n div 2))" by auto
    have s: "nat (1 + ilog2 (n div 2)) = Suc (nat (ilog2 (n div 2)))" using IH(1) by simp
    have "2 * (n div 2) \<le> n" "n < 2 * (n div 2) + 2" by auto
    with IH have "2 * 2 ^ nat (ilog2 (n div 2)) \<le> n" "n < 4 * 2 ^ nat (ilog2 (n div 2))"
      by linarith+
    with False IH(1) show ?thesis by (subst (1 2 3) ilog2.simps) (simp add: s)
  qed
qed

lemma ilog2_less: "1 \<le> n \<Longrightarrow> n < 2 ^ k \<Longrightarrow> ilog2 n < int k"
proof (rule ccontr)
  assume a: "1 \<le> n" "n < 2 ^ k" "\<not> ilog2 n < int k"
  then have "(2::int) ^ k \<le> 2 ^ nat (ilog2 n)" by (intro power_increasing) auto
  with ilog2_bounds [OF a(1)] a(2) show False by linarith
qed

lemma strip2_scaled: "strip2 k e = (m, f) \<Longrightarrow> e \<le> f \<and> scaled m f e = k"
proof (induction k e arbitrary: m f rule: strip2.induct)
  case (1 k e)
  show ?case
  proof (cases "k \<noteq> 0 \<and> even k")
    case True
    with "1.prems" have "strip2 (k div 2) (e + 1) = (m, f)" by (simp add: strip2.simps [of k])
    from "1.IH"[OF True this] have IH: "e + 1 \<le> f" "scaled m f (e + 1) = k div 2" by auto
    then have "scaled m f e = k div 2 * 2" using scaled_shift [of e "e + 1" f m] by simp
    with IH True show ?thesis by simp
  next
    case False
    then have "strip2 k e = (k, e)" by (subst strip2.simps) (rule if_not_P)
    with "1.prems" show ?thesis by (simp add: scaled_def)
  qed
qed

lemma to_double_int:
  assumes "0 \<le> n" "n < 2 ^ 53"
  shows "\<exists>d. to_double neg n 1 = Inr d \<and> dbl_eq d (Fin (if neg then - n else n) 0)"
proof (cases "n = 0")
  case True
  then show ?thesis by (simp add: to_double_def)
next
  case False
  define l where "l = ilog2 n"
  have n: "1 \<le> n" using False assms by simp
  have l: "0 \<le> l" "l < 53" "2 ^ nat l \<le> n" "n < 2 * 2 ^ nat l"
    using ilog2_bounds [OF n] ilog2_less [OF n, of 53] assms by (simp_all add: l_def)
  have fe: "frac_exponent n 1 = l" using l
    by (simp add: frac_exponent_def ilog2.simps [of 1] flip: l_def)
  define k where "k = n * 2 ^ nat (52 - l)"
  have one: "div_half_even x 1 = x" for x by (simp add: div_half_even_def)
  have "k < 2 * 2 ^ nat l * 2 ^ nat (52 - l)" using l(4) by (simp add: k_def)
  also have "\<dots> = 2 ^ (Suc (nat l + nat (52 - l)))" by (simp add: power_add)
  also have "Suc (nat l + nat (52 - l)) = 53" using l by simp
  finally have "k \<noteq> 2 ^ 53" by simp
  then have r: "round_binary64 n 1 = Some (k, l - 52)"
    using l by (cases "l = 52") (simp_all add: round_binary64_def fe one k_def Let_def)
  obtain m f where s: "strip2 k (l - 52) = (m, f)" by fastforce
  have f: "l - 52 \<le> f" "scaled m f (l - 52) = k" using strip2_scaled [OF s] by auto
  have "scaled n 0 (l - 52) = k" by (simp add: scaled_def k_def)
  then have "scaled (if neg then - m else m) f (l - 52) = scaled (if neg then - n else n) 0 (l - 52)"
    using f by (simp add: scaled_def)
  then have "dbl_eq (Fin (if neg then - m else m) f) (Fin (if neg then - n else n) 0)"
    using f l by (subst Fin_eq_iff [of "l - 52"]) auto
  then show ?thesis using False r s by (simp add: to_double_def)
qed

definition int_to_string :: "int \<Rightarrow> string" where
  "int_to_string n = (if n < 0 then CHR ''-'' # nat_to_string (nat (- n)) else nat_to_string (nat n))"

lemma ci_prefix_digit: "isdigit c \<Longrightarrow> \<not> ci_prefix ''INF'' (c # cs) \<and> \<not> ci_prefix ''NAN'' (c # cs)"
proof -
  assume c: "isdigit c"
  then have "c \<noteq> CHR ''I''" "c \<noteq> CHR ''N''" by (auto simp: isdigit_def)
  with c show ?thesis by (simp add: ci_prefix_def)
qed

lemma ci_prefix_hex: "list_all isdigit s \<Longrightarrow> \<not> ci_prefix ''0X'' s"
proof
  assume d: "list_all isdigit s" and "ci_prefix ''0X'' s"
  then obtain a b cs where "s = a # b # cs" "toupper b = CHR ''X''"
    by (cases s rule: remdups_adj.cases) (auto simp: ci_prefix_def)
  with d have "isdigit (CHR ''X'')" by auto
  then show False by (simp add: isdigit_def)
qed

lemma dec_float_nat: "dec_float (nat_to_string n) = Some (int n, 1)"
  by (simp add: dec_float_def read_mantissa_def read_exponent_def scale_frac_def)

lemma stod_int_to_string:
  assumes "\<bar>n\<bar> < 2 ^ 53"
  shows "\<exists>d. stod (int_to_string n) = Inr d \<and> dbl_eq d (Fin n 0)"
proof -
  obtain c cs where c: "nat_to_string (nat \<bar>n\<bar>) = c # cs" "isdigit c" "list_all isdigit cs"
    using nat_to_string_Cons by blast
  let ?s = "nat_to_string (nat \<bar>n\<bar>)"
  have s: "int_to_string n = (if n < 0 then CHR ''-'' # ?s else ?s)" by (simp add: int_to_string_def)
  have "split_sign (dropWhile isspace (int_to_string n)) = (n < 0, ?s)"
    using c isdigit_not [OF c(2)] by (auto simp: s split_sign_def isspace_def)
  moreover have "hex_float ?s = None" using c ci_prefix_hex [of ?s] by (simp add: hex_float_def)
  ultimately have "stod (int_to_string n) = to_double (n < 0) \<bar>n\<bar> 1"
    using ci_prefix_digit [OF c(2)] dec_float_nat [of "nat \<bar>n\<bar>"] by (simp add: stod_def c(1))
  with to_double_int [of "\<bar>n\<bar>" "n < 0"] assms show ?thesis by (auto split: if_splits)
qed

lemma stoi_nat_to_string: "n < 2 ^ 31 \<Longrightarrow> stoi (nat_to_string n) = Inr (int n)"
proof -
  assume n: "n < 2 ^ 31"
  obtain c cs where c: "nat_to_string n = c # cs" "isdigit c" "list_all isdigit cs"
    using nat_to_string_Cons by blast
  have "split_sign (dropWhile isspace (nat_to_string n)) = (False, nat_to_string n)"
    using isdigit_not [OF c(2)] by (simp add: c(1) split_sign_def)
  then show ?thesis using n by (simp add: stoi_def Let_def)
qed

end
