(* ===== verification/Expr_Eval.thy ===== *)
theory Expr_Eval
  imports Ast Numeric
begin

text \<open>
  Expression evaluation over rows (src/executor.cpp). A \<open>Row\<close> maps column names to values; a
  missing column reads as the empty string. Comparisons are numeric when both operands start
  with a number, and on strings otherwise.
\<close>

definition resolveExpr :: "expr \<Rightarrow> row \<Rightarrow> string" where
  "resolveExpr e row = (case e of
      LiteralExpr k v \<Rightarrow> v
    | ColumnRefExpr t c \<Rightarrow> (case fmlookup row c of Some v \<Rightarrow> v | None \<Rightarrow> [])
    | BinaryExpr op l r \<Rightarrow> []
    | UnaryExpr op x \<Rightarrow> [])"

definition compareValues :: "string \<Rightarrow> string \<Rightarrow> string \<Rightarrow> bool" where
  "compareValues left op right = (case (stod left, stod right) of
      (Inr l, Inr r) \<Rightarrow>
        if op = ''='' then dbl_eq l r
        else if op = ''!='' then \<not> dbl_eq l r
        else if op = ''<'' then dbl_lt l r
        else if op = ''>'' then dbl_lt r l
        else if op = ''<='' then dbl_le l r
        else if op = ''>='' then dbl_le r l
        else False
    | _ \<Rightarrow>
        if op = ''='' then left = right
        else if op = ''!='' then left \<noteq> right
        else if op = ''<'' then left < right
        else if op = ''>'' then right < left
        else if op = ''<='' then left \<le> right
        else if op = ''>='' then right \<le> left
        else False)"

fun evaluateExpr :: "expr \<Rightarrow> row \<Rightarrow> bool" where
  "evaluateExpr (BinaryExpr op l r) row =
    (if op = ''AND'' then evaluateExpr l row \<and> evaluateExpr r row
     else if op = ''OR'' then evaluateExpr l row \<or> evaluateExpr r row
     else compareValues (resolveExpr l row) op (resolveExpr r row))"
| "evaluateExpr (UnaryExpr op x) row = (if op = ''NOT'' then \<not> evaluateExpr x row else True)"
| "evaluateExpr (LiteralExpr k v) row = (v = ''true'' \<or> v = ''1'')"
| "evaluateExpr (ColumnRefExpr t c) row = True"

definition extractLiteral :: "expr \<Rightarrow> string" where
  "extractLiteral e = (case e of LiteralExpr k v \<Rightarrow> v | _ \<Rightarrow> [])"

section \<open>Comparisons\<close>

lemma dbl_lt_Fin0: "dbl_eq x (Fin a 0) \<Longrightarrow> dbl_eq y (Fin b 0) \<Longrightarrow> dbl_lt x y \<longleftrightarrow> a < b"
  using dbl_eq_lt [of x "Fin a 0" y] dbl_lt_eq [of y "Fin b 0" "Fin a 0"] dbl_eq_sym
  by (simp add: Fin_less_iff [of 0] scaled_def)

lemma dbl_eq_Fin0: "dbl_eq x (Fin a 0) \<Longrightarrow> dbl_eq y (Fin b 0) \<Longrightarrow> dbl_eq x y \<longleftrightarrow> a = b"
proof -
  assume x: "dbl_eq x (Fin a 0)" and y: "dbl_eq y (Fin b 0)"
  then have "x \<noteq> NaN" "y \<noteq> NaN" by auto
  then show ?thesis
    using dbl_lt_Fin0 [OF x y] dbl_lt_Fin0 [OF y x] by (auto simp: dbl_trichotomy)
qed

text \<open>
  C25. On values that are decimal integers of at most 53 bits, each of the six SQL comparison
  operators is the comparison of the integers: sign, leading zeros of the representation and
  the length of the numerals play no role.
\<close>

theorem compareValues_int:
  assumes "\<bar>a\<bar> < 2 ^ 53" "\<bar>b\<bar> < 2 ^ 53"
  shows "map (\<lambda>op. compareValues (int_to_string a) op (int_to_string b))
           [''='', ''!='', ''<'', ''>'', ''<='', ''>=''] =
         [a = b, a \<noteq> b, a < b, b < a, a \<le> b, b \<le> a]"
proof -
  obtain x y where x: "stod (int_to_string a) = Inr x" "dbl_eq x (Fin a 0)"
    and y: "stod (int_to_string b) = Inr y" "dbl_eq y (Fin b 0)"
    using stod_int_to_string assms by blast
  show ?thesis
    using x(1) y(1) dbl_eq_Fin0 [OF x(2) y(2)] dbl_lt_Fin0 [OF x(2) y(2)]
      dbl_eq_Fin0 [OF y(2) x(2)] dbl_lt_Fin0 [OF y(2) x(2)]
    by (auto simp: compareValues_def dbl_le_def)
qed

theorem compareValues_int_witness:
  "map (\<lambda>op. compareValues (int_to_string 9) op (int_to_string (-10)))
     [''='', ''!='', ''<'', ''>'', ''<='', ''>=''] =
   [(9::int) = -10, (9::int) \<noteq> -10, (9::int) < -10, (-10::int) < 9, (9::int) \<le> -10, (-10::int) \<le> 9]"
  by (rule compareValues_int) simp_all

text \<open>
  The operators decide every pair of values that no conversion turns into a NaN: \<open><\<close>, \<open>=\<close> and
  \<open>>\<close> exclude each other and one of them holds, and the other three are their negations.
\<close>

definition reads_nan :: "string \<Rightarrow> bool" where
  "reads_nan s \<longleftrightarrow> stod s = Inr NaN"

text \<open>
  For all values none of which reads as a NaN, exactly one of \<open><\<close>, \<open>=\<close> and \<open>>\<close> holds, and
  \<open>>=\<close>, \<open>!=\<close> and \<open><=\<close> are their negations, whether the comparison is numeric or on strings.
\<close>

theorem compareValues_trichotomy:
  assumes "\<not> reads_nan a" "\<not> reads_nan b"
  shows "(compareValues a ''<'' b, compareValues a ''='' b, compareValues a ''>'' b)
           \<in> {(True, False, False), (False, True, False), (False, False, True)} \<and>
         compareValues a ''>='' b = (\<not> compareValues a ''<'' b) \<and>
         compareValues a ''!='' b = (\<not> compareValues a ''='' b) \<and>
         compareValues a ''<='' b = (\<not> compareValues a ''>'' b)"
proof (cases "\<exists>x y. stod a = Inr x \<and> stod b = Inr y")
  case True
  then obtain x y where xy: "stod a = Inr x" "stod b = Inr y" by blast
  then have "x \<noteq> NaN" "y \<noteq> NaN" using assms by (auto simp: reads_nan_def)
  then have "dbl_eq x y \<longleftrightarrow> \<not> dbl_lt x y \<and> \<not> dbl_lt y x" "dbl_eq y x = dbl_eq x y"
    "\<not> (dbl_lt x y \<and> dbl_lt y x)"
    using dbl_trichotomy dbl_eq_sym dbl_lt_trans [of x y x] by auto
  with xy show ?thesis by (auto simp: compareValues_def dbl_le_def)
next
  case False
  then have "compareValues a op b = (
        if op = ''='' then a = b else if op = ''!='' then a \<noteq> b
        else if op = ''<'' then a < b else if op = ''>'' then b < a
        else if op = ''<='' then a \<le> b else if op = ''>='' then b \<le> a else False)" for op
    by (cases "stod a"; cases "stod b") (simp_all add: compareValues_def)
  note cmp = this [of "''<''", simplified] this [of "''=''", simplified]
    this [of "''>''", simplified] this [of "''>=''", simplified] this [of "''!=''", simplified] this [of "''<=''", simplified]
  show ?thesis
    unfolding cmp using less_linear [of a b] by (auto simp: not_less not_le)
qed

theorem compareValues_trichotomy_witness:
  "(compareValues ''10'' ''<'' ''9.5'', compareValues ''10'' ''='' ''9.5'', compareValues ''10'' ''>'' ''9.5'')
     \<in> {(True, False, False), (False, True, False), (False, False, True)} \<and>
   compareValues ''10'' ''>='' ''9.5'' = (\<not> compareValues ''10'' ''<'' ''9.5'') \<and>
   compareValues ''10'' ''!='' ''9.5'' = (\<not> compareValues ''10'' ''='' ''9.5'') \<and>
   compareValues ''10'' ''<='' ''9.5'' = (\<not> compareValues ''10'' ''>'' ''9.5'')"
  by (rule compareValues_trichotomy) code_simp+

section \<open>Conditions\<close>

definition known_ops :: "string list" where
  "known_ops = [''AND'', ''OR'', ''='', ''!='', ''<'', ''>'', ''<='', ''>='']"

lemma unknown_op_false: "op \<notin> set known_ops \<Longrightarrow> \<not> evaluateExpr (BinaryExpr op l r) row"
  by (simp add: known_ops_def compareValues_def split: sum.split)

text \<open>The columns a condition reads: it depends on no other column of the row.\<close>

fun expr_columns :: "expr \<Rightarrow> string set" where
  "expr_columns (LiteralExpr k v) = {}"
| "expr_columns (ColumnRefExpr t c) = {c}"
| "expr_columns (BinaryExpr op l r) = expr_columns l \<union> expr_columns r"
| "expr_columns (UnaryExpr op x) = expr_columns x"

lemma resolveExpr_cong:
  "(\<And>c. c \<in> expr_columns e \<Longrightarrow> fmlookup row c = fmlookup row' c) \<Longrightarrow> resolveExpr e row = resolveExpr e row'"
  by (cases e) (simp_all add: resolveExpr_def)

lemma evaluateExpr_cong:
  "(\<And>c. c \<in> expr_columns e \<Longrightarrow> fmlookup row c = fmlookup row' c) \<Longrightarrow> evaluateExpr e row = evaluateExpr e row'"
proof (induction e)
  case (BinaryExpr op l r)
  then have "resolveExpr l row = resolveExpr l row'" "resolveExpr r row = resolveExpr r row'"
    by (auto intro: resolveExpr_cong)
  with BinaryExpr show ?case by simp
qed simp_all

end
