(* ===== verification/Plan.thy ===== *)
theory Plan
  imports Ast
begin

text \<open>
  Logical and physical plans (include/logical_plan.h, include/physical_plan.h) and the two
  passes of the optimizer (src/optimizer.cpp). A node holds its payload and the vector of its
  children, as in the source, where no type ties a node to its number of children:
  \<open>children[i]\<close> outside the vector is undefined in C++ and is \<open>Plan_undefined\<close> here.
\<close>

datatype logicalPlan =
    LogicalScan string "logicalPlan list"
  | LogicalFilter expr "logicalPlan list"
  | LogicalProjection "string list" "logicalPlan list"
  | LogicalSort "orderByClause list" "logicalPlan list"
  | LogicalLimit int "logicalPlan list"
  | LogicalJoin string string "logicalPlan list"

datatype physicalPlan =
    PhysicalSeqScan string "physicalPlan list"
  | PhysicalFilter expr "physicalPlan list"
  | PhysicalProjection "string list" "physicalPlan list"
  | PhysicalSort "orderByClause list" "physicalPlan list"
  | PhysicalLimit int "physicalPlan list"
  | PhysicalHashJoin string string "physicalPlan list"

datatype plan_error = Plan_unsupported | Plan_undefined

section \<open>Pass 1: statements to logical plans\<close>

definition buildSelect :: "selectStatement \<Rightarrow> logicalPlan" where
  "buildSelect stmt =
    (let cur = LogicalScan (sel_table stmt) [];
         cur = (case sel_where stmt of None \<Rightarrow> cur | Some e \<Rightarrow> LogicalFilter e [cur]);
         cur = LogicalProjection (sel_columns stmt) [cur];
         cur = (if sel_orderBy stmt \<noteq> [] then LogicalSort (sel_orderBy stmt) [cur] else cur);
         cur = (case sel_limit stmt of None \<Rightarrow> cur | Some n \<Rightarrow> LogicalLimit n [cur])
     in cur)"

definition buildInsert :: "insertStatement \<Rightarrow> logicalPlan" where
  "buildInsert stmt = LogicalScan (ins_table stmt) []"

definition buildDelete :: "deleteStatement \<Rightarrow> logicalPlan" where
  "buildDelete stmt = (let scan = LogicalScan (del_table stmt) [] in
     case del_where stmt of None \<Rightarrow> scan | Some e \<Rightarrow> LogicalFilter e [scan])"

definition buildUpdate :: "updateStatement \<Rightarrow> logicalPlan" where
  "buildUpdate stmt = (let scan = LogicalScan (upd_table stmt) [] in
     case upd_where stmt of None \<Rightarrow> scan | Some e \<Rightarrow> LogicalFilter e [scan])"

definition toLogical :: "statement \<Rightarrow> plan_error + logicalPlan" where
  "toLogical stmt = (case stmt of
      StSelect s \<Rightarrow> Inr (buildSelect s)
    | StInsert s \<Rightarrow> Inr (buildInsert s)
    | StDelete s \<Rightarrow> Inr (buildDelete s)
    | StUpdate s \<Rightarrow> Inr (buildUpdate s)
    | _ \<Rightarrow> Inl Plan_unsupported)"

section \<open>Pass 2: logical to physical plans\<close>

text \<open>\<open>children[0]\<close> and \<open>children[1]\<close>.\<close>

definition child_at :: "nat \<Rightarrow> 'a list \<Rightarrow> plan_error + 'a" where
  "child_at i cs = (if i < length cs then Inr (cs ! i) else Inl Plan_undefined)"

lemma child_at_simps [simp]:
  "child_at 0 (c # cs) = Inr c" "child_at (Suc 0) (c # d # cs) = Inr d"
  by (simp_all add: child_at_def)

lemma child_at_size: "child_at i cs = Inr c \<Longrightarrow> size c < Suc (size_list size cs)"
  by (auto simp: child_at_def less_Suc_eq_le split: if_splits intro!: size_list_estimation' [of c cs])

function buildPhysical :: "logicalPlan \<Rightarrow> plan_error + physicalPlan" where
  "buildPhysical (LogicalScan t cs) = Inr (PhysicalSeqScan t [])"
| "buildPhysical (LogicalFilter e cs) =
     ebind (child_at 0 cs) (\<lambda>c. ebind (buildPhysical c) (\<lambda>p. Inr (PhysicalFilter e [p])))"
| "buildPhysical (LogicalProjection cols cs) =
     ebind (child_at 0 cs) (\<lambda>c. ebind (buildPhysical c) (\<lambda>p. Inr (PhysicalProjection cols [p])))"
| "buildPhysical (LogicalSort ob cs) =
     ebind (child_at 0 cs) (\<lambda>c. ebind (buildPhysical c) (\<lambda>p. Inr (PhysicalSort ob [p])))"
| "buildPhysical (LogicalLimit n cs) =
     ebind (child_at 0 cs) (\<lambda>c. ebind (buildPhysical c) (\<lambda>p. Inr (PhysicalLimit n [p])))"
| "buildPhysical (LogicalJoin lk rk cs) =
     ebind (child_at 0 cs) (\<lambda>l. ebind (buildPhysical l) (\<lambda>left.
     ebind (child_at 1 cs) (\<lambda>r. ebind (buildPhysical r) (\<lambda>right.
       Inr (PhysicalHashJoin lk rk [left, right])))))"
  by pat_completeness auto
termination
  by (relation "measure size") (auto dest!: child_at_size)

definition toPhysical :: "logicalPlan \<Rightarrow> plan_error + physicalPlan" where
  "toPhysical logical = buildPhysical logical"

section \<open>Plans with the children their nodes need\<close>

inductive plan_ok :: "physicalPlan \<Rightarrow> bool" where
  scan: "plan_ok (PhysicalSeqScan t cs)"
| filter: "plan_ok c \<Longrightarrow> plan_ok (PhysicalFilter e (c # cs))"
| projection: "plan_ok c \<Longrightarrow> plan_ok (PhysicalProjection cols (c # cs))"
| sort: "plan_ok c \<Longrightarrow> plan_ok (PhysicalSort ob (c # cs))"
| limit: "plan_ok c \<Longrightarrow> plan_ok (PhysicalLimit n (c # cs))"
| join: "plan_ok c \<Longrightarrow> plan_ok d \<Longrightarrow> plan_ok (PhysicalHashJoin lk rk (c # d # cs))"

inductive_simps plan_ok_simps [simp]:
  "plan_ok (PhysicalSeqScan t cs)"
  "plan_ok (PhysicalFilter e cs)"
  "plan_ok (PhysicalProjection cols cs)"
  "plan_ok (PhysicalSort ob cs)"
  "plan_ok (PhysicalLimit n cs)"
  "plan_ok (PhysicalHashJoin lk rk cs)"

lemma buildPhysical_ok: "buildPhysical l = Inr p \<Longrightarrow> plan_ok p"
  by (induction l arbitrary: p rule: buildPhysical.induct) auto

text \<open>The physical plan of a SELECT: scan, filter, projection, sort, limit, bottom-up.\<close>

definition select_plan :: "selectStatement \<Rightarrow> physicalPlan" where
  "select_plan stmt =
    (let cur = PhysicalSeqScan (sel_table stmt) [];
         cur = (case sel_where stmt of None \<Rightarrow> cur | Some e \<Rightarrow> PhysicalFilter e [cur]);
         cur = PhysicalProjection (sel_columns stmt) [cur];
         cur = (if sel_orderBy stmt \<noteq> [] then PhysicalSort (sel_orderBy stmt) [cur] else cur);
         cur = (case sel_limit stmt of None \<Rightarrow> cur | Some n \<Rightarrow> PhysicalLimit n [cur])
     in cur)"

lemma plan_select: "buildPhysical (buildSelect stmt) = Inr (select_plan stmt)"
  by (simp add: buildSelect_def select_plan_def Let_def split: option.split)

end
