(* ===== verification/Mvcc.thy ===== *)
theory Mvcc
  imports Prelude
begin

text \<open>
  Row versions and snapshots (include/mvcc.h). Transaction ids are 64-bit words, compared
  unsigned; \<open>deletedBy = 0\<close> means not deleted.
\<close>

record versionedRow =
  vr_data :: row
  vr_createdBy :: txn_id
  vr_deletedBy :: txn_id

record mvccSnapshot =
  snapshotId :: txn_id

definition MvccSnapshot_init :: "txn_id \<Rightarrow> mvccSnapshot" where
  "MvccSnapshot_init i = \<lparr>snapshotId = i\<rparr>"

definition isVisible :: "mvccSnapshot \<Rightarrow> versionedRow \<Rightarrow> bool" where
  "isVisible s version =
    (let created = (vr_createdBy version \<le> snapshotId s);
         notDeleted = (vr_deletedBy version = 0 \<or> snapshotId s < vr_deletedBy version)
     in created \<and> notDeleted)"

text \<open>
  A version created by one transaction and deleted by a later one is visible to exactly
  the snapshots from the creation up to, and not including, the deletion; a version never
  deleted is visible from its creation on. So of two versions of a row where the second
  replaces the first, every snapshot from the first creation on sees exactly one.
\<close>

theorem isVisible_one_version:
  assumes "0 < t2" "t1 \<le> t2" "t1 \<le> snapshotId s"
  shows "isVisible s \<lparr>vr_data = old, vr_createdBy = t1, vr_deletedBy = t2\<rparr> \<noteq>
         isVisible s \<lparr>vr_data = new, vr_createdBy = t2, vr_deletedBy = 0\<rparr>"
  using assms by (auto simp: isVisible_def)

theorem isVisible_one_version_witness:
  "isVisible \<lparr>snapshotId = 5\<rparr> \<lparr>vr_data = fmempty, vr_createdBy = 3, vr_deletedBy = 7\<rparr> \<noteq>
   isVisible \<lparr>snapshotId = 5\<rparr> \<lparr>vr_data = fmempty, vr_createdBy = 7, vr_deletedBy = 0\<rparr>"
  by (rule isVisible_one_version) simp_all

end
