(* ===== verification/Operators.thy ===== *)
theory Operators
  imports Expr_Eval Plan Mvcc
begin

text \<open>
  The Volcano operators (include/operator.h and one header each; hash_join.cpp). An operator
  is its fields; \<open>next()\<close> returns a row or nothing and the operator as it is afterwards.

  A loop of the source that pulls from a child may in principle never end, so \<open>next\<close> is
  partial: \<open>None\<close> is a call that does not return. The \<open>next\<close> of each class takes the \<open>next\<close> of
  its child as an argument (the virtual call); \<open>op_next\<close> ties them together. Opening an
  operator can also fail: \<open>std::sort\<close> is undefined when its comparator is no strict weak
  order on the rows it sorts (\<open>Sort_undefined\<close>). Where it is defined, the result of
  \<open>std::sort\<close> is the value of the parameter \<open>srt\<close>, of which only the documented contract
  \<open>sort_contract\<close> is used.
\<close>

section \<open>Row sources\<close>

type_synonym 's source = "'s \<Rightarrow> (row option \<times> 's) option"

fun yields :: "'s source \<Rightarrow> 's \<Rightarrow> row list \<Rightarrow> bool" where
  "yields nxt s [] = (\<exists>s'. nxt s = Some (None, s'))"
| "yields nxt s (x # xs) = (\<exists>s'. nxt s = Some (Some x, s') \<and> yields nxt s' xs)"

text \<open>The loop \<open>while (auto row = child_->next()) buffer.push_back(row)\<close>.\<close>

partial_function (option) pull_all :: "'s source \<Rightarrow> row list \<Rightarrow> 's \<Rightarrow> (row list \<times> 's) option" where
  "pull_all nxt acc s = Option.bind (nxt s) (\<lambda>(r, s').
     case r of None \<Rightarrow> Some (acc, s') | Some x \<Rightarrow> pull_all nxt (acc @ [x]) s')"

lemma pull_all_yields: "yields nxt s xs \<Longrightarrow> \<exists>s'. pull_all nxt acc s = Some (acc @ xs, s')"
proof (induction xs arbitrary: s acc)
  case Nil
  then show ?case by (subst pull_all.simps) auto
next
  case (Cons x xs)
  then obtain s' where "nxt s = Some (Some x, s')" "yields nxt s' xs" by auto
  with Cons.IH [of s' "acc @ [x]"] show ?case by (subst pull_all.simps) auto
qed

text \<open>Errors of execution; \<open>op_undefined\<close> values are undefined behaviour of C++.\<close>

datatype exec_error =
    Table_not_found string
  | Table_exists string
  | Sort_undefined
  | Exec_undefined

text \<open>
  The interface a consumer of rows relies on. A source has a denotation \<open>contents\<close>: the rows
  it stands for, or the error its opening ends with. Opening it returns; when it succeeds,
  \<open>next\<close> returns these rows one by one and then reports the end.
\<close>

type_synonym 's opener = "'s \<Rightarrow> (exec_error + 's) option"

definition fill :: "'s source \<Rightarrow> (exec_error + 's) option \<Rightarrow> (exec_error + row list \<times> 's) option" where
  "fill nxt opened = Option.bind opened (\<lambda>r. case r of Inl e \<Rightarrow> Some (Inl e)
     | Inr s \<Rightarrow> map_option Inr (pull_all nxt [] s))"

locale row_source =
  fixes nxt :: "'s source"
    and opn :: "'s opener"
    and contents :: "'s \<Rightarrow> exec_error + row list"
  assumes open_error: "contents s = Inl e \<Longrightarrow> opn s = Some (Inl e)"
    and open_yields: "contents s = Inr xs \<Longrightarrow> \<exists>s'. opn s = Some (Inr s') \<and> yields nxt s' xs"
begin

lemma fill_error: "contents s = Inl e \<Longrightarrow> fill nxt (opn s) = Some (Inl e)"
  by (simp add: fill_def open_error)

lemma fill_rows: "contents s = Inr xs \<Longrightarrow> \<exists>s'. fill nxt (opn s) = Some (Inr (xs, s'))"
  using open_yields [of s xs] pull_all_yields [of nxt _ xs "[]"] by (force simp: fill_def)

lemma fill_contents: "map_option (map_sum id fst) (fill nxt (opn s)) = Some (contents s)"
  using fill_error fill_rows by (cases "contents s") fastforce+

end

section \<open>Scan\<close>

text \<open>The fields of \<open>SeqScan\<close>: \<open>rows_\<close> (null for a versioned scan) and the versioned rows.\<close>

function SeqScan_versioned :: "mvccSnapshot \<Rightarrow> versionedRow list \<Rightarrow> nat \<Rightarrow> row option \<times> nat" where
  "SeqScan_versioned snap vrows cursor =
    (if cursor < length vrows then
       if isVisible snap (vrows ! cursor) then (Some (vr_data (vrows ! cursor)), Suc cursor)
       else SeqScan_versioned snap vrows (Suc cursor)
     else (None, cursor))"
  by pat_completeness auto
termination
  by (relation "measure (\<lambda>(snap, vrows, cursor). length vrows - cursor)") auto

declare SeqScan_versioned.simps [simp del]

definition SeqScan_next ::
  "row list option \<Rightarrow> versionedRow list \<Rightarrow> mvccSnapshot option \<Rightarrow> nat \<Rightarrow> row option \<times> nat" where
  "SeqScan_next rows vrows snapshot cursor =
    (case snapshot of
       Some snap \<Rightarrow> SeqScan_versioned snap vrows cursor
     | None \<Rightarrow> (case rows of None \<Rightarrow> (None, cursor)
         | Some rs \<Rightarrow> if length rs \<le> cursor then (None, cursor) else (Some (rs ! cursor), Suc cursor)))"

definition SeqScan_rows :: "row list option \<Rightarrow> versionedRow list \<Rightarrow> mvccSnapshot option \<Rightarrow> row list" where
  "SeqScan_rows rows vrows snapshot =
    (case snapshot of
       Some snap \<Rightarrow> map vr_data (filter (isVisible snap) vrows)
     | None \<Rightarrow> (case rows of None \<Rightarrow> [] | Some rs \<Rightarrow> rs))"

section \<open>Filter, projection and limit\<close>

partial_function (option) Filter_next :: "'s source \<Rightarrow> expr \<Rightarrow> 's source" where
  "Filter_next nxt predicate child = Option.bind (nxt child) (\<lambda>(r, child').
     case r of None \<Rightarrow> Some (None, child')
     | Some row \<Rightarrow> if evaluateExpr predicate row then Some (Some row, child')
                  else Filter_next nxt predicate child')"

definition project_row :: "string list \<Rightarrow> row \<Rightarrow> row" where
  "project_row columns row =
    (if columns = [''*''] then row
     else foldl (\<lambda>projected col. case fmlookup row col of None \<Rightarrow> projected
                   | Some v \<Rightarrow> fmupd col v projected) fmempty columns)"

definition Projection_next :: "'s source \<Rightarrow> string list \<Rightarrow> 's source" where
  "Projection_next nxt columns child = Option.bind (nxt child) (\<lambda>(r, child').
     Some (case r of None \<Rightarrow> None | Some row \<Rightarrow> Some (project_row columns row), child'))"

definition Limit_next :: "'s source \<Rightarrow> int \<Rightarrow> int \<Rightarrow> 's \<Rightarrow> (row option \<times> int \<times> 's) option" where
  "Limit_next nxt cnt seen child =
    (if cnt \<le> seen then Some (None, seen, child)
     else Option.bind (nxt child) (\<lambda>(r, child').
       case r of None \<Rightarrow> Some (None, seen, child') | Some row \<Rightarrow> Some (Some row, seen + 1, child')))"

section \<open>Sort\<close>

definition Sort_compareValues :: "string \<Rightarrow> string \<Rightarrow> int" where
  "Sort_compareValues a b = (case (stod a, stod b) of
      (Inr da, Inr db) \<Rightarrow> if dbl_lt da db then -1 else if dbl_lt db da then 1 else 0
    | _ \<Rightarrow> if a < b then -1 else if b < a then 1 else 0)"

definition col_value :: "row \<Rightarrow> string \<Rightarrow> string" where
  "col_value row col = (case fmlookup row col of Some v \<Rightarrow> v | None \<Rightarrow> [])"

fun Sort_less :: "orderByClause list \<Rightarrow> row \<Rightarrow> row \<Rightarrow> bool" where
  "Sort_less [] a b = False"
| "Sort_less (clause # cs) a b =
    (let cmp = Sort_compareValues (col_value a (ob_column clause)) (col_value b (ob_column clause))
     in if cmp \<noteq> 0 then (if ob_ascending clause then cmp < 0 else cmp > 0) else Sort_less cs a b)"

text \<open>
  The precondition of \<open>std::sort\<close> on the elements it is given: irreflexive, transitive, and
  incomparability transitive.
\<close>

definition strict_weak_on :: "('a \<Rightarrow> 'a \<Rightarrow> bool) \<Rightarrow> 'a set \<Rightarrow> bool" where
  "strict_weak_on lt A \<longleftrightarrow>
    (\<forall>x\<in>A. \<not> lt x x) \<and>
    (\<forall>x\<in>A. \<forall>y\<in>A. \<forall>z\<in>A. lt x y \<and> lt y z \<longrightarrow> lt x z) \<and>
    (\<forall>x\<in>A. \<forall>y\<in>A. \<forall>z\<in>A. \<not> lt x y \<and> \<not> lt y x \<and> \<not> lt y z \<and> \<not> lt z y
       \<longrightarrow> \<not> lt x z \<and> \<not> lt z x)"

type_synonym sorter = "(row \<Rightarrow> row \<Rightarrow> bool) \<Rightarrow> row list \<Rightarrow> row list"

definition sort_contract :: "sorter \<Rightarrow> bool" where
  "sort_contract srt \<longleftrightarrow> (\<forall>lt xs. strict_weak_on lt (set xs) \<longrightarrow>
     mset (srt lt xs) = mset xs \<and> sorted_wrt (\<lambda>a b. \<not> lt b a) (srt lt xs))"

definition sortRows :: "sorter \<Rightarrow> orderByClause list \<Rightarrow> row list \<Rightarrow> exec_error + row list" where
  "sortRows srt orderBy buffered =
    (if strict_weak_on (Sort_less orderBy) (set buffered)
     then Inr (srt (Sort_less orderBy) buffered) else Inl Sort_undefined)"

definition Sort_next :: "row list \<Rightarrow> nat \<Rightarrow> row option \<times> nat" where
  "Sort_next buffered cursor =
    (if length buffered \<le> cursor then (None, cursor) else (Some (buffered ! cursor), Suc cursor))"

section \<open>Hash join\<close>

text \<open>
  The hash table as a map from key values to the build rows in their order. The joined row
  takes the columns of the probe row and, for the other columns, those of the build row.
\<close>

definition HashJoin_build :: "string \<Rightarrow> row list \<Rightarrow> string \<rightharpoonup> row list" where
  "HashJoin_build buildKey = foldl (\<lambda>tbl row. case fmlookup row buildKey of None \<Rightarrow> tbl
     | Some k \<Rightarrow> tbl(k \<mapsto> (case tbl k of None \<Rightarrow> [] | Some rs \<Rightarrow> rs) @ [row])) Map.empty"

definition join_row :: "row \<Rightarrow> row \<Rightarrow> row" where
  "join_row probeRow match = match ++\<^sub>f probeRow"

partial_function (option) HashJoin_next ::
  "'s source \<Rightarrow> string \<Rightarrow> (string \<rightharpoonup> row list) \<Rightarrow> row list \<Rightarrow> row \<Rightarrow> nat \<Rightarrow> 's \<Rightarrow>
   (row option \<times> row list \<times> row \<times> nat \<times> 's) option" where
  "HashJoin_next nxt probeKey tbl currentMatches probeRow cursor probe =
    (if cursor < length currentMatches then
       Some (Some (join_row probeRow (currentMatches ! cursor)), currentMatches, probeRow, Suc cursor, probe)
     else Option.bind (nxt probe) (\<lambda>(r, probe').
       case r of None \<Rightarrow> Some (None, currentMatches, probeRow, cursor, probe')
       | Some row \<Rightarrow>
         (case Option.bind (fmlookup row probeKey) tbl of
            None \<Rightarrow> HashJoin_next nxt probeKey tbl currentMatches probeRow cursor probe'
          | Some hit \<Rightarrow> HashJoin_next nxt probeKey tbl hit row 0 probe')))"

definition join_rows :: "string \<Rightarrow> string \<Rightarrow> row list \<Rightarrow> row list \<Rightarrow> row list" where
  "join_rows buildKey probeKey build probe = concat (map (\<lambda>p.
     case fmlookup p probeKey of None \<Rightarrow> []
     | Some k \<Rightarrow> map (join_row p) (filter (\<lambda>b. fmlookup b buildKey = Some k) build)) probe)"


section \<open>What each operator yields\<close>

lemma yields_next_mono:
  "yields nxt s xs \<Longrightarrow> (\<And>s r. nxt s = Some r \<Longrightarrow> nxt' s = Some r) \<Longrightarrow> yields nxt' s xs"
  by (induction xs arbitrary: s) fastforce+

lemma SeqScan_versioned_yields:
  "drop cursor vrows = vs \<Longrightarrow>
   yields (\<lambda>c. Some (SeqScan_versioned snap vrows c)) cursor (map vr_data (filter (isVisible snap) vs))"
proof (induction vs arbitrary: cursor)
  case Nil
  then show ?case by (simp add: SeqScan_versioned.simps)
next
  case (Cons v vs)
  from drop_eq_ConsD [OF Cons.prems] have c: "cursor < length vrows" "vrows ! cursor = v"
    "drop (Suc cursor) vrows = vs" by auto
  note IH = Cons.IH [OF c(3)]
  show ?case
  proof (cases "isVisible snap v")
    case True
    then show ?thesis using c IH by (simp add: SeqScan_versioned.simps [of snap vrows cursor])
  next
    case False
    then have "SeqScan_versioned snap vrows cursor = SeqScan_versioned snap vrows (Suc cursor)"
      using c by (simp add: SeqScan_versioned.simps [of snap vrows cursor])
    then show ?thesis using IH False by (cases "filter (isVisible snap) vs") simp_all
  qed
qed

lemma list_yields:
  "drop cursor xs = ys \<Longrightarrow> yields (\<lambda>c. Some (Sort_next xs c)) cursor ys"
proof (induction ys arbitrary: cursor)
  case (Cons y ys)
  from drop_eq_ConsD [OF Cons.prems] Cons.IH [of "Suc cursor"] show ?case
    by (simp add: Sort_next_def)
qed (simp add: Sort_next_def)

lemma SeqScan_yields:
  "yields (\<lambda>c. Some (SeqScan_next rows vrows snapshot c)) 0 (SeqScan_rows rows vrows snapshot)"
proof (cases snapshot)
  case (Some snap)
  then show ?thesis using SeqScan_versioned_yields [of 0 vrows vrows snap]
    by (simp add: SeqScan_next_def SeqScan_rows_def)
next
  case None
  then show ?thesis using list_yields [of 0 "the rows" "the rows"]
    by (cases rows) (simp_all add: SeqScan_next_def SeqScan_rows_def Sort_next_def)
qed

lemma Filter_yields:
  "yields nxt s xs \<Longrightarrow> yields (Filter_next nxt e) s (filter (evaluateExpr e) xs)"
proof (induction xs arbitrary: s)
  case Nil
  then show ?case by (auto simp: Filter_next.simps)
next
  case (Cons x xs)
  then obtain s' where s': "nxt s = Some (Some x, s')" and IH: "yields (Filter_next nxt e) s' (filter (evaluateExpr e) xs)"
    by auto
  then have "Filter_next nxt e s = (if evaluateExpr e x then Some (Some x, s') else Filter_next nxt e s')"
    by (simp add: Filter_next.simps)
  with IH show ?case by (cases "filter (evaluateExpr e) xs") auto
qed

lemma Projection_yields:
  "yields nxt s xs \<Longrightarrow> yields (Projection_next nxt cols) s (map (project_row cols) xs)"
  by (induction xs arbitrary: s) (force simp: Projection_next_def)+

lemma HashJoin_build_lookup:
  "foldl (\<lambda>tbl row. case fmlookup row bk of None \<Rightarrow> tbl
     | Some k \<Rightarrow> tbl(k \<mapsto> (case tbl k of None \<Rightarrow> [] | Some rs \<Rightarrow> rs) @ [row])) t rows k =
   (let hits = filter (\<lambda>b. fmlookup b bk = Some k) rows in
    if hits = [] then t k else Some ((case t k of None \<Rightarrow> [] | Some rs \<Rightarrow> rs) @ hits))"
  by (induction rows arbitrary: t) (auto simp: Let_def split: option.splits)

lemma Limit_yields:
  "yields nxt s xs \<Longrightarrow>
   yields (\<lambda>(seen, s). Limit_next nxt cnt seen s) (seen, s)
     (take (nat (cnt - seen)) xs)"
proof (induction xs arbitrary: s seen)
  case Nil
  then show ?case by (auto simp: Limit_next_def)
next
  case (Cons x xs)
  then obtain s' where s': "nxt s = Some (Some x, s')" "yields nxt s' xs" by auto
  show ?case
  proof (cases "cnt \<le> seen")
    case False
    then have "nat (cnt - seen) = Suc (nat (cnt - (seen + 1)))" by simp
    with Cons.IH [OF s'(2), of "seen + 1"] s'(1) False show ?thesis by (simp add: Limit_next_def)
  qed (simp add: Limit_next_def)
qed

end
