(* ===== verification/Volcano.thy ===== *)
theory Volcano
  imports Operators
begin

text \<open>
  The tree of operators: \<open>op_next\<close> and \<open>op_open\<close> dispatch to the class of the node. The
  denotation \<open>op_rows\<close> is the relational algebra of the tree; the interpretation of
  \<open>row_source\<close> says that the tree implements it.
\<close>

section \<open>Hash join\<close>

lemma yields_eq: "nxt s = nxt t \<Longrightarrow> yields nxt s xs = yields nxt t xs"
  by (cases xs) simp_all

abbreviation HJ :: "'s source \<Rightarrow> string \<Rightarrow> (string \<rightharpoonup> row list) \<Rightarrow> (row list \<times> row \<times> nat \<times> 's) source" where
  "HJ nxt pk tbl \<equiv> (\<lambda>(ms, pr, cursor, probe). HashJoin_next nxt pk tbl ms pr cursor probe)"

lemma HashJoin_yields_matches:
  "drop cursor ms = rest \<Longrightarrow> cursor \<le> length ms \<Longrightarrow>
   yields (HJ nxt pk tbl) (ms, pr, length ms, probe) xs \<Longrightarrow>
   yields (HJ nxt pk tbl) (ms, pr, cursor, probe) (map (join_row pr) rest @ xs)"
proof (induction rest arbitrary: cursor)
  case (Cons m rest)
  from drop_eq_ConsD [OF Cons.prems(1)] have c: "cursor < length ms" "ms ! cursor = m"
    "drop (Suc cursor) ms = rest" by auto
  then have "HashJoin_next nxt pk tbl ms pr cursor probe =
      Some (Some (join_row pr m), ms, pr, Suc cursor, probe)"
    by (subst HashJoin_next.simps) simp
  with Cons.IH [OF c(3) _ Cons.prems(3)] c(1) show ?case by simp
qed simp

definition probe_hits :: "string \<Rightarrow> (string \<rightharpoonup> row list) \<Rightarrow> row \<Rightarrow> row list" where
  "probe_hits pk tbl p = (case Option.bind (fmlookup p pk) tbl of None \<Rightarrow> [] | Some hit \<Rightarrow> map (join_row p) hit)"

lemma probe_hits_simps:
  "Option.bind (fmlookup p pk) tbl = None \<Longrightarrow> probe_hits pk tbl p = []"
  "Option.bind (fmlookup p pk) tbl = Some hit \<Longrightarrow> probe_hits pk tbl p = map (join_row p) hit"
  by (simp_all add: probe_hits_def)

lemma HashJoin_yields:
  "yields nxt probe ps \<Longrightarrow> cursor \<le> length ms \<Longrightarrow>
   yields (HJ nxt pk tbl) (ms, pr, cursor, probe)
     (map (join_row pr) (drop cursor ms) @ concat (map (probe_hits pk tbl) ps))"
proof (induction ps arbitrary: ms pr cursor probe)
  case Nil
  then have "yields (HJ nxt pk tbl) (ms, pr, length ms, probe) []"
    by (auto simp: HashJoin_next.simps)
  from HashJoin_yields_matches [OF refl Nil(2) this] show ?case by simp
next
  case (Cons p ps)
  then obtain probe' where probe': "nxt probe = Some (Some p, probe')" "yields nxt probe' ps" by auto
  have "yields (HJ nxt pk tbl) (ms, pr, length ms, probe) (concat (map (probe_hits pk tbl) (p # ps)))"
  proof (cases "Option.bind (fmlookup p pk) tbl")
    case None
    then have "HJ nxt pk tbl (ms, pr, length ms, probe) = HJ nxt pk tbl (ms, pr, length ms, probe')"
      using probe'(1) by (simp add: HashJoin_next.simps [of nxt pk tbl ms pr _ probe])
    from yields_eq [of "HJ nxt pk tbl", OF this] Cons.IH [OF probe'(2), of "length ms" ms pr] None
    show ?thesis by (simp add: probe_hits_simps)
  next
    case (Some hit)
    then have "HJ nxt pk tbl (ms, pr, length ms, probe) = HJ nxt pk tbl (hit, p, 0, probe')"
      using probe'(1) by (simp add: HashJoin_next.simps [of nxt pk tbl ms pr _ probe])
    from yields_eq [of "HJ nxt pk tbl", OF this] Cons.IH [OF probe'(2), of 0 hit p] Some
    show ?thesis by (simp add: probe_hits_simps)
  qed
  then show ?case using Cons.prems(2) by (intro HashJoin_yields_matches) simp_all
qed

lemma probe_hits_build:
  "probe_hits pk (HashJoin_build bk rows) p =
   (case fmlookup p pk of None \<Rightarrow> []
    | Some k \<Rightarrow> map (join_row p) (filter (\<lambda>b. fmlookup b bk = Some k) rows))"
  by (auto simp: probe_hits_def HashJoin_build_def HashJoin_build_lookup Let_def split: option.split)

lemma HashJoin_rows:
  "concat (map (probe_hits pk (HashJoin_build bk rows)) ps) = join_rows bk pk rows ps"
  by (simp add: join_rows_def probe_hits_build [abs_def])

section \<open>The tree\<close>

datatype oper =
    SeqScan string "row list option" "versionedRow list" "mvccSnapshot option" nat
  | Filter oper expr
  | Projection oper "string list"
  | Sort oper "orderByClause list" "row list" nat
  | Limit oper int int
  | HashJoin oper oper string string "string \<rightharpoonup> row list" "row list" row nat

text \<open>The \<open>next\<close> of a class is monotone in that of its child, so the recursion is well defined.\<close>

lemma option_le_fun: "option.le_fun f g \<Longrightarrow> f x = Some y \<Longrightarrow> g x = Some y"
  by (auto simp: fun_ord_def flat_ord_def dest: spec [of _ x])

lemma mono_optionI:
  "(\<And>f g y. option.le_fun f g \<Longrightarrow> F f = Some y \<Longrightarrow> F g = Some y) \<Longrightarrow> mono_option F"
  by (auto simp: monotone_def flat_ord_def) (metis not_None_eq)

lemma bind_le_fun:
  "option.le_fun f g \<Longrightarrow> Option.bind (f x) h = Some y \<Longrightarrow> (\<And>r. h r = Some y \<Longrightarrow> h' r = Some y) \<Longrightarrow>
   Option.bind (g x) h' = Some y"
  by (auto simp: bind_eq_Some_conv dest: option_le_fun)

lemma Filter_next_mono [partial_function_mono]:
  fixes c :: 's
  shows "mono_option (\<lambda>f. Filter_next f e c)"
proof (rule mono_optionI)
  fix f g :: "'s source" and y
  assume le: "option.le_fun f g"
  show "Filter_next f e c = Some y \<Longrightarrow> Filter_next g e c = Some y"
  proof (rule Filter_next.raw_induct [where P = "\<lambda>f e c y. option.le_fun f g \<longrightarrow> Filter_next g e c = Some y",
        rule_format, OF _ _ le])
    fix rec f e c y
    assume IH: "\<And>f e c y. rec f e c = Some y \<Longrightarrow> option.le_fun f g \<Longrightarrow> Filter_next g e c = Some y"
      and eq: "Option.bind (f c) (\<lambda>(r, child'). case r of None \<Rightarrow> Some (None, child')
        | Some row \<Rightarrow> if evaluateExpr e row then Some (Some row, child') else rec f e child') = Some y"
      and le: "option.le_fun f g"
    show "Filter_next g e c = Some y"
      by (subst Filter_next.simps, rule bind_le_fun [OF le eq])
         (auto split: option.splits if_splits intro: IH [OF _ le])
  qed
qed

lemma HashJoin_next_mono [partial_function_mono]:
  fixes p :: 's
  shows "mono_option (\<lambda>f. HashJoin_next f pk tbl ms pr cur p)"
proof (rule mono_optionI)
  fix f g :: "'s source" and y
  assume le: "option.le_fun f g"
  show "HashJoin_next f pk tbl ms pr cur p = Some y \<Longrightarrow> HashJoin_next g pk tbl ms pr cur p = Some y"
  proof (rule HashJoin_next.raw_induct [where P = "\<lambda>f pk tbl ms pr cur p y.
        option.le_fun f g \<longrightarrow> HashJoin_next g pk tbl ms pr cur p = Some y", rule_format, OF _ _ le])
    fix rec f pk tbl ms pr cur p y
    assume IH: "\<And>f pk tbl ms pr cur p y. rec f pk tbl ms pr cur p = Some y \<Longrightarrow> option.le_fun f g \<Longrightarrow>
          HashJoin_next g pk tbl ms pr cur p = Some y"
      and eq: "(if cur < length ms then Some (Some (join_row pr (ms ! cur)), ms, pr, Suc cur, p)
        else Option.bind (f p) (\<lambda>(r, probe'). case r of None \<Rightarrow> Some (None, ms, pr, cur, probe')
          | Some row \<Rightarrow> (case Option.bind (fmlookup row pk) tbl of
              None \<Rightarrow> rec f pk tbl ms pr cur probe' | Some hit \<Rightarrow> rec f pk tbl hit row 0 probe'))) = Some y"
      and le: "option.le_fun f g"
    show "HashJoin_next g pk tbl ms pr cur p = Some y"
    proof (cases "cur < length ms")
      case False
      then have "Option.bind (f p) (\<lambda>(r, probe'). case r of None \<Rightarrow> Some (None, ms, pr, cur, probe')
          | Some row \<Rightarrow> (case Option.bind (fmlookup row pk) tbl of
              None \<Rightarrow> rec f pk tbl ms pr cur probe' | Some hit \<Rightarrow> rec f pk tbl hit row 0 probe')) = Some y"
        using eq by simp
      then have "Option.bind (g p) (\<lambda>(r, probe'). case r of None \<Rightarrow> Some (None, ms, pr, cur, probe')
          | Some row \<Rightarrow> (case Option.bind (fmlookup row pk) tbl of
              None \<Rightarrow> HashJoin_next g pk tbl ms pr cur probe'
            | Some hit \<Rightarrow> HashJoin_next g pk tbl hit row 0 probe')) = Some y"
        by (rule bind_le_fun [OF le], auto split: option.splits) (erule IH [OF _ le])+
      then show ?thesis using False by (subst HashJoin_next.simps) simp
    qed (use eq in \<open>subst HashJoin_next.simps, simp\<close>)
  qed
qed

lemma Projection_next_mono [partial_function_mono]: "mono_option (\<lambda>f. Projection_next f cols c)"
  unfolding Projection_next_def by (rule mono_optionI) (rule bind_le_fun)

lemma Limit_next_mono [partial_function_mono]: "mono_option (\<lambda>f. Limit_next f cnt seen c)"
  unfolding Limit_next_def by (rule mono_optionI) (auto split: if_splits elim: bind_le_fun)

partial_function (option) op_next :: "oper source" where
  "op_next self = (case self of
      SeqScan t rows vrows snap cursor \<Rightarrow>
        (case SeqScan_next rows vrows snap cursor of (r, cursor') \<Rightarrow> Some (r, SeqScan t rows vrows snap cursor'))
    | Filter c e \<Rightarrow> Option.bind (Filter_next op_next e c) (\<lambda>(r, c'). Some (r, Filter c' e))
    | Projection c cols \<Rightarrow> Option.bind (Projection_next op_next cols c) (\<lambda>(r, c'). Some (r, Projection c' cols))
    | Sort c ob buffered cursor \<Rightarrow>
        (case Sort_next buffered cursor of (r, cursor') \<Rightarrow> Some (r, Sort c ob buffered cursor'))
    | Limit c cnt seen \<Rightarrow> Option.bind (Limit_next op_next cnt seen c) (\<lambda>(r, seen', c'). Some (r, Limit c' cnt seen'))
    | HashJoin b p bk pk tbl ms pr cur \<Rightarrow>
        Option.bind (HashJoin_next op_next pk tbl ms pr cur p) (\<lambda>(r, ms', pr', cur', p').
          Some (r, HashJoin b p' bk pk tbl ms' pr' cur')))"

text \<open>\<open>Operator::open\<close>: a node opens its children; \<open>Sort\<close> and \<open>HashJoin\<close> also consume one.\<close>

definition opened :: "('s \<Rightarrow> 't) \<Rightarrow> (exec_error + 's) option \<Rightarrow> (exec_error + 't) option" where
  "opened f r = map_option (map_sum id f) r"

definition Sort_open ::
  "'s source \<Rightarrow> sorter \<Rightarrow> orderByClause list \<Rightarrow> (exec_error + 's) option \<Rightarrow> (exec_error + row list \<times> 's) option" where
  "Sort_open nxt srt orderBy child =
    map_option (\<lambda>r. ebind r (\<lambda>(buffered, child').
      map_sum id (\<lambda>sorted. (sorted, child')) (sortRows srt orderBy buffered))) (fill nxt child)"

definition HashJoin_open ::
  "'s source \<Rightarrow> string \<Rightarrow> (exec_error + 's) option \<Rightarrow> (exec_error + 's) option \<Rightarrow>
   (exec_error + (string \<rightharpoonup> row list) \<times> 's \<times> 's) option" where
  "HashJoin_open nxt buildKey build probe =
    Option.bind build (\<lambda>b. case b of Inl e \<Rightarrow> Some (Inl e) | Inr b' \<Rightarrow>
    Option.bind probe (\<lambda>p. case p of Inl e \<Rightarrow> Some (Inl e) | Inr p' \<Rightarrow>
    Option.bind (pull_all nxt [] b') (\<lambda>(rows, b'').
      Some (Inr (HashJoin_build buildKey rows, b'', p')))))"

primrec op_open :: "sorter \<Rightarrow> oper opener" where
  "op_open srt (SeqScan t rows vrows snap cursor) = Some (Inr (SeqScan t rows vrows snap 0))"
| "op_open srt (Filter c e) = opened (\<lambda>c'. Filter c' e) (op_open srt c)"
| "op_open srt (Projection c cols) = opened (\<lambda>c'. Projection c' cols) (op_open srt c)"
| "op_open srt (Sort c ob buffered cursor) =
     opened (\<lambda>(sorted, c'). Sort c' ob sorted 0) (Sort_open op_next srt ob (op_open srt c))"
| "op_open srt (Limit c cnt seen) = opened (\<lambda>c'. Limit c' cnt 0) (op_open srt c)"
| "op_open srt (HashJoin b p bk pk tbl ms pr cur) =
     opened (\<lambda>(tbl', b', p'). HashJoin b' p' bk pk tbl' [] pr 0)
       (HashJoin_open op_next bk (op_open srt b) (op_open srt p))"

section \<open>The denotation\<close>

primrec op_rows :: "sorter \<Rightarrow> oper \<Rightarrow> exec_error + row list" where
  "op_rows srt (SeqScan t rows vrows snap cursor) = Inr (SeqScan_rows rows vrows snap)"
| "op_rows srt (Filter c e) = map_sum id (filter (evaluateExpr e)) (op_rows srt c)"
| "op_rows srt (Projection c cols) = map_sum id (map (project_row cols)) (op_rows srt c)"
| "op_rows srt (Sort c ob buffered cursor) = ebind (op_rows srt c) (sortRows srt ob)"
| "op_rows srt (Limit c cnt seen) = map_sum id (take (nat cnt)) (op_rows srt c)"
| "op_rows srt (HashJoin b p bk pk tbl ms pr cur) =
     ebind (op_rows srt b) (\<lambda>bs. ebind (op_rows srt p) (\<lambda>ps. Inr (join_rows bk pk bs ps)))"

text \<open>A node whose \<open>next\<close> wraps another source yields what that source yields.\<close>

lemma yields_wrap:
  "yields nxt s xs \<Longrightarrow> (\<And>s r s'. nxt s = Some (r, s') \<Longrightarrow> nxt' (W s) = Some (r, W s')) \<Longrightarrow> yields nxt' (W s) xs"
  by (induction xs arbitrary: s) fastforce+

lemma op_next_SeqScan: "yields op_next (SeqScan t rows vrows snap 0) (SeqScan_rows rows vrows snap)"
  by (rule yields_wrap [where W = "SeqScan t rows vrows snap", OF SeqScan_yields])
     (subst op_next.simps, simp)

lemma op_next_Filter: "yields op_next c xs \<Longrightarrow> yields op_next (Filter c e) (filter (evaluateExpr e) xs)"
  by (rule yields_wrap [where W = "\<lambda>c. Filter c e", OF Filter_yields]) (auto simp: op_next.simps)

lemma op_next_Projection:
  "yields op_next c xs \<Longrightarrow> yields op_next (Projection c cols) (map (project_row cols) xs)"
  by (rule yields_wrap [where W = "\<lambda>c. Projection c cols", OF Projection_yields])
     (auto simp: op_next.simps)

lemma op_next_Sort: "yields op_next (Sort c ob xs 0) xs"
  by (rule yields_wrap [where W = "Sort c ob xs" and nxt = "\<lambda>c. Some (Sort_next xs c)"])
     (auto simp: op_next.simps intro: list_yields)

lemma op_next_Limit: "yields op_next c xs \<Longrightarrow> yields op_next (Limit c cnt 0) (take (nat cnt) xs)"
  using yields_wrap [where W = "\<lambda>(seen, c). Limit c cnt seen" and nxt' = op_next,
      OF Limit_yields [of op_next c xs cnt 0]]
  by (auto simp: op_next.simps)

lemma op_next_HashJoin:
  assumes "yields op_next p ps"
  shows "yields op_next (HashJoin b p bk pk (HashJoin_build bk bs) [] pr 0) (join_rows bk pk bs ps)"
  using yields_wrap [where W = "\<lambda>(ms, pr, cur, p). HashJoin b p bk pk (HashJoin_build bk bs) ms pr cur"
      and nxt' = op_next, OF HashJoin_yields [of op_next p ps 0 "[]" pk "HashJoin_build bk bs" pr]] assms
  by (auto simp: op_next.simps HashJoin_rows)

lemma op_open_rows:
  "case op_rows srt op of Inl e \<Rightarrow> op_open srt op = Some (Inl e)
   | Inr xs \<Rightarrow> \<exists>op'. op_open srt op = Some (Inr op') \<and> yields op_next op' xs"
proof (induction op)
  case (SeqScan t rows vrows snap cursor)
  show ?case by (simp add: op_next_SeqScan)
next
  case (Filter c e)
  then show ?case by (auto simp: opened_def split: sum.splits intro: op_next_Filter)
next
  case (Projection c cols)
  then show ?case by (auto simp: opened_def split: sum.splits intro: op_next_Projection)
next
  case (Limit c cnt seen)
  then show ?case by (auto simp: opened_def split: sum.splits intro: op_next_Limit)
next
  case (Sort c ob buffered cursor)
  show ?case
  proof (cases "op_rows srt c")
    case (Inl e)
    with Sort show ?thesis by (simp add: opened_def Sort_open_def fill_def)
  next
    case (Inr xs)
    with Sort obtain c' where c': "op_open srt c = Some (Inr c')" "yields op_next c' xs" by auto
    from pull_all_yields [OF c'(2), of "[]"] obtain c'' where "pull_all op_next [] c' = Some (xs, c'')" by auto
    with c'(1) Inr show ?thesis
      by (cases "sortRows srt ob xs") (simp_all add: opened_def Sort_open_def fill_def op_next_Sort)
  qed
next
  case (HashJoin b p bk pk tbl ms pr cur)
  show ?case
  proof (cases "op_rows srt b")
    case (Inl e)
    with HashJoin show ?thesis by (simp add: opened_def HashJoin_open_def)
  next
    case (Inr bs)
    with HashJoin(1) obtain b' where b': "op_open srt b = Some (Inr b')" "yields op_next b' bs" by auto
    from pull_all_yields [OF b'(2), of "[]"] obtain b'' where b'': "pull_all op_next [] b' = Some (bs, b'')" by auto
    show ?thesis
    proof (cases "op_rows srt p")
      case (Inl e)
      with HashJoin(2) b' Inr show ?thesis by (simp add: opened_def HashJoin_open_def)
    next
      case (Inr ps)
      with HashJoin(2) obtain p' where "op_open srt p = Some (Inr p')" "yields op_next p' ps" by auto
      with b' b'' Inr \<open>op_rows srt b = Inr bs\<close> show ?thesis
        by (simp add: opened_def HashJoin_open_def op_next_HashJoin)
    qed
  qed
qed

interpretation volcano: row_source op_next "op_open srt" "op_rows srt"
proof unfold_locales
  fix op e assume "op_rows srt op = Inl e"
  then show "op_open srt op = Some (Inl e)" using op_open_rows [of srt op] by simp
next
  fix op xs assume "op_rows srt op = Inr xs"
  then show "\<exists>op'. op_open srt op = Some (Inr op') \<and> yields op_next op' xs"
    using op_open_rows [of srt op] by simp
qed

end
