(* ===== verification/Transaction.thy ===== *)
theory Transaction
  imports Prelude
begin

text \<open>
  Transactions and their write records (include/transaction.h). The write log is the list of
  the changes in the order they were made.
\<close>

datatype writeType = WrInsert | WrUpdate | WrDelete

record writeRecord =
  wr_type :: writeType
  wr_table :: string
  wr_key :: string
  wr_oldRow :: row
  wr_newRow :: row

datatype txnStatus = Active | Committed | Aborted

record transaction =
  tx_id :: txn_id
  tx_status :: txnStatus
  tx_writeLog :: "writeRecord list"

definition Transaction_init :: "txn_id \<Rightarrow> transaction" where
  "Transaction_init i = \<lparr>tx_id = i, tx_status = Active, tx_writeLog = []\<rparr>"

definition tx_active :: "transaction \<Rightarrow> bool" where
  "tx_active t \<longleftrightarrow> tx_status t = Active"

definition tx_logWrite :: "writeRecord \<Rightarrow> transaction \<Rightarrow> transaction" where
  "tx_logWrite rec t = t\<lparr>tx_writeLog := tx_writeLog t @ [rec]\<rparr>"

definition tx_commit :: "transaction \<Rightarrow> transaction" where
  "tx_commit t = t\<lparr>tx_status := Committed\<rparr>"

definition tx_abort :: "transaction \<Rightarrow> transaction" where
  "tx_abort t = t\<lparr>tx_status := Aborted\<rparr>"

lemma tx_sel [simp]:
  "tx_id (tx_logWrite r t) = tx_id t" "tx_status (tx_logWrite r t) = tx_status t"
  "tx_writeLog (tx_logWrite r t) = tx_writeLog t @ [r]" "tx_active (tx_logWrite r t) = tx_active t"
  "tx_id (tx_commit t) = tx_id t" "tx_status (tx_commit t) = Committed"
  "tx_writeLog (tx_commit t) = tx_writeLog t" "tx_id (tx_abort t) = tx_id t"
  "tx_status (tx_abort t) = Aborted" "tx_writeLog (tx_abort t) = tx_writeLog t"
  "tx_id (Transaction_init i) = i" "tx_status (Transaction_init i) = Active"
  "tx_writeLog (Transaction_init i) = []" "tx_active (Transaction_init i)"
  "\<not> tx_active (tx_commit t)" "\<not> tx_active (tx_abort t)"
  by (simp_all add: tx_logWrite_def tx_active_def tx_commit_def tx_abort_def Transaction_init_def)

text \<open>
  The code writes \<open>if (txn && txn->active())\<close>: the log of the transaction, if there is one and
  it is active, gets the record.
\<close>

definition log_change :: "writeRecord \<Rightarrow> transaction option \<Rightarrow> transaction option" where
  "log_change rec txn = (case txn of None \<Rightarrow> None
     | Some t \<Rightarrow> if tx_active t then Some (tx_logWrite rec t) else Some t)"

text \<open>The value of the column \<open>id\<close>, which the code takes as the key of a row.\<close>

definition row_key :: "row \<Rightarrow> string" where
  "row_key row = (case fmlookup row ''id'' of Some v \<Rightarrow> v | None \<Rightarrow> [])"

end
