(* ===== verification/Executor.thy ===== *)
theory Executor
  imports Volcano Transaction
begin

text \<open>
  The executor (include/executor.h, src/executor.cpp): building the operator tree of a
  physical plan, driving it, and the statements that change the storage. The storage is a map
  from table names to the rows of the table, in their order. A statement that changes rows
  also takes the running transaction, if any, and logs the changes in it.
\<close>

section \<open>Building and driving the operator tree\<close>

definition exec_child :: "nat \<Rightarrow> 'a list \<Rightarrow> exec_error + 'a" where
  "exec_child i cs = (if i < length cs then Inr (cs ! i) else Inl Exec_undefined)"

lemma exec_child_simps [simp]:
  "exec_child 0 (c # cs) = Inr c" "exec_child (Suc 0) (c # d # cs) = Inr d"
  by (simp_all add: exec_child_def)

lemma exec_child_size: "exec_child i cs = Inr c \<Longrightarrow> size c < Suc (size_list size cs)"
  by (auto simp: exec_child_def less_Suc_eq_le split: if_splits intro!: size_list_estimation' [of c cs])

function build :: "table_storage \<Rightarrow> mvccSnapshot option \<Rightarrow> physicalPlan \<Rightarrow> exec_error + oper" where
  "build storage snap (PhysicalSeqScan t cs) =
     (case storage t of None \<Rightarrow> Inl (Table_not_found t)
      | Some rows \<Rightarrow> (case snap of
          Some s \<Rightarrow> Inr (SeqScan t None
            (map (\<lambda>row. \<lparr>vr_data = row, vr_createdBy = 1, vr_deletedBy = 0\<rparr>) rows) (Some s) 0)
        | None \<Rightarrow> Inr (SeqScan t (Some rows) [] None 0)))"
| "build storage snap (PhysicalFilter e cs) =
     ebind (exec_child 0 cs) (\<lambda>c. ebind (build storage snap c) (\<lambda>op. Inr (Filter op e)))"
| "build storage snap (PhysicalProjection cols cs) =
     ebind (exec_child 0 cs) (\<lambda>c. ebind (build storage snap c) (\<lambda>op. Inr (Projection op cols)))"
| "build storage snap (PhysicalSort ob cs) =
     ebind (exec_child 0 cs) (\<lambda>c. ebind (build storage snap c) (\<lambda>op. Inr (Sort op ob [] 0)))"
| "build storage snap (PhysicalLimit n cs) =
     ebind (exec_child 0 cs) (\<lambda>c. ebind (build storage snap c) (\<lambda>op. Inr (Limit op n 0)))"
| "build storage snap (PhysicalHashJoin bk pk cs) =
     ebind (exec_child 0 cs) (\<lambda>b. ebind (build storage snap b) (\<lambda>bop.
     ebind (exec_child 1 cs) (\<lambda>p. ebind (build storage snap p) (\<lambda>pop.
       Inr (HashJoin bop pop bk pk Map.empty [] fmempty 0)))))"
  by pat_completeness auto
termination
  by (relation "measure (\<lambda>(storage, snap, p). size p)") (auto dest!: exec_child_size)

text \<open>\<open>close()\<close> of every operator only closes its children, and a scan has nothing to release.\<close>

definition execute ::
  "sorter \<Rightarrow> table_storage \<Rightarrow> mvccSnapshot option \<Rightarrow> physicalPlan \<Rightarrow> (exec_error + row list) option" where
  "execute srt storage snap plan =
    (case build storage snap plan of Inl e \<Rightarrow> Some (Inl e)
     | Inr op \<Rightarrow> map_option (map_sum id fst) (fill op_next (op_open srt op)))"

lemma execute_rows:
  "execute srt storage snap plan = Some (ebind (build storage snap plan) (op_rows srt))"
  by (simp add: execute_def volcano.fill_contents split: sum.split)

text \<open>
  The object: a reference to the storage and a snapshot, empty until \<open>setSnapshot\<close>. Its pointer to
  a log is never used. The definitions of this theory take the fields as arguments.
\<close>

record executor =
  ex_storage :: table_storage
  ex_snapshot :: "mvccSnapshot option"

definition Executor_init :: "table_storage \<Rightarrow> executor" where
  "Executor_init storage = \<lparr>ex_storage = storage, ex_snapshot = None\<rparr>"

definition setSnapshot :: "mvccSnapshot option \<Rightarrow> executor \<Rightarrow> executor" where
  "setSnapshot snap ex = ex\<lparr>ex_snapshot := snap\<rparr>"

definition ex_execute :: "sorter \<Rightarrow> physicalPlan \<Rightarrow> executor \<Rightarrow> (exec_error + row list) option" where
  "ex_execute srt plan ex = execute srt (ex_storage ex) (ex_snapshot ex) plan"

section \<open>Statements that change the storage\<close>

text \<open>
  \<open>stmt.values[i]\<close> for each column \<open>i\<close>: with fewer values than columns the access is outside the
  vector, which is undefined (\<open>Exec_undefined\<close>).
\<close>

fun insert_row :: "string list \<Rightarrow> expr list \<Rightarrow> row \<Rightarrow> exec_error + row" where
  "insert_row [] values row = Inr row"
| "insert_row (c # cols) [] row = Inl Exec_undefined"
| "insert_row (c # cols) (v # values) row = insert_row cols values (fmupd c (extractLiteral v) row)"

definition executeInsert ::
  "insertStatement \<Rightarrow> table_storage \<times> transaction option \<Rightarrow> exec_error + table_storage \<times> transaction option" where
  "executeInsert stmt = (\<lambda>(storage, txn).
    case storage (ins_table stmt) of None \<Rightarrow> Inl (Table_not_found (ins_table stmt))
    | Some rows \<Rightarrow> ebind (insert_row (ins_columns stmt) (ins_values stmt) fmempty) (\<lambda>row.
        let rec = \<lparr>wr_type = WrInsert, wr_table = ins_table stmt, wr_key = row_key row,
                   wr_oldRow = fmempty, wr_newRow = row\<rparr>
        in Inr (storage(ins_table stmt \<mapsto> rows @ [row]), log_change rec txn)))"

definition matches :: "expr option \<Rightarrow> row \<Rightarrow> bool" where
  "matches w row = (case w of None \<Rightarrow> True | Some e \<Rightarrow> evaluateExpr e row)"

definition assign :: "(string \<times> expr) list \<Rightarrow> row \<Rightarrow> row" where
  "assign as row = foldl (\<lambda>r (col, e). fmupd col (resolveExpr e r) r) row as"

fun update_rows ::
  "updateStatement \<Rightarrow> row list \<Rightarrow> transaction option \<Rightarrow> row list \<times> transaction option" where
  "update_rows stmt [] txn = ([], txn)"
| "update_rows stmt (row # rows) txn =
    (if matches (upd_where stmt) row then
       let new = assign (upd_assignments stmt) row;
           rec = \<lparr>wr_type = WrUpdate, wr_table = upd_table stmt, wr_key = row_key new,
                  wr_oldRow = row, wr_newRow = new\<rparr>;
           (rows', txn') = update_rows stmt rows (log_change rec txn)
       in (new # rows', txn')
     else let (rows', txn') = update_rows stmt rows txn in (row # rows', txn'))"

definition executeUpdate ::
  "updateStatement \<Rightarrow> table_storage \<times> transaction option \<Rightarrow> exec_error + table_storage \<times> transaction option" where
  "executeUpdate stmt = (\<lambda>(storage, txn).
    case storage (upd_table stmt) of None \<Rightarrow> Inl (Table_not_found (upd_table stmt))
    | Some rows \<Rightarrow> (case update_rows stmt rows txn of
        (rows', txn') \<Rightarrow> Inr (storage(upd_table stmt \<mapsto> rows'), txn')))"

text \<open>\<open>std::remove_if\<close> with a predicate that also logs the rows it removes.\<close>

fun delete_rows ::
  "deleteStatement \<Rightarrow> row list \<Rightarrow> transaction option \<Rightarrow> row list \<times> transaction option" where
  "delete_rows stmt [] txn = ([], txn)"
| "delete_rows stmt (row # rows) txn =
    (if matches (del_where stmt) row then
       let rec = \<lparr>wr_type = WrDelete, wr_table = del_table stmt, wr_key = row_key row,
                  wr_oldRow = row, wr_newRow = fmempty\<rparr>
       in delete_rows stmt rows (log_change rec txn)
     else let (rows', txn') = delete_rows stmt rows txn in (row # rows', txn'))"

definition executeDelete ::
  "deleteStatement \<Rightarrow> table_storage \<times> transaction option \<Rightarrow> exec_error + table_storage \<times> transaction option" where
  "executeDelete stmt = (\<lambda>(storage, txn).
    case storage (del_table stmt) of None \<Rightarrow> Inl (Table_not_found (del_table stmt))
    | Some rows \<Rightarrow> (case delete_rows stmt rows txn of
        (rows', txn') \<Rightarrow> Inr (storage(del_table stmt \<mapsto> rows'), txn')))"

definition executeCreateTable :: "createTableStatement \<Rightarrow> table_storage \<Rightarrow> exec_error + table_storage" where
  "executeCreateTable stmt storage =
    (case storage (ct_table stmt) of Some _ \<Rightarrow> Inl (Table_exists (ct_table stmt))
     | None \<Rightarrow> Inr (storage(ct_table stmt \<mapsto> [])))"

end
