(* ===== verification/Sort_Order.thy ===== *)
theory Sort_Order
  imports Operators
begin

text \<open>
  When the comparator of \<open>Sort\<close> meets the precondition of \<open>std::sort\<close>, when it does not, and a
  concrete sorting function that meets the contract.
\<close>

lemma strict_weak_iff:
  "strict_weak_on lt A \<longleftrightarrow>
     (\<forall>x\<in>A. \<forall>y\<in>A. lt x y \<longrightarrow> \<not> lt y x) \<and>
     (\<forall>x\<in>A. \<forall>y\<in>A. \<forall>z\<in>A. \<not> lt x y \<longrightarrow> \<not> lt y z \<longrightarrow> \<not> lt x z)"
proof
  assume s: "strict_weak_on lt A"
  then have irr: "x \<in> A \<Longrightarrow> \<not> lt x x" and tr: "x \<in> A \<Longrightarrow> y \<in> A \<Longrightarrow> z \<in> A \<Longrightarrow> lt x y \<Longrightarrow> lt y z \<Longrightarrow> lt x z"
    and inc: "x \<in> A \<Longrightarrow> y \<in> A \<Longrightarrow> z \<in> A \<Longrightarrow> \<not> lt x y \<Longrightarrow> \<not> lt y x \<Longrightarrow> \<not> lt y z \<Longrightarrow> \<not> lt z y \<Longrightarrow> \<not> lt x z"
    for x y z unfolding strict_weak_on_def by blast+
  have "\<not> lt y x" if "x \<in> A" "y \<in> A" "lt x y" for x y using irr [of x] tr [of x y x] that by blast
  moreover have "\<not> lt x z" if "x \<in> A" "y \<in> A" "z \<in> A" "\<not> lt x y" "\<not> lt y z" for x y z
    using tr [of y x z] tr [of x z y] inc [of x y z] that by blast
  ultimately show "(\<forall>x\<in>A. \<forall>y\<in>A. lt x y \<longrightarrow> \<not> lt y x) \<and>
     (\<forall>x\<in>A. \<forall>y\<in>A. \<forall>z\<in>A. \<not> lt x y \<longrightarrow> \<not> lt y z \<longrightarrow> \<not> lt x z)" by blast
next
  assume "(\<forall>x\<in>A. \<forall>y\<in>A. lt x y \<longrightarrow> \<not> lt y x) \<and>
     (\<forall>x\<in>A. \<forall>y\<in>A. \<forall>z\<in>A. \<not> lt x y \<longrightarrow> \<not> lt y z \<longrightarrow> \<not> lt x z)"
  then have as: "x \<in> A \<Longrightarrow> y \<in> A \<Longrightarrow> lt x y \<Longrightarrow> \<not> lt y x"
    and neg: "x \<in> A \<Longrightarrow> y \<in> A \<Longrightarrow> z \<in> A \<Longrightarrow> \<not> lt x y \<Longrightarrow> \<not> lt y z \<Longrightarrow> \<not> lt x z" for x y z
    by blast+
  have "\<not> lt x x" if "x \<in> A" for x using as [of x x] that by blast
  moreover have "lt x z" if "x \<in> A" "y \<in> A" "z \<in> A" "lt x y" "lt y z" for x y z
    using as [of y z] neg [of x z y] that by blast
  moreover have "\<not> lt x z \<and> \<not> lt z x" if "x \<in> A" "y \<in> A" "z \<in> A"
      "\<not> lt x y" "\<not> lt y x" "\<not> lt y z" "\<not> lt z y" for x y z
    using neg [of x y z] neg [of z y x] that by blast
  ultimately show "strict_weak_on lt A" unfolding strict_weak_on_def by blast
qed

lemma strict_weak_onI:
  "(\<And>x y. x \<in> A \<Longrightarrow> y \<in> A \<Longrightarrow> lt x y \<Longrightarrow> \<not> lt y x) \<Longrightarrow>
   (\<And>x y z. x \<in> A \<Longrightarrow> y \<in> A \<Longrightarrow> z \<in> A \<Longrightarrow> \<not> lt x y \<Longrightarrow> \<not> lt y z \<Longrightarrow> \<not> lt x z) \<Longrightarrow> strict_weak_on lt A"
  unfolding strict_weak_iff by blast

lemma strict_weak_asym: "strict_weak_on lt A \<Longrightarrow> x \<in> A \<Longrightarrow> y \<in> A \<Longrightarrow> lt x y \<Longrightarrow> \<not> lt y x"
  unfolding strict_weak_iff by blast

lemma strict_weak_neg_trans:
  "strict_weak_on lt A \<Longrightarrow> x \<in> A \<Longrightarrow> y \<in> A \<Longrightarrow> z \<in> A \<Longrightarrow> \<not> lt x y \<Longrightarrow> \<not> lt y z \<Longrightarrow> \<not> lt x z"
  unfolding strict_weak_iff by blast

lemma strict_weak_subset: "strict_weak_on lt A \<Longrightarrow> B \<subseteq> A \<Longrightarrow> strict_weak_on lt B"
  unfolding strict_weak_iff by blast

lemma strict_weak_lex:
  assumes "strict_weak_on l1 A" "strict_weak_on l2 A"
  shows "strict_weak_on (\<lambda>a b. l1 a b \<or> \<not> l1 a b \<and> \<not> l1 b a \<and> l2 a b) A"
proof (rule strict_weak_onI)
  fix x y z assume xyz: "x \<in> A" "y \<in> A" "z \<in> A"
  note n1 = strict_weak_neg_trans [OF assms(1)] note n2 = strict_weak_neg_trans [OF assms(2)]
  assume a: "\<not> (l1 x y \<or> \<not> l1 x y \<and> \<not> l1 y x \<and> l2 x y)" "\<not> (l1 y z \<or> \<not> l1 y z \<and> \<not> l1 z y \<and> l2 y z)"
  show "\<not> (l1 x z \<or> \<not> l1 x z \<and> \<not> l1 z x \<and> l2 x z)"
    using a n1 [OF xyz] n1 [OF xyz(3,1,2)] n1 [OF xyz(2,3,1)] n2 [OF xyz] by blast
qed (use strict_weak_asym [OF assms(1)] strict_weak_asym [OF assms(2)] in blast)

lemma strict_weak_converse: "strict_weak_on lt A \<Longrightarrow> strict_weak_on (\<lambda>a b. lt b a) A"
  unfolding strict_weak_iff by blast

section \<open>The comparator\<close>

lemma Sort_compareValues_swap: "Sort_compareValues b a = - Sort_compareValues a b"
proof (cases "stod a"; cases "stod b")
  fix x y assume "stod a = Inr x" "stod b = Inr y"
  then show ?thesis using dbl_lt_trans [of x y x] by (auto simp: Sort_compareValues_def)
qed (auto simp: Sort_compareValues_def)

definition clause_less :: "orderByClause \<Rightarrow> row \<Rightarrow> row \<Rightarrow> bool" where
  "clause_less c a b =
    (if ob_ascending c then Sort_compareValues (col_value a (ob_column c)) (col_value b (ob_column c)) < 0
     else Sort_compareValues (col_value b (ob_column c)) (col_value a (ob_column c)) < 0)"

lemma Sort_less_Cons:
  "Sort_less (c # cs) a b =
    (clause_less c a b \<or> \<not> clause_less c a b \<and> \<not> clause_less c b a \<and> Sort_less cs a b)"
  using Sort_compareValues_swap [of "col_value a (ob_column c)" "col_value b (ob_column c)"]
  by (auto simp: clause_less_def Let_def)

text \<open>
  A column the comparator orders properly: its values are all numbers (none of them a NaN),
  or none of them starts with a number.
\<close>

definition number_or_text :: "string set \<Rightarrow> bool" where
  "number_or_text V \<longleftrightarrow> (\<forall>v\<in>V. case stod v of Inr d \<Rightarrow> d \<noteq> NaN | Inl e \<Rightarrow> False) \<or>
     (\<forall>v\<in>V. case stod v of Inr d \<Rightarrow> False | Inl e \<Rightarrow> True)"

lemma compare_swo:
  assumes "number_or_text V"
  shows "strict_weak_on (\<lambda>a b. Sort_compareValues a b < 0) V"
  using assms unfolding number_or_text_def
proof
  assume "\<forall>v\<in>V. case stod v of Inr d \<Rightarrow> d \<noteq> NaN | Inl e \<Rightarrow> False"
  then have num: "\<forall>v\<in>V. \<exists>d. stod v = Inr d \<and> d \<noteq> NaN"
    by (auto split: sum.splits dest!: bspec) (metis sum.exhaust)
  show ?thesis
  proof (rule strict_weak_onI)
    fix x y assume "x \<in> V" "y \<in> V" "Sort_compareValues x y < 0"
    with num show "\<not> Sort_compareValues y x < 0" by (simp add: Sort_compareValues_swap [of y x])
  next
    fix x y z assume xyz: "x \<in> V" "y \<in> V" "z \<in> V"
      and le: "\<not> Sort_compareValues x y < 0" "\<not> Sort_compareValues y z < 0"
    obtain a b c where d: "stod x = Inr a" "stod y = Inr b" "stod z = Inr c" "a \<noteq> NaN" "b \<noteq> NaN" "c \<noteq> NaN"
      using num xyz by metis
    from le d have "\<not> dbl_lt a b" "\<not> dbl_lt b c" by (auto simp: Sort_compareValues_def split: if_splits)
    then have "\<not> dbl_lt a c"
      using d dbl_trichotomy [of a b] dbl_trichotomy [of b c] dbl_lt_trans [of a c b] dbl_eq_lt [of a b c]
        dbl_lt_trans dbl_lt_eq [of b c a] by metis
    then show "\<not> Sort_compareValues x z < 0" using d by (simp add: Sort_compareValues_def)
  qed
next
  assume "\<forall>v\<in>V. case stod v of Inr d \<Rightarrow> False | Inl e \<Rightarrow> True"
  then have text_only: "\<forall>v\<in>V. \<exists>e. stod v = Inl e"
    by (auto split: sum.splits dest!: bspec) (metis sum.exhaust)
  have "Sort_compareValues x y < 0 \<longleftrightarrow> x < y" if "x \<in> V" for x y
    using bspec [OF text_only that] by (auto simp: Sort_compareValues_def)
  then show ?thesis by (intro strict_weak_onI) auto
qed

lemma clause_less_swo:
  assumes "number_or_text ((\<lambda>r. col_value r (ob_column c)) ` A)"
  shows "strict_weak_on (clause_less c) A"
proof -
  have "strict_weak_on (\<lambda>a b. Sort_compareValues (col_value a (ob_column c)) (col_value b (ob_column c)) < 0) A"
    using compare_swo [OF assms] unfolding strict_weak_iff by blast
  from this strict_weak_converse [OF this] show ?thesis
    by (cases "ob_ascending c") (simp_all add: clause_less_def [abs_def])
qed

lemma Sort_less_swo:
  "\<forall>c\<in>set ob. number_or_text ((\<lambda>r. col_value r (ob_column c)) ` A) \<Longrightarrow> strict_weak_on (Sort_less ob) A"
proof (induction ob)
  case Nil
  then show ?case by (simp add: strict_weak_iff)
next
  case (Cons c ob)
  then show ?case
    using strict_weak_lex [OF clause_less_swo, of c A "Sort_less ob"]
    unfolding Sort_less_Cons [abs_def] by simp
qed

text \<open>
  C23. The comparator of ORDER BY meets the precondition of \<open>std::sort\<close> whenever each ordering
  column holds only numbers or only values that do not start with a number: for any number of
  clauses and any mix of directions, it is a strict weak order on the rows.
\<close>

theorem order_by_strict_weak:
  assumes "\<forall>c\<in>set ob. number_or_text ((\<lambda>r. col_value r (ob_column c)) ` set rows)"
  shows "strict_weak_on (Sort_less ob) (set rows)"
  using assms by (rule Sort_less_swo)

theorem order_by_strict_weak_witness:
  "strict_weak_on (Sort_less [\<lparr>ob_column = ''age'', ob_ascending = False\<rparr>, \<lparr>ob_column = ''name'', ob_ascending = True\<rparr>])
     (set [fmap_of_list [(''age'', ''10''), (''name'', ''Bob'')], fmap_of_list [(''age'', ''9.5''), (''name'', ''Al'')]])"
  by (rule order_by_strict_weak) code_simp

lemma strict_weak_no_cycle:
  assumes "strict_weak_on lt A" "{x, y, z} \<subseteq> A" "lt x y" "lt y z"
  shows "\<not> lt z x"
proof -
  have m: "x \<in> A" "y \<in> A" "z \<in> A" using assms(2) by simp_all
  have "\<not> lt z y" "\<not> lt y x" using strict_weak_asym [OF assms(1)] m assms(3,4) by simp_all
  then show ?thesis by (rule strict_weak_neg_trans [OF assms(1) m(3,2,1)])
qed

text \<open>
  C24. Without that, ORDER BY is undefined behaviour. Take any rows among which a value of the first
  ordering column is smaller than another one as a number, while a text that starts with no number lies between
  them in the other order: the comparator is cyclic on the three rows, whatever the direction
  and the further clauses are, so \<open>std::sort\<close> is called outside its precondition.
\<close>

theorem order_by_cycle:
  assumes "{r1, r2, r3} \<subseteq> set rows"
    and "stod (col_value r1 (ob_column clause)) = Inr x" "stod (col_value r2 (ob_column clause)) = Inr y" "dbl_lt x y"
    and "stod (col_value r3 (ob_column clause)) = Inl e"
    and "col_value r2 (ob_column clause) < col_value r3 (ob_column clause)"
    and "col_value r3 (ob_column clause) < col_value r1 (ob_column clause)"
  shows "let lt = (\<lambda>a b. if ob_ascending clause then Sort_less (clause # clauses) a b else Sort_less (clause # clauses) b a)
    in lt r1 r2 \<and> lt r2 r3 \<and> lt r3 r1 \<and> sortRows srt (clause # clauses) rows = Inl Sort_undefined"
proof -
  let ?lt = "Sort_less (clause # clauses)"
  have cmp: "Sort_compareValues (col_value r1 (ob_column clause)) (col_value r2 (ob_column clause)) < 0"
    "Sort_compareValues (col_value r2 (ob_column clause)) (col_value r3 (ob_column clause)) < 0"
    "Sort_compareValues (col_value r3 (ob_column clause)) (col_value r1 (ob_column clause)) < 0"
    using assms(2-) by (simp_all add: Sort_compareValues_def)
  have cycle: "if ob_ascending clause then ?lt r1 r2 \<and> ?lt r2 r3 \<and> ?lt r3 r1 else ?lt r2 r1 \<and> ?lt r3 r2 \<and> ?lt r1 r3"
    using cmp by (simp add: Sort_less_Cons clause_less_def del: Sort_less.simps)
  then have "\<not> strict_weak_on ?lt (set rows)"
    using strict_weak_no_cycle [of ?lt "set rows" r1 r2 r3] strict_weak_no_cycle [of ?lt "set rows" r1 r3 r2] assms(1)
    by (auto simp del: Sort_less.simps split: if_splits)
  with cycle show ?thesis by (simp add: Let_def sortRows_def del: Sort_less.simps)
qed

theorem order_by_cycle_witness:
  "\<forall>srt. sortRows srt [\<lparr>ob_column = ''c'', ob_ascending = False\<rparr>]
     [fmap_of_list [(''c'', '' 10'')], fmap_of_list [(''c'', ''!'')], fmap_of_list [(''c'', ''9'')]]
   = Inl Sort_undefined"
proof -
  let ?r = "\<lambda>v. fmap_of_list [(''c'', v)]" and ?c = "\<lparr>ob_column = ''c'', ob_ascending = False\<rparr>"
  let ?rows = "[?r '' 10'', ?r ''!'', ?r ''9'']"
  have v: "col_value (?r v) (ob_column ?c) = v" for v by (simp add: col_value_def)
  obtain x y e where n: "stod ''9'' = Inr x" "stod '' 10'' = Inr y" "dbl_lt x y" "stod ''!'' = Inl e"
  proof -
    have "case (stod ''9'', stod '' 10'', stod ''!'') of (Inr x, Inr y, Inl e) \<Rightarrow> dbl_lt x y | _ \<Rightarrow> False" by code_simp
    then show thesis using that by (auto split: sum.splits)
  qed
  have "'' 10'' < ''!''" "''!'' < ''9''" by code_simp+
  from order_by_cycle [of "?r ''9''" "?r '' 10''" "?r ''!''" ?rows ?c x y e, unfolded v, OF _ n this] show ?thesis
    by (simp add: Let_def)
qed

section \<open>A sorting function that meets the contract\<close>

fun insort_with :: "('a \<Rightarrow> 'a \<Rightarrow> bool) \<Rightarrow> 'a \<Rightarrow> 'a list \<Rightarrow> 'a list" where
  "insort_with lt x [] = [x]"
| "insort_with lt x (y # ys) = (if lt y x then y # insort_with lt x ys else x # y # ys)"

definition sort_with :: "('a \<Rightarrow> 'a \<Rightarrow> bool) \<Rightarrow> 'a list \<Rightarrow> 'a list" where
  "sort_with lt xs = foldr (insort_with lt) xs []"

lemma mset_insort_with [simp]: "mset (insort_with lt x ys) = add_mset x (mset ys)"
  by (induction ys) auto

lemma set_insort_with [simp]: "set (insort_with lt x ys) = insert x (set ys)"
  by (induction ys) auto

lemma sorted_insort_with:
  "strict_weak_on lt (insert x (set ys)) \<Longrightarrow> sorted_wrt (\<lambda>a b. \<not> lt b a) ys \<Longrightarrow>
   sorted_wrt (\<lambda>a b. \<not> lt b a) (insort_with lt x ys)"
proof (induction ys)
  case (Cons y ys)
  have sub: "strict_weak_on lt (insert x (set ys))"
    using Cons.prems(1) by (rule strict_weak_subset) auto
  show ?case
  proof (cases "lt y x")
    case True
    then have "\<not> lt x y" using strict_weak_asym [OF Cons.prems(1)] by simp
    with True Cons.IH [OF sub] Cons.prems(2) show ?thesis by simp
  next
    case False
    have "\<not> lt z x" if "z \<in> set ys" for z
      using strict_weak_neg_trans [OF Cons.prems(1), of z y x] that False Cons.prems(2) by simp
    with False Cons.prems(2) show ?thesis by simp
  qed
qed simp

lemma mset_sort_with: "mset (sort_with lt xs) = mset xs"
  by (induction xs) (simp_all add: sort_with_def)

lemma set_sort_with: "set (sort_with lt xs) = set xs"
  by (metis mset_sort_with set_mset_mset)

lemma sorted_sort_with: "strict_weak_on lt (set xs) \<Longrightarrow> sorted_wrt (\<lambda>a b. \<not> lt b a) (sort_with lt xs)"
proof (induction xs)
  case (Cons x xs)
  have "strict_weak_on lt (set xs)" using Cons.prems by (rule strict_weak_subset) auto
  with Cons have "sorted_wrt (\<lambda>a b. \<not> lt b a) (sort_with lt xs)" by simp
  then show ?case
    using sorted_insort_with [of lt x "sort_with lt xs"] Cons.prems
    by (simp add: sort_with_def set_sort_with [unfolded sort_with_def])
qed (simp add: sort_with_def)

lemma sort_with_contract: "sort_contract sort_with"
  by (simp add: sort_contract_def mset_sort_with sorted_sort_with)

end
