(* ===== verification/Tokens.thy ===== *)
theory Tokens
  imports Prelude
begin

text \<open>Tokens of the SQL front end (include/token.h) and their debug names (src/lexer.cpp).\<close>

datatype (plugins only: code) tokenType =
    SELECT | INSERT | UPDATE | DELETE
  | CREATE | DROP | TABLE
  | FROM | WHERE | INTO | VALUES | SET
  | AND | OR | NOT
  | ORDER | BY | ASC | DESC
  | LIMIT | JOIN | ON | INNER | LEFT
  | IDENTIFIER | NUMBER | STRING | BOOL_TRUE | BOOL_FALSE
  | EQ | NEQ | LT | GT | LTE | GTE
  | PLUS | MINUS | SLASH | STAR
  | COMMA | SEMICOLON | LPAREN | RPAREN | DOT
  | END_OF_FILE

record token =
  tk_type :: tokenType
  tk_value :: string
  tk_line :: int
  tk_col :: int

definition mkToken :: "tokenType \<Rightarrow> string \<Rightarrow> int \<Rightarrow> int \<Rightarrow> token" where
  "mkToken t v l c = \<lparr>tk_type = t, tk_value = v, tk_line = l, tk_col = c\<rparr>"

lemma mkToken_sel [simp]:
  "tk_type (mkToken t v l c) = t" "tk_value (mkToken t v l c) = v"
  "tk_line (mkToken t v l c) = l" "tk_col (mkToken t v l c) = c"
  by (simp_all add: mkToken_def)

text \<open>The debug helper: a few types fall to the default branch.\<close>

definition tokenTypeToString :: "tokenType \<Rightarrow> string" where
  "tokenTypeToString t = (case t of
      SELECT \<Rightarrow> ''SELECT'' | INSERT \<Rightarrow> ''INSERT'' | UPDATE \<Rightarrow> ''UPDATE'' | DELETE \<Rightarrow> ''DELETE''
    | CREATE \<Rightarrow> ''CREATE'' | DROP \<Rightarrow> ''DROP'' | TABLE \<Rightarrow> ''TABLE'' | FROM \<Rightarrow> ''FROM''
    | WHERE \<Rightarrow> ''WHERE'' | INTO \<Rightarrow> ''INTO'' | VALUES \<Rightarrow> ''VALUES'' | SET \<Rightarrow> ''SET''
    | AND \<Rightarrow> ''AND'' | OR \<Rightarrow> ''OR'' | NOT \<Rightarrow> ''NOT'' | ORDER \<Rightarrow> ''ORDER'' | BY \<Rightarrow> ''BY''
    | LIMIT \<Rightarrow> ''LIMIT'' | JOIN \<Rightarrow> ''JOIN'' | IDENTIFIER \<Rightarrow> ''IDENTIFIER''
    | NUMBER \<Rightarrow> ''NUMBER'' | STRING \<Rightarrow> ''STRING'' | BOOL_TRUE \<Rightarrow> ''TRUE''
    | BOOL_FALSE \<Rightarrow> ''FALSE'' | EQ \<Rightarrow> ''EQ(=)'' | NEQ \<Rightarrow> ''NEQ(!=)'' | LT \<Rightarrow> ''LT(<)''
    | GT \<Rightarrow> ''GT(>)'' | LTE \<Rightarrow> ''LTE(<=)'' | GTE \<Rightarrow> ''GTE(>=)'' | PLUS \<Rightarrow> ''PLUS(+)''
    | MINUS \<Rightarrow> ''MINUS(-)'' | STAR \<Rightarrow> ''STAR(*)'' | COMMA \<Rightarrow> ''COMMA(,)''
    | SEMICOLON \<Rightarrow> ''SEMICOLON(;)'' | LPAREN \<Rightarrow> ''LPAREN(()'' | RPAREN \<Rightarrow> ''RPAREN())''
    | DOT \<Rightarrow> ''DOT(.)'' | END_OF_FILE \<Rightarrow> ''EOF'' | _ \<Rightarrow> ''UNKNOWN'')"

end
