(* ===== verification/Parser.thy ===== *)
theory Parser
  imports Tokens Ast Numeric
begin

text \<open>
  The recursive-descent parser (include/parser.h, src/parser.cpp). The state holds the token
  vector and the cursor \<open>pos_\<close>. Reading \<open>tokens_[i]\<close> outside the vector is undefined in C++
  and is the error \<open>Parser_undefined\<close> here, so that memory safety is a statement of the model.
  A \<open>ParseError\<close> keeps the line, the column and the message of the token where it was thrown;
  \<open>expect\<close> adds the value of the token it got. \<open>std::stoi\<close> in the LIMIT clause may throw its
  own exceptions, which are not \<open>ParseError\<close>s.
\<close>

section \<open>State and navigation\<close>

record parser =
  ps_tokens :: "token list"
  ps_pos :: nat

datatype parse_error =
    ParseError int int string "string option"
  | Parser_stoi conv_error
  | Parser_undefined

definition Parser_init :: "token list \<Rightarrow> parser" where
  "Parser_init tokens = \<lparr>ps_tokens = tokens, ps_pos = 0\<rparr>"

definition ps_peek :: "parser \<Rightarrow> parse_error + token" where
  "ps_peek p = (if ps_pos p < length (ps_tokens p) then Inr (ps_tokens p ! ps_pos p)
                else Inl Parser_undefined)"

text \<open>\<open>peekNext\<close>, which nothing calls: \<open>back()\<close> of an empty vector is undefined.\<close>

definition ps_peekNext :: "parser \<Rightarrow> parse_error + token" where
  "ps_peekNext p = (if length (ps_tokens p) \<le> ps_pos p + 1
     then (if ps_tokens p = [] then Inl Parser_undefined else Inr (last (ps_tokens p)))
     else Inr (ps_tokens p ! (ps_pos p + 1)))"

definition ps_isAtEnd :: "parser \<Rightarrow> parse_error + bool" where
  "ps_isAtEnd p = ebind (ps_peek p) (\<lambda>t. Inr (tk_type t = END_OF_FILE))"

definition ps_advance :: "parser \<Rightarrow> parse_error + (token \<times> parser)" where
  "ps_advance p =
    ebind (ps_isAtEnd p) (\<lambda>at_end.
      let p' = (if at_end then p else p\<lparr>ps_pos := Suc (ps_pos p)\<rparr>)
      in if ps_pos p' = 0 then Inl Parser_undefined
         else Inr (ps_tokens p ! (ps_pos p' - 1), p'))"

definition ps_check :: "parser \<Rightarrow> tokenType \<Rightarrow> parse_error + bool" where
  "ps_check p t = ebind (ps_peek p) (\<lambda>tok. Inr (tk_type tok = t))"

text \<open>The disjunctions of \<open>check\<close> calls in the loop conditions.\<close>

definition ps_check_any :: "parser \<Rightarrow> tokenType list \<Rightarrow> parse_error + bool" where
  "ps_check_any p ts = ebind (ps_peek p) (\<lambda>tok. Inr (tk_type tok \<in> set ts))"

definition ps_error :: "parser \<Rightarrow> string \<Rightarrow> string option \<Rightarrow> parse_error + 'a" where
  "ps_error p msg got =
     ebind (ps_peek p) (\<lambda>tok. Inl (ParseError (tk_line tok) (tk_col tok) msg got))"

definition ps_match :: "parser \<Rightarrow> tokenType \<Rightarrow> parse_error + (bool \<times> parser)" where
  "ps_match p t = ebind (ps_check p t) (\<lambda>b.
     if b then ebind (ps_advance p) (\<lambda>(_, p'). Inr (True, p')) else Inr (False, p))"

definition ps_expect :: "parser \<Rightarrow> tokenType \<Rightarrow> string \<Rightarrow> parse_error + (token \<times> parser)" where
  "ps_expect p t msg = ebind (ps_check p t) (\<lambda>b.
     if b then ps_advance p
     else ebind (ps_peek p) (\<lambda>tok. ps_error p msg (Some (tk_value tok))))"

text \<open>What is left to read.\<close>

definition ps_rest :: "parser \<Rightarrow> token list" where
  "ps_rest p = drop (ps_pos p) (ps_tokens p)"

definition ps_next :: "parser \<Rightarrow> parser" where
  "ps_next p = p\<lparr>ps_pos := Suc (ps_pos p)\<rparr>"

lemma ps_next_sel [simp]:
  "ps_tokens (ps_next p) = ps_tokens p" "ps_pos (ps_next p) = Suc (ps_pos p)"
  by (simp_all add: ps_next_def)

lemma ps_rest_next [simp]: "ps_rest (ps_next p) = tl (ps_rest p)"
  by (simp add: ps_rest_def drop_Suc tl_drop)

lemma ps_peek_Cons: "ps_rest p = t # r \<Longrightarrow> ps_peek p = Inr t"
  by (auto simp: ps_peek_def ps_rest_def dest: drop_eq_ConsD)

lemma ps_advance_Cons:
  "ps_rest p = t # r \<Longrightarrow> tk_type t \<noteq> END_OF_FILE \<Longrightarrow> ps_advance p = Inr (t, ps_next p)"
  by (auto simp: ps_advance_def ps_isAtEnd_def ps_peek_Cons Let_def ps_next_def ps_rest_def
           dest: drop_eq_ConsD)

text \<open>A successful \<open>advance\<close> moves by at most one token; at any token but the last, by one.\<close>

lemma ps_advance_pos:
  assumes "ps_advance p = Inr (t, p')"
  shows "ps_tokens p' = ps_tokens p"
    and "ps_pos p' = (if tk_type (ps_tokens p ! ps_pos p) = END_OF_FILE then ps_pos p else Suc (ps_pos p))"
    and "ps_pos p < length (ps_tokens p)"
  using assms
  by (auto simp: ps_advance_def ps_isAtEnd_def ps_peek_def Let_def split: if_splits)

lemma ps_check_any_pos:
  assumes "ps_check_any p ts = Inr True" "END_OF_FILE \<notin> set ts" "ps_advance p = Inr (t, p')"
  shows "ps_tokens p' = ps_tokens p" "ps_pos p' = Suc (ps_pos p)" "ps_pos p < length (ps_tokens p)"
  using assms ps_advance_pos [OF assms(3)]
  by (auto simp: ps_check_any_def ps_peek_def split: if_splits)

text \<open>A character in single quotes, as the messages show it.\<close>

definition quoted :: "string \<Rightarrow> string" where
  "quoted s = CHR 0x27 # s @ [CHR 0x27]"

section \<open>Expressions\<close>

text \<open>
  The precedence ladder. \<open>parseExpression\<close> and \<open>parseComparison\<close> are a first operand and a
  loop over operators (\<open>while\<close> in the source); each operator builds a node whose left child
  is what was parsed so far. The loop functions take that expression as an argument.
\<close>

function (domintros)
  parseExpression :: "parser \<Rightarrow> parse_error + (expr \<times> parser)" and
  expressionLoop :: "expr \<Rightarrow> parser \<Rightarrow> parse_error + (expr \<times> parser)" and
  parseComparison :: "parser \<Rightarrow> parse_error + (expr \<times> parser)" and
  comparisonLoop :: "expr \<Rightarrow> parser \<Rightarrow> parse_error + (expr \<times> parser)" and
  parseUnary :: "parser \<Rightarrow> parse_error + (expr \<times> parser)" and
  parsePrimary :: "parser \<Rightarrow> parse_error + (expr \<times> parser)"
where
  "parseExpression p = ebind (parseComparison p) (\<lambda>(left, p1). expressionLoop left p1)"
| "expressionLoop left p = ebind (ps_check_any p [AND, OR]) (\<lambda>more.
     if more then
       ebind (ps_advance p) (\<lambda>(tok, p1).
       ebind (parseComparison p1) (\<lambda>(right, p2).
         expressionLoop (BinaryExpr (tk_value tok) left right) p2))
     else Inr (left, p))"
| "parseComparison p = ebind (parseUnary p) (\<lambda>(left, p1). comparisonLoop left p1)"
| "comparisonLoop left p = ebind (ps_check_any p [EQ, NEQ, LT, GT, LTE, GTE]) (\<lambda>more.
     if more then
       ebind (ps_advance p) (\<lambda>(tok, p1).
       ebind (parseUnary p1) (\<lambda>(right, p2).
         comparisonLoop (BinaryExpr (tk_value tok) left right) p2))
     else Inr (left, p))"
| "parseUnary p = ebind (ps_check_any p [NOT, MINUS]) (\<lambda>unary.
     if unary then
       ebind (ps_advance p) (\<lambda>(tok, p1).
       ebind (parseUnary p1) (\<lambda>(operand, p2). Inr (UnaryExpr (tk_value tok) operand, p2)))
     else parsePrimary p)"
| "parsePrimary p = ebind (ps_peek p) (\<lambda>cur.
     if tk_type cur = NUMBER then
       ebind (ps_advance p) (\<lambda>(tok, p1).
         Inr (LiteralExpr (if CHR ''.'' \<in> set (tk_value tok) then LkFloat else LkInteger)
                (tk_value tok), p1))
     else if tk_type cur = STRING then
       ebind (ps_advance p) (\<lambda>(tok, p1). Inr (LiteralExpr LkString (tk_value tok), p1))
     else if tk_type cur = BOOL_TRUE \<or> tk_type cur = BOOL_FALSE then
       ebind (ps_advance p) (\<lambda>(tok, p1). Inr (LiteralExpr LkBool (tk_value tok), p1))
     else if tk_type cur = IDENTIFIER then
       ebind (ps_advance p) (\<lambda>(tok, p1).
       ebind (ps_check p1 DOT) (\<lambda>dot.
         if dot then
           ebind (ps_advance p1) (\<lambda>(_, p2).
           ebind (ps_expect p2 IDENTIFIER (''Expected column name after '' @ quoted ''.'')) (\<lambda>(col, p3).
             Inr (ColumnRefExpr (tk_value tok) (tk_value col), p3)))
         else Inr (ColumnRefExpr [] (tk_value tok), p1)))
     else if tk_type cur = LPAREN then
       ebind (ps_advance p) (\<lambda>(_, p1).
       ebind (parseExpression p1) (\<lambda>(inner, p2).
       ebind (ps_expect p2 RPAREN (''Expected '' @ quoted '')'' @ '' after expression'')) (\<lambda>(_, p3).
         Inr (inner, p3))))
     else ps_error p (''Expected a value: number, string, column name, or '' @ quoted ''('') None)"
  by pat_completeness auto

text \<open>
  An expression takes at least one token; a loop takes none or more. This holds wherever the
  functions are defined, and gives the measure with which they terminate.
\<close>

definition ps_lt :: "parser \<Rightarrow> parser \<Rightarrow> bool" where
  "ps_lt p p' \<longleftrightarrow> ps_tokens p' = ps_tokens p \<and> ps_pos p < ps_pos p' \<and>
     ps_pos p < length (ps_tokens p)"

definition ps_le :: "parser \<Rightarrow> parser \<Rightarrow> bool" where
  "ps_le p p' \<longleftrightarrow> p' = p \<or> ps_lt p p'"

lemma ps_lt_trans: "ps_lt p q \<Longrightarrow> ps_lt q r \<Longrightarrow> ps_lt p r"
  and ps_lt_le_trans: "ps_lt p q \<Longrightarrow> ps_le q r \<Longrightarrow> ps_lt p r"
  and ps_le_refl: "ps_le p p"
  and ps_lt_imp_le: "ps_lt p q \<Longrightarrow> ps_le p q"
  by (auto simp: ps_lt_def ps_le_def)

lemma ps_check_any_lt:
  "ps_check_any p ts = Inr True \<Longrightarrow> END_OF_FILE \<notin> set ts \<Longrightarrow> ps_advance p = Inr (t, p') \<Longrightarrow> ps_lt p p'"
  using ps_check_any_pos [of p ts t p'] by (simp add: ps_lt_def)

lemma ps_peek_lt:
  "ps_peek p = Inr c \<Longrightarrow> tk_type c \<noteq> END_OF_FILE \<Longrightarrow> ps_advance p = Inr (t, p') \<Longrightarrow> ps_lt p p'"
  using ps_advance_pos [of p t p'] by (auto simp: ps_lt_def ps_peek_def split: if_splits)

lemma ps_check_lt:
  "ps_check p ty = Inr True \<Longrightarrow> ty \<noteq> END_OF_FILE \<Longrightarrow> ps_advance p = Inr (t, p') \<Longrightarrow> ps_lt p p'"
  by (auto simp: ps_check_def intro: ps_peek_lt)

lemma ps_error_Inr [simp]: "ps_error p m g \<noteq> Inr x"
  by (auto simp: ps_error_def ps_peek_def)

lemma ps_expect_lt:
  "ps_expect p ty m = Inr (t, p') \<Longrightarrow> ty \<noteq> END_OF_FILE \<Longrightarrow> ps_lt p p'"
  by (auto simp: ps_expect_def intro: ps_check_lt split: if_splits)

lemma expression_consumes_dom:
  shows "parseExpression_expressionLoop_parseComparison_comparisonLoop_parseUnary_parsePrimary_dom (Inl (Inl p)) \<Longrightarrow>
      parseExpression p = Inr (e, p') \<Longrightarrow> ps_lt p p'"
    and "parseExpression_expressionLoop_parseComparison_comparisonLoop_parseUnary_parsePrimary_dom (Inl (Inr (Inl (l1, p1)))) \<Longrightarrow>
      expressionLoop l1 p1 = Inr (e1, p1') \<Longrightarrow> ps_le p1 p1'"
    and "parseExpression_expressionLoop_parseComparison_comparisonLoop_parseUnary_parsePrimary_dom (Inl (Inr (Inr p2))) \<Longrightarrow>
      parseComparison p2 = Inr (e2, p2') \<Longrightarrow> ps_lt p2 p2'"
    and "parseExpression_expressionLoop_parseComparison_comparisonLoop_parseUnary_parsePrimary_dom (Inr (Inl (l3, p3))) \<Longrightarrow>
      comparisonLoop l3 p3 = Inr (e3, p3') \<Longrightarrow> ps_le p3 p3'"
    and "parseExpression_expressionLoop_parseComparison_comparisonLoop_parseUnary_parsePrimary_dom (Inr (Inr (Inl p4))) \<Longrightarrow>
      parseUnary p4 = Inr (e4, p4') \<Longrightarrow> ps_lt p4 p4'"
    and "parseExpression_expressionLoop_parseComparison_comparisonLoop_parseUnary_parsePrimary_dom (Inr (Inr (Inr p5))) \<Longrightarrow>
      parsePrimary p5 = Inr (e5, p5') \<Longrightarrow> ps_lt p5 p5'"
proof (induction p and l1 p1 and p2 and l3 p3 and p4 and p5
    arbitrary: e p' and e1 p1' and e2 p2' and e3 p3' and e4 p4' and e5 p5'
    rule: parseExpression_expressionLoop_parseComparison_comparisonLoop_parseUnary_parsePrimary.pinduct)
  case (1 p)
  then show ?case by (auto simp: parseExpression.psimps intro: ps_lt_le_trans)
next
  case (2 left p)
  from "2.prems" consider "p1' = p"
    | tok q right r where "ps_check_any p [AND, OR] = Inr True" "ps_advance p = Inr (tok, q)"
        "parseComparison q = Inr (right, r)"
        "expressionLoop (BinaryExpr (tk_value tok) left right) r = Inr (e1, p1')"
    by (auto simp: expressionLoop.psimps [OF "2.hyps"] split: if_splits)
  then show ?case
  proof cases
    case 2
    from 2(1,2) have pq: "ps_lt p q" by (rule_tac ps_check_any_lt) auto
    have "ps_lt q r" by (rule "2.IH"(1) [OF 2(1) TrueI 2(2) refl 2(3)])
    moreover have "ps_le r p1'" by (rule "2.IH"(2) [OF 2(1) TrueI 2(2) refl 2(3) refl 2(4)])
    ultimately show ?thesis using pq by (blast intro: ps_lt_imp_le ps_lt_trans ps_lt_le_trans)
  qed (simp add: ps_le_refl)
next
  case (3 p)
  then show ?case by (auto simp: parseComparison.psimps intro: ps_lt_le_trans)
next
  case (4 left p)
  from "4.prems" consider "p3' = p"
    | tok q right r where "ps_check_any p [EQ, NEQ, LT, GT, LTE, GTE] = Inr True" "ps_advance p = Inr (tok, q)"
        "parseUnary q = Inr (right, r)"
        "comparisonLoop (BinaryExpr (tk_value tok) left right) r = Inr (e3, p3')"
    by (auto simp: comparisonLoop.psimps [OF "4.hyps"] split: if_splits)
  then show ?case
  proof cases
    case 2
    from 2(1,2) have pq: "ps_lt p q" by (rule_tac ps_check_any_lt) auto
    have "ps_lt q r" by (rule "4.IH"(1) [OF 2(1) TrueI 2(2) refl 2(3)])
    moreover have "ps_le r p3'" by (rule "4.IH"(2) [OF 2(1) TrueI 2(2) refl 2(3) refl 2(4)])
    ultimately show ?thesis using pq by (blast intro: ps_lt_imp_le ps_lt_trans ps_lt_le_trans)
  qed (simp add: ps_le_refl)
next
  case (5 p)
  from "5.prems" consider tok q operand where "ps_check_any p [NOT, MINUS] = Inr True"
      "ps_advance p = Inr (tok, q)" "parseUnary q = Inr (operand, p4')"
    | "ps_check_any p [NOT, MINUS] = Inr False" "parsePrimary p = Inr (e4, p4')"
    by (auto simp: parseUnary.psimps [OF "5.hyps"] split: if_splits)
  then show ?case
  proof cases
    case 1
    have "ps_lt q p4'" by (rule "5.IH"(1) [OF 1(1) TrueI 1(2) refl 1(3)])
    moreover have "ps_lt p q" using 1(1) _ 1(2) by (rule ps_check_any_lt) simp
    ultimately show ?thesis by (blast intro: ps_lt_trans)
  next
    case 2
    show ?thesis by (rule "5.IH"(2) [OF 2(1) _ 2(2)]) simp
  qed
next
  case (6 p)
  from "6.prems" obtain cur where cur: "ps_peek p = Inr cur"
    by (auto simp: parsePrimary.psimps [OF "6.hyps"])
  note run = "6.prems" [unfolded parsePrimary.psimps [OF "6.hyps"] cur ebind_simps]
  consider (literal) "tk_type cur = NUMBER \<or> tk_type cur = STRING \<or> tk_type cur = BOOL_TRUE
      \<or> tk_type cur = BOOL_FALSE"
    | (ident) "tk_type cur = IDENTIFIER" | (paren) "tk_type cur = LPAREN"
    | (other) "tk_type cur \<notin> {NUMBER, STRING, BOOL_TRUE, BOOL_FALSE, IDENTIFIER, LPAREN}" by blast
  then show ?case
  proof cases
    case literal
    with run obtain tok where "ps_advance p = Inr (tok, p5')" by auto
    with cur literal show ?thesis by (auto intro: ps_peek_lt)
  next
    case ident
    with run obtain tok q b where q: "ps_advance p = Inr (tok, q)" "ps_check q DOT = Inr b"
      and rest: "if b then \<exists>d r c. ps_advance q = Inr (d, r) \<and>
          ps_expect r IDENTIFIER (''Expected column name after '' @ quoted ''.'') = Inr (c, p5')
        else p5' = q"
      by (auto split: if_splits)
    have pq: "ps_lt p q" using cur ident q(1) by (auto intro: ps_peek_lt)
    show ?thesis
    proof (cases b)
      case True
      with rest obtain d r c where r: "ps_advance q = Inr (d, r)"
        "ps_expect r IDENTIFIER (''Expected column name after '' @ quoted ''.'') = Inr (c, p5')" by auto
      have "ps_lt q r" using q(2) True r(1) by (auto intro: ps_check_lt)
      moreover have "ps_lt r p5'" using r(2) by (rule ps_expect_lt) simp
      ultimately show ?thesis using pq by (blast intro: ps_lt_trans)
    qed (use rest pq in simp)
  next
    case paren
    with run obtain tok q inner r c where q: "ps_advance p = Inr (tok, q)"
      and r: "parseExpression q = Inr (inner, r)"
      and c: "ps_expect r RPAREN (''Expected '' @ quoted '')'' @ '' after expression'') = Inr (c, p5')"
      by auto
    have "ps_lt p q" using cur paren q by (auto intro: ps_peek_lt)
    moreover have "ps_lt q r" using "6.IH" [OF cur _ _ _ _ _ q refl r] paren by simp
    moreover have "ps_lt r p5'" using c by (rule ps_expect_lt) simp
    ultimately show ?thesis by (blast intro: ps_lt_trans)
  next
    case other
    with run show ?thesis by simp
  qed
qed

termination parseExpression
proof (relation "inv_image (less_than <*lex*> less_than)
    (\<lambda>x. case x of
        Inl (Inl p) \<Rightarrow> (length (ps_tokens p) - ps_pos p, 3::nat)
      | Inl (Inr (Inl (l, p))) \<Rightarrow> (length (ps_tokens p) - ps_pos p, 0)
      | Inl (Inr (Inr p)) \<Rightarrow> (length (ps_tokens p) - ps_pos p, 2)
      | Inr (Inl (l, p)) \<Rightarrow> (length (ps_tokens p) - ps_pos p, 0)
      | Inr (Inr (Inl p)) \<Rightarrow> (length (ps_tokens p) - ps_pos p, 1)
      | Inr (Inr (Inr p)) \<Rightarrow> (length (ps_tokens p) - ps_pos p, 0))", goal_cases)
  case 1
  show ?case by (simp add: wf_lex_prod)
qed (auto simp: ps_lt_def dest!: expression_consumes_dom ps_check_any_lt ps_peek_lt)

lemma expression_dom:
  shows "parseExpression_expressionLoop_parseComparison_comparisonLoop_parseUnary_parsePrimary_dom (Inl (Inl p))" and "parseExpression_expressionLoop_parseComparison_comparisonLoop_parseUnary_parsePrimary_dom (Inl (Inr (Inl (l1, p1))))" and "parseExpression_expressionLoop_parseComparison_comparisonLoop_parseUnary_parsePrimary_dom (Inl (Inr (Inr p2)))"
    and "parseExpression_expressionLoop_parseComparison_comparisonLoop_parseUnary_parsePrimary_dom (Inr (Inl (l3, p3)))" and "parseExpression_expressionLoop_parseComparison_comparisonLoop_parseUnary_parsePrimary_dom (Inr (Inr (Inl p4)))" and "parseExpression_expressionLoop_parseComparison_comparisonLoop_parseUnary_parsePrimary_dom (Inr (Inr (Inr p5)))"
proof (induction p and l1 p1 and p2 and l3 p3 and p4 and p5
    rule: parseExpression_expressionLoop_parseComparison_comparisonLoop_parseUnary_parsePrimary.induct)
  case (1 p) show ?case by (rule parseExpression_expressionLoop_parseComparison_comparisonLoop_parseUnary_parsePrimary.domintros(1)) (use 1 in simp_all)
next
  case (2 left p) show ?case by (rule parseExpression_expressionLoop_parseComparison_comparisonLoop_parseUnary_parsePrimary.domintros(2)) (use 2 in auto)
next
  case (3 p) show ?case by (rule parseExpression_expressionLoop_parseComparison_comparisonLoop_parseUnary_parsePrimary.domintros(3)) (use 3 in simp_all)
next
  case (4 left p) show ?case by (rule parseExpression_expressionLoop_parseComparison_comparisonLoop_parseUnary_parsePrimary.domintros(4)) (use 4 in auto)
next
  case (5 p) show ?case by (rule parseExpression_expressionLoop_parseComparison_comparisonLoop_parseUnary_parsePrimary.domintros(5)) (use 5 in auto)
next
  case (6 p) show ?case by (rule parseExpression_expressionLoop_parseComparison_comparisonLoop_parseUnary_parsePrimary.domintros(6)) (use 6 in auto)
qed

lemmas expression_consumes =
  expression_consumes_dom(1) [OF expression_dom(1)] expression_consumes_dom(2) [OF expression_dom(2)]
  expression_consumes_dom(3) [OF expression_dom(3)] expression_consumes_dom(4) [OF expression_dom(4)]
  expression_consumes_dom(5) [OF expression_dom(5)] expression_consumes_dom(6) [OF expression_dom(6)]


declare parseExpression.simps [simp del] expressionLoop.simps [simp del]
  parseComparison.simps [simp del] comparisonLoop.simps [simp del]
  parseUnary.simps [simp del] parsePrimary.simps [simp del]

section \<open>Clauses\<close>

lemma ps_match_le: "ps_match p ty = Inr (b, p') \<Longrightarrow> ty \<noteq> END_OF_FILE \<Longrightarrow> ps_le p p'"
  by (auto simp: ps_match_def ps_le_refl intro: ps_lt_imp_le ps_check_lt split: if_splits)

lemma ps_lt_measure: "ps_lt p q \<Longrightarrow> length (ps_tokens q) - ps_pos q < length (ps_tokens p) - ps_pos p"
  by (auto simp: ps_lt_def)

lemma ps_advance_le: "ps_advance p = Inr (t, p') \<Longrightarrow> ps_le p p'"
  using ps_advance_pos [of p t p']
  by (auto simp: ps_le_def ps_lt_def ps_advance_def Let_def split: if_splits)

lemma ps_le_lt_trans: "ps_le p q \<Longrightarrow> ps_lt q r \<Longrightarrow> ps_lt p r"
  and ps_le_trans: "ps_le p q \<Longrightarrow> ps_le q r \<Longrightarrow> ps_le p r"
  by (auto simp: ps_le_def intro: ps_lt_trans)

text \<open>An item takes a token and what follows it only moves forward.\<close>

lemma ps_item_lt:
  "ps_expect p ty m = Inr (t, q) \<Longrightarrow> ty \<noteq> END_OF_FILE \<Longrightarrow> ps_le q r \<Longrightarrow> ps_lt p r"
  by (blast intro: ps_lt_le_trans ps_expect_lt)

text \<open>
  The comma-separated lists are \<open>do ... while (match(COMMA))\<close> loops: one function each, with
  what was collected so far.
\<close>

function parseColumnList_loop :: "string list \<Rightarrow> parser \<Rightarrow> parse_error + (string list \<times> parser)" where
  "parseColumnList_loop cols p =
    ebind (ps_expect p IDENTIFIER ''Expected column name'') (\<lambda>(tok, p1).
    ebind (ps_match p1 COMMA) (\<lambda>(more, p2).
      if more then parseColumnList_loop (cols @ [tk_value tok]) p2
      else Inr (cols @ [tk_value tok], p2)))"
  by pat_completeness auto
termination
  by (relation "measure (\<lambda>(cols, p). length (ps_tokens p) - ps_pos p)")
     (auto intro!: ps_lt_measure elim!: ps_item_lt ps_match_le)

definition parseColumnList :: "parser \<Rightarrow> parse_error + (string list \<times> parser)" where
  "parseColumnList p = parseColumnList_loop [] p"

definition parseWhereClause :: "parser \<Rightarrow> parse_error + (expr option \<times> parser)" where
  "parseWhereClause p =
    ebind (ps_match p WHERE) (\<lambda>(b, p1).
      if \<not> b then Inr (None, p1)
      else ebind (parseExpression p1) (\<lambda>(e, p2). Inr (Some e, p2)))"

function parseOrderBy_loop ::
  "orderByClause list \<Rightarrow> parser \<Rightarrow> parse_error + (orderByClause list \<times> parser)" where
  "parseOrderBy_loop clauses p =
    ebind (ps_expect p IDENTIFIER ''Expected column name'') (\<lambda>(tok, p1).
    ebind (ps_match p1 DESC) (\<lambda>(desc, p2).
    ebind (ps_match p2 ASC) (\<lambda>(_, p3).
    ebind (ps_match p3 COMMA) (\<lambda>(more, p4).
      let c = \<lparr>ob_column = tk_value tok, ob_ascending = (\<not> desc)\<rparr> in
      if more then parseOrderBy_loop (clauses @ [c]) p4 else Inr (clauses @ [c], p4)))))"
  by pat_completeness auto
termination
  by (relation "measure (\<lambda>(clauses, p). length (ps_tokens p) - ps_pos p)")
     (auto intro!: ps_lt_measure elim!: ps_item_lt intro: ps_le_trans dest!: ps_match_le)

definition parseOrderByClause :: "parser \<Rightarrow> parse_error + (orderByClause list \<times> parser)" where
  "parseOrderByClause p =
    ebind (ps_match p ORDER) (\<lambda>(b, p1).
      if \<not> b then Inr ([], p1)
      else ebind (ps_expect p1 BY ''Expected BY after ORDER'') (\<lambda>(_, p2). parseOrderBy_loop [] p2))"

definition parseLimitClause :: "parser \<Rightarrow> parse_error + (int option \<times> parser)" where
  "parseLimitClause p =
    ebind (ps_match p LIMIT) (\<lambda>(b, p1).
      if \<not> b then Inr (None, p1)
      else ebind (ps_expect p1 NUMBER ''Expected number after LIMIT'') (\<lambda>(tok, p2).
        case stoi (tk_value tok) of Inl e \<Rightarrow> Inl (Parser_stoi e) | Inr n \<Rightarrow> Inr (Some n, p2)))"

text \<open>The optional constraints: \<open>PRIMARY\<close> is recognised by its text, \<open>NOT\<close> by its type.\<close>

function columnDef_loop :: "columnDef \<Rightarrow> parser \<Rightarrow> parse_error + (columnDef \<times> parser)" where
  "columnDef_loop def p =
    ebind (ps_peek p) (\<lambda>cur.
      if tk_value cur = ''PRIMARY'' then
        ebind (ps_advance p) (\<lambda>(_, p1).
        ebind (ps_expect p1 IDENTIFIER ''Expected KEY after PRIMARY'') (\<lambda>(_, p2).
          columnDef_loop (def\<lparr>cd_primaryKey := True\<rparr>) p2))
      else if tk_type cur = NOT then
        ebind (ps_advance p) (\<lambda>(_, p1).
        ebind (ps_expect p1 IDENTIFIER ''Expected NULL after NOT'') (\<lambda>(_, p2).
          columnDef_loop (def\<lparr>cd_notNull := True\<rparr>) p2))
      else Inr (def, p))"
  by pat_completeness auto

termination
  by (relation "measure (\<lambda>(def, p). length (ps_tokens p) - ps_pos p)")
     (auto intro!: ps_lt_measure elim!: ps_le_lt_trans [OF ps_advance_le] ps_expect_lt)

definition parseColumnDef :: "parser \<Rightarrow> parse_error + (columnDef \<times> parser)" where
  "parseColumnDef p =
    ebind (ps_expect p IDENTIFIER ''Expected column name'') (\<lambda>(name, p1).
    ebind (ps_expect p1 IDENTIFIER ''Expected type (INT, TEXT...)'') (\<lambda>(type, p2).
      columnDef_loop \<lparr>cd_name = tk_value name, cd_type = tk_value type,
                      cd_primaryKey = False, cd_notNull = False\<rparr> p2))"

section \<open>Statements\<close>

function parseValues_loop :: "expr list \<Rightarrow> parser \<Rightarrow> parse_error + (expr list \<times> parser)" where
  "parseValues_loop vs p =
    ebind (parseExpression p) (\<lambda>(e, p1).
    ebind (ps_match p1 COMMA) (\<lambda>(more, p2).
      if more then parseValues_loop (vs @ [e]) p2 else Inr (vs @ [e], p2)))"
  by pat_completeness auto
termination
  by (relation "measure (\<lambda>(vs, p). length (ps_tokens p) - ps_pos p)")
     (auto intro!: ps_lt_measure intro: ps_lt_le_trans expression_consumes ps_match_le)

function parseAssignments_loop ::
  "(string \<times> expr) list \<Rightarrow> parser \<Rightarrow> parse_error + ((string \<times> expr) list \<times> parser)" where
  "parseAssignments_loop as p =
    ebind (ps_expect p IDENTIFIER ''Expected column name'') (\<lambda>(tok, p1).
    ebind (ps_expect p1 EQ (''Expected '' @ quoted ''='' @ '' after column name'')) (\<lambda>(_, p2).
    ebind (parseExpression p2) (\<lambda>(val, p3).
    ebind (ps_match p3 COMMA) (\<lambda>(more, p4).
      if more then parseAssignments_loop (as @ [(tk_value tok, val)]) p4
      else Inr (as @ [(tk_value tok, val)], p4)))))"
  by pat_completeness auto
termination
proof (relation "measure (\<lambda>(as, p). length (ps_tokens p) - ps_pos p)", goal_cases)
  case (2 as p x tok p1 y t2 p2 z val p3 w more p4)
  then have "ps_lt p p1" "ps_lt p1 p2" "ps_lt p2 p3" "ps_le p3 p4"
    by (auto intro: ps_expect_lt expression_consumes ps_match_le)
  then have "ps_lt p p4" by (blast intro: ps_lt_trans ps_lt_le_trans)
  then show ?case by (simp add: ps_lt_measure)
qed simp

lemma columnDef_loop_le: "columnDef_loop def p = Inr (d, p') \<Longrightarrow> ps_le p p'"
proof (induction def p rule: columnDef_loop.induct)
  case (1 def p)
  from "1.prems" obtain cur where cur: "ps_peek p = Inr cur" by auto
  consider "tk_value cur = ''PRIMARY''" | "tk_value cur \<noteq> ''PRIMARY''" "tk_type cur = NOT"
    | "tk_value cur \<noteq> ''PRIMARY''" "tk_type cur \<noteq> NOT" by blast
  then show ?case
  proof cases
    case 1
    with "1.prems" cur obtain t p1 u p2 where st: "ps_advance p = Inr (t, p1)"
      "ps_expect p1 IDENTIFIER ''Expected KEY after PRIMARY'' = Inr (u, p2)"
      "columnDef_loop (def\<lparr>cd_primaryKey := True\<rparr>) p2 = Inr (d, p')"
      by (auto simp: columnDef_loop.simps [of def p] simp del: columnDef_loop.simps)
    have "ps_le p2 p'" by (rule "1.IH"(1) [OF cur 1 st(1) refl st(2) refl st(3)])
    moreover have "ps_lt p p2" using st by (auto intro: ps_le_lt_trans ps_advance_le ps_expect_lt)
    ultimately show ?thesis by (blast intro: ps_lt_imp_le ps_lt_le_trans)
  next
    case 2
    with "1.prems" cur obtain t p1 u p2 where st: "ps_advance p = Inr (t, p1)"
      "ps_expect p1 IDENTIFIER ''Expected NULL after NOT'' = Inr (u, p2)"
      "columnDef_loop (def\<lparr>cd_notNull := True\<rparr>) p2 = Inr (d, p')"
      by (auto simp: columnDef_loop.simps [of def p] simp del: columnDef_loop.simps)
    have "ps_le p2 p'" by (rule "1.IH"(2) [OF cur 2 st(1) refl st(2) refl st(3)])
    moreover have "ps_lt p p2" using st by (auto intro: ps_le_lt_trans ps_advance_le ps_expect_lt)
    ultimately show ?thesis by (blast intro: ps_lt_imp_le ps_lt_le_trans)
  next
    case 3
    with "1.prems" cur show ?thesis
      by (auto simp: columnDef_loop.simps [of def p] ps_le_refl simp del: columnDef_loop.simps)
  qed
qed

lemma parseColumnDef_lt: "parseColumnDef p = Inr (d, p') \<Longrightarrow> ps_lt p p'"
  by (auto simp: parseColumnDef_def simp del: columnDef_loop.simps
           dest!: columnDef_loop_le ps_expect_lt intro: ps_lt_trans ps_lt_le_trans)

function parseColumnDefs_loop :: "columnDef list \<Rightarrow> parser \<Rightarrow> parse_error + (columnDef list \<times> parser)" where
  "parseColumnDefs_loop ds p =
    ebind (parseColumnDef p) (\<lambda>(d, p1).
    ebind (ps_match p1 COMMA) (\<lambda>(more, p2).
      if more then parseColumnDefs_loop (ds @ [d]) p2 else Inr (ds @ [d], p2)))"
  by pat_completeness auto
termination
  by (relation "measure (\<lambda>(ds, p). length (ps_tokens p) - ps_pos p)")
     (auto intro!: ps_lt_measure intro: ps_lt_le_trans parseColumnDef_lt ps_match_le)

declare parseColumnList_loop.simps [simp del] parseOrderBy_loop.simps [simp del]
  columnDef_loop.simps [simp del] parseValues_loop.simps [simp del]
  parseAssignments_loop.simps [simp del] parseColumnDefs_loop.simps [simp del]

definition parseSelect :: "parser \<Rightarrow> parse_error + (selectStatement \<times> parser)" where
  "parseSelect p =
    ebind (ps_expect p SELECT ''Expected SELECT'') (\<lambda>(_, p1).
    ebind (ps_check p1 STAR) (\<lambda>star.
    ebind (if star then ebind (ps_advance p1) (\<lambda>(_, p2). Inr ([''*''], p2)) else parseColumnList p1)
      (\<lambda>(cols, p2).
    ebind (ps_expect p2 FROM ''Expected FROM after column list'') (\<lambda>(_, p3).
    ebind (ps_expect p3 IDENTIFIER ''Expected table name'') (\<lambda>(tab, p4).
    ebind (parseWhereClause p4) (\<lambda>(wh, p5).
    ebind (parseOrderByClause p5) (\<lambda>(ob, p6).
    ebind (parseLimitClause p6) (\<lambda>(lim, p7).
      Inr (\<lparr>sel_columns = cols, sel_table = tk_value tab, sel_where = wh, sel_orderBy = ob,
            sel_limit = lim\<rparr>, p7)))))))))"

definition parseInsert :: "parser \<Rightarrow> parse_error + (insertStatement \<times> parser)" where
  "parseInsert p =
    ebind (ps_expect p INSERT ''Expected INSERT'') (\<lambda>(_, p1).
    ebind (ps_expect p1 INTO ''Expected INTO after INSERT'') (\<lambda>(_, p2).
    ebind (ps_expect p2 IDENTIFIER ''Expected table name'') (\<lambda>(tab, p3).
    ebind (ps_expect p3 LPAREN (''Expected '' @ quoted ''('' @ '' before column list'')) (\<lambda>(_, p4).
    ebind (parseColumnList p4) (\<lambda>(cols, p5).
    ebind (ps_expect p5 RPAREN (''Expected '' @ quoted '')'' @ '' after column list'')) (\<lambda>(_, p6).
    ebind (ps_expect p6 VALUES ''Expected VALUES'') (\<lambda>(_, p7).
    ebind (ps_expect p7 LPAREN (''Expected '' @ quoted ''('' @ '' before values'')) (\<lambda>(_, p8).
    ebind (parseValues_loop [] p8) (\<lambda>(vals, p9).
    ebind (ps_expect p9 RPAREN (''Expected '' @ quoted '')'' @ '' after values'')) (\<lambda>(_, p10).
      Inr (\<lparr>ins_table = tk_value tab, ins_columns = cols, ins_values = vals\<rparr>, p10)))))))))))"

definition parseUpdate :: "parser \<Rightarrow> parse_error + (updateStatement \<times> parser)" where
  "parseUpdate p =
    ebind (ps_expect p UPDATE ''Expected UPDATE'') (\<lambda>(_, p1).
    ebind (ps_expect p1 IDENTIFIER ''Expected table name'') (\<lambda>(tab, p2).
    ebind (ps_expect p2 SET ''Expected SET after table name'') (\<lambda>(_, p3).
    ebind (parseAssignments_loop [] p3) (\<lambda>(as, p4).
    ebind (parseWhereClause p4) (\<lambda>(wh, p5).
      Inr (\<lparr>upd_table = tk_value tab, upd_assignments = as, upd_where = wh\<rparr>, p5))))))"

definition parseDelete :: "parser \<Rightarrow> parse_error + (deleteStatement \<times> parser)" where
  "parseDelete p =
    ebind (ps_expect p DELETE ''Expected DELETE'') (\<lambda>(_, p1).
    ebind (ps_expect p1 FROM ''Expected FROM after DELETE'') (\<lambda>(_, p2).
    ebind (ps_expect p2 IDENTIFIER ''Expected table name'') (\<lambda>(tab, p3).
    ebind (parseWhereClause p3) (\<lambda>(wh, p4).
      Inr (\<lparr>del_table = tk_value tab, del_where = wh\<rparr>, p4)))))"

definition parseCreateTable :: "parser \<Rightarrow> parse_error + (createTableStatement \<times> parser)" where
  "parseCreateTable p =
    ebind (ps_expect p CREATE ''Expected CREATE'') (\<lambda>(_, p1).
    ebind (ps_expect p1 TABLE ''Expected TABLE after CREATE'') (\<lambda>(_, p2).
    ebind (ps_expect p2 IDENTIFIER ''Expected table name'') (\<lambda>(tab, p3).
    ebind (ps_expect p3 LPAREN (''Expected '' @ quoted ''('' @ '' before column definitions'')) (\<lambda>(_, p4).
    ebind (parseColumnDefs_loop [] p4) (\<lambda>(ds, p5).
    ebind (ps_expect p5 RPAREN (''Expected '' @ quoted '')'' @ '' after column definitions'')) (\<lambda>(_, p6).
      Inr (\<lparr>ct_table = tk_value tab, ct_columns = ds\<rparr>, p6)))))))"

definition parseDropTable :: "parser \<Rightarrow> parse_error + (dropTableStatement \<times> parser)" where
  "parseDropTable p =
    ebind (ps_expect p DROP ''Expected DROP'') (\<lambda>(_, p1).
    ebind (ps_expect p1 TABLE ''Expected TABLE after DROP'') (\<lambda>(_, p2).
    ebind (ps_expect p2 IDENTIFIER ''Expected table name'') (\<lambda>(tab, p3).
      Inr (\<lparr>dt_table = tk_value tab\<rparr>, p3))))"

definition parseStatement :: "parser \<Rightarrow> parse_error + (statement \<times> parser)" where
  "parseStatement p = ebind (ps_peek p) (\<lambda>cur.
    case tk_type cur of
      SELECT \<Rightarrow> ebind (parseSelect p) (\<lambda>(s, p'). Inr (StSelect s, p'))
    | INSERT \<Rightarrow> ebind (parseInsert p) (\<lambda>(s, p'). Inr (StInsert s, p'))
    | UPDATE \<Rightarrow> ebind (parseUpdate p) (\<lambda>(s, p'). Inr (StUpdate s, p'))
    | DELETE \<Rightarrow> ebind (parseDelete p) (\<lambda>(s, p'). Inr (StDelete s, p'))
    | CREATE \<Rightarrow> ebind (parseCreateTable p) (\<lambda>(s, p'). Inr (StCreateTable s, p'))
    | DROP \<Rightarrow> ebind (parseDropTable p) (\<lambda>(s, p'). Inr (StDropTable s, p'))
    | _ \<Rightarrow> ps_error p ''Expected SELECT, INSERT, UPDATE, DELETE, CREATE or DROP'' None)"

definition parse :: "parser \<Rightarrow> parse_error + statement" where
  "parse p = ebind (parseStatement p) (\<lambda>(stmt, p1).
             ebind (ps_match p1 SEMICOLON) (\<lambda>_. Inr stmt))"

end
