(* ===== verification/Lexer.thy ===== *)
theory Lexer
  imports Tokens Ctype
begin

text \<open>
  The SQL lexer (include/lexer.h, src/lexer.cpp). The state \<open>lexer\<close> holds the source string
  and the cursors \<open>pos_\<close>, \<open>line_\<close>, \<open>col_\<close>. A read of \<open>src_[i]\<close> is defined for
  \<open>i \<le> src_.size()\<close> (the character at \<open>size()\<close> is the terminating NUL); a read beyond it is the
  error \<open>Lex_out_of_range\<close> of the model, which \<open>tokenize_memory_safe\<close> shows never happens.
  Line and column are
  unbounded: they overflow an \<open>int\<close> only for sources of two billion characters.
\<close>

section \<open>The keyword table\<close>

definition KEYWORDS :: "(string \<times> tokenType) list" where
  "KEYWORDS =
    [(''SELECT'', SELECT), (''INSERT'', INSERT), (''UPDATE'', UPDATE), (''DELETE'', DELETE),
     (''CREATE'', CREATE), (''DROP'', DROP), (''TABLE'', TABLE), (''FROM'', FROM),
     (''WHERE'', WHERE), (''INTO'', INTO), (''VALUES'', VALUES), (''SET'', SET),
     (''AND'', AND), (''OR'', OR), (''NOT'', NOT), (''ORDER'', ORDER),
     (''BY'', BY), (''ASC'', ASC), (''DESC'', DESC), (''LIMIT'', LIMIT),
     (''JOIN'', JOIN), (''ON'', ON), (''INNER'', INNER), (''LEFT'', LEFT),
     (''TRUE'', BOOL_TRUE), (''FALSE'', BOOL_FALSE)]"

definition classifyWord :: "string \<Rightarrow> tokenType" where
  "classifyWord upper = (case map_of KEYWORDS upper of Some t \<Rightarrow> t | None \<Rightarrow> IDENTIFIER)"

section \<open>State and navigation\<close>

record lexer =
  lx_src :: string
  lx_pos :: nat
  lx_line :: int
  lx_col :: int

datatype lex_error =
    Lex_unterminated_string int int
  | Lex_expected_eq int
  | Lex_unknown_character char int int
  | Lex_out_of_range nat

definition Lexer_init :: "string \<Rightarrow> lexer" where
  "Lexer_init source = \<lparr>lx_src = source, lx_pos = 0, lx_line = 1, lx_col = 1\<rparr>"

definition lx_isAtEnd :: "lexer \<Rightarrow> bool" where
  "lx_isAtEnd lx \<longleftrightarrow> lx_pos lx \<ge> length (lx_src lx)"

definition lx_peek :: "lexer \<Rightarrow> char" where
  "lx_peek lx = (if lx_isAtEnd lx then CHR 0x00 else lx_src lx ! lx_pos lx)"

definition lx_peekNext :: "lexer \<Rightarrow> char" where
  "lx_peekNext lx =
     (if lx_pos lx + 1 \<ge> length (lx_src lx) then CHR 0x00 else lx_src lx ! (lx_pos lx + 1))"

text \<open>\<open>makeToken\<close>, which nothing calls, takes the position from the lexer.\<close>

definition lx_makeToken :: "tokenType \<Rightarrow> string \<Rightarrow> lexer \<Rightarrow> token" where
  "lx_makeToken t val lx = mkToken t val (lx_line lx) (lx_col lx)"

definition lx_advance :: "lexer \<Rightarrow> lex_error + (char \<times> lexer)" where
  "lx_advance lx =
    (if lx_pos lx > length (lx_src lx) then Inl (Lex_out_of_range (lx_pos lx))
     else let c = (if lx_pos lx < length (lx_src lx) then lx_src lx ! lx_pos lx else CHR 0x00);
              lx' = lx\<lparr>lx_pos := Suc (lx_pos lx)\<rparr>
          in if c = CHR 0x0A then Inr (c, lx'\<lparr>lx_line := lx_line lx + 1, lx_col := 1\<rparr>)
             else Inr (c, lx'\<lparr>lx_col := lx_col lx + 1\<rparr>))"

text \<open>What is left to read; every reader is described by what it does to it.\<close>

definition lx_rest :: "lexer \<Rightarrow> string" where
  "lx_rest lx = drop (lx_pos lx) (lx_src lx)"

lemma lx_advance_pos:
  assumes "lx_advance lx = Inr (c, lx')"
  shows "lx_src lx' = lx_src lx" and "lx_pos lx' = Suc (lx_pos lx)"
  using assms by (auto simp: lx_advance_def Let_def split: if_splits)

lemma not_isAtEnd_less: "\<not> lx_isAtEnd lx \<longleftrightarrow> lx_pos lx < length (lx_src lx)"
  by (auto simp: lx_isAtEnd_def)

section \<open>Skipping\<close>

function skipWhitespace :: "lexer \<Rightarrow> lex_error + lexer" where
  "skipWhitespace lx =
    (if \<not> lx_isAtEnd lx \<and> isspace (lx_peek lx)
     then ebind (lx_advance lx) (\<lambda>(_, lx'). skipWhitespace lx')
     else Inr lx)"
  by pat_completeness auto
termination
  by (relation "measure (\<lambda>lx. length (lx_src lx) - lx_pos lx)") (auto simp: not_isAtEnd_less lx_advance_pos)

function skipLineComment :: "lexer \<Rightarrow> lex_error + lexer" where
  "skipLineComment lx =
    (if \<not> lx_isAtEnd lx \<and> lx_peek lx \<noteq> CHR 0x0A
     then ebind (lx_advance lx) (\<lambda>(_, lx'). skipLineComment lx')
     else Inr lx)"
  by pat_completeness auto
termination
  by (relation "measure (\<lambda>lx. length (lx_src lx) - lx_pos lx)") (auto simp: not_isAtEnd_less lx_advance_pos)

section \<open>Readers\<close>

text \<open>The character an escape sequence stands for: \<open>\'\<close>, \<open>\\\<close>, \<open>\n\<close>, \<open>\t\<close>, or itself.\<close>

definition unescape :: "char \<Rightarrow> char" where
  "unescape esc = (if esc = CHR 0x27 then CHR 0x27 else if esc = CHR 0x5C then CHR 0x5C
     else if esc = CHR ''n'' then CHR 0x0A else if esc = CHR ''t'' then CHR 0x09 else esc)"

function readString_loop :: "lexer \<Rightarrow> string \<Rightarrow> lex_error + (string \<times> lexer)" where
  "readString_loop lx v =
    (if \<not> lx_isAtEnd lx \<and> lx_peek lx \<noteq> CHR 0x27
     then if lx_peek lx = CHR 0x5C
          then ebind (lx_advance lx) (\<lambda>(_, lx1).
                 ebind (lx_advance lx1) (\<lambda>(esc, lx2). readString_loop lx2 (v @ [unescape esc])))
          else ebind (lx_advance lx) (\<lambda>(c, lx1). readString_loop lx1 (v @ [c]))
     else Inr (v, lx))"
  by pat_completeness auto
termination
  by (relation "measure (\<lambda>(lx, v). length (lx_src lx) - lx_pos lx)") (auto simp: not_isAtEnd_less lx_advance_pos)

definition readString :: "lexer \<Rightarrow> lex_error + (token \<times> lexer)" where
  "readString lx =
    ebind (lx_advance lx) (\<lambda>(_, lx1).
    ebind (readString_loop lx1 []) (\<lambda>(v, lx2).
      if lx_isAtEnd lx2 then Inl (Lex_unterminated_string (lx_line lx) (lx_col lx))
      else ebind (lx_advance lx2) (\<lambda>(_, lx3).
        Inr (mkToken STRING v (lx_line lx) (lx_col lx), lx3))))"

function readDigits :: "lexer \<Rightarrow> string \<Rightarrow> lex_error + (string \<times> lexer)" where
  "readDigits lx v =
    (if \<not> lx_isAtEnd lx \<and> isdigit (lx_peek lx)
     then ebind (lx_advance lx) (\<lambda>(c, lx1). readDigits lx1 (v @ [c]))
     else Inr (v, lx))"
  by pat_completeness auto
termination
  by (relation "measure (\<lambda>(lx, v). length (lx_src lx) - lx_pos lx)") (auto simp: not_isAtEnd_less lx_advance_pos)

definition readNumber :: "lexer \<Rightarrow> lex_error + (token \<times> lexer)" where
  "readNumber lx =
    ebind (readDigits lx []) (\<lambda>(v, lx1).
      if \<not> lx_isAtEnd lx1 \<and> lx_peek lx1 = CHR ''.'' \<and> isdigit (lx_peekNext lx1)
      then ebind (lx_advance lx1) (\<lambda>(c, lx2).
           ebind (readDigits lx2 (v @ [c])) (\<lambda>(v', lx3).
             Inr (mkToken NUMBER v' (lx_line lx) (lx_col lx), lx3)))
      else Inr (mkToken NUMBER v (lx_line lx) (lx_col lx), lx1))"

function readWord_loop :: "lexer \<Rightarrow> string \<Rightarrow> lex_error + (string \<times> lexer)" where
  "readWord_loop lx v =
    (if \<not> lx_isAtEnd lx \<and> (isalnum (lx_peek lx) \<or> lx_peek lx = CHR ''_'')
     then ebind (lx_advance lx) (\<lambda>(c, lx1). readWord_loop lx1 (v @ [c]))
     else Inr (v, lx))"
  by pat_completeness auto
termination
  by (relation "measure (\<lambda>(lx, v). length (lx_src lx) - lx_pos lx)") (auto simp: not_isAtEnd_less lx_advance_pos)

definition readIdentifierOrKeyword :: "lexer \<Rightarrow> lex_error + (token \<times> lexer)" where
  "readIdentifierOrKeyword lx =
    ebind (readWord_loop lx []) (\<lambda>(v, lx1).
      Inr (mkToken (classifyWord (map toupper v)) v (lx_line lx) (lx_col lx), lx1))"

declare skipWhitespace.simps [simp del] skipLineComment.simps [simp del]
  readString_loop.simps [simp del] readDigits.simps [simp del] readWord_loop.simps [simp del]

section \<open>The tokenizer loop\<close>

text \<open>Single-character tokens, tried in the order of the source.\<close>

definition single_char_token :: "char \<Rightarrow> tokenType option" where
  "single_char_token ch =
    (if ch = CHR '','' then Some COMMA else if ch = CHR '';'' then Some SEMICOLON
     else if ch = CHR ''('' then Some LPAREN else if ch = CHR '')'' then Some RPAREN
     else if ch = CHR ''.'' then Some DOT else if ch = CHR ''+'' then Some PLUS
     else if ch = CHR ''/'' then Some SLASH else if ch = CHR ''*'' then Some STAR
     else if ch = CHR ''='' then Some EQ else if ch = CHR ''-'' then Some MINUS
     else None)"

text \<open>
  One turn of the loop of \<open>tokenize\<close> after the whitespace was skipped and the end of the
  input excluded: the tokens it appends (none for a comment) and the next state.
\<close>

definition tokenize_turn :: "lexer \<Rightarrow> lex_error + (token list \<times> lexer)" where
  "tokenize_turn lx =
    (if lx_peek lx = CHR ''-'' \<and> lx_peekNext lx = CHR ''-''
     then ebind (skipLineComment lx) (\<lambda>lx'. Inr ([], lx'))
     else
       let l = lx_line lx; c = lx_col lx; ch = lx_peek lx
       in case single_char_token ch of
            Some t \<Rightarrow> ebind (lx_advance lx) (\<lambda>(_, lx1). Inr ([mkToken t [ch] l c], lx1))
          | None \<Rightarrow>
            if ch = CHR ''>'' then
              ebind (lx_advance lx) (\<lambda>(_, lx1).
                if \<not> lx_isAtEnd lx1 \<and> lx_peek lx1 = CHR ''=''
                then ebind (lx_advance lx1) (\<lambda>(_, lx2). Inr ([mkToken GTE ''>='' l c], lx2))
                else Inr ([mkToken GT ''>'' l c], lx1))
            else if ch = CHR ''<'' then
              ebind (lx_advance lx) (\<lambda>(_, lx1).
                if \<not> lx_isAtEnd lx1 \<and> lx_peek lx1 = CHR ''=''
                then ebind (lx_advance lx1) (\<lambda>(_, lx2). Inr ([mkToken LTE ''<='' l c], lx2))
                else Inr ([mkToken LT ''<'' l c], lx1))
            else if ch = CHR ''!'' then
              ebind (lx_advance lx) (\<lambda>(_, lx1).
                if \<not> lx_isAtEnd lx1 \<and> lx_peek lx1 = CHR ''=''
                then ebind (lx_advance lx1) (\<lambda>(_, lx2). Inr ([mkToken NEQ ''!='' l c], lx2))
                else Inl (Lex_expected_eq l))
            else if ch = CHR 0x27 then ebind (readString lx) (\<lambda>(t, lx1). Inr ([t], lx1))
            else if isdigit ch then ebind (readNumber lx) (\<lambda>(t, lx1). Inr ([t], lx1))
            else if isalpha ch \<or> ch = CHR ''_'' then
              ebind (readIdentifierOrKeyword lx) (\<lambda>(t, lx1). Inr ([t], lx1))
            else Inl (Lex_unknown_character ch l c))"

section \<open>The readers as functions of the text that is left\<close>

text \<open>
  \<open>lx_step c\<close> is the state after \<open>advance\<close> returned \<open>c\<close>, \<open>lx_eat s\<close> the state after the
  characters of \<open>s\<close> were consumed. Every reader succeeds, and its value and its end state
  are a function of the text that is left.
\<close>

definition lx_step :: "char \<Rightarrow> lexer \<Rightarrow> lexer" where
  "lx_step c lx = lx\<lparr>lx_pos := Suc (lx_pos lx),
     lx_line := (if c = CHR 0x0A then lx_line lx + 1 else lx_line lx),
     lx_col := (if c = CHR 0x0A then 1 else lx_col lx + 1)\<rparr>"

primrec lx_eat :: "string \<Rightarrow> lexer \<Rightarrow> lexer" where
  "lx_eat [] lx = lx"
| "lx_eat (c # cs) lx = lx_eat cs (lx_step c lx)"

lemma lx_step_sel [simp]:
  "lx_src (lx_step c lx) = lx_src lx" "lx_pos (lx_step c lx) = Suc (lx_pos lx)"
  by (simp_all add: lx_step_def)

lemma lx_eat_sel [simp]:
  "lx_src (lx_eat s lx) = lx_src lx" "lx_pos (lx_eat s lx) = lx_pos lx + length s"
  by (induction s arbitrary: lx) simp_all

lemma lx_eat_append [simp]: "lx_eat (s @ t) lx = lx_eat t (lx_eat s lx)"
  by (induction s arbitrary: lx) simp_all

lemma lx_rest_eat [simp]: "lx_rest (lx_eat s lx) = drop (length s) (lx_rest lx)"
  and lx_rest_step [simp]: "lx_rest (lx_step c lx) = drop 1 (lx_rest lx)"
  by (simp_all add: lx_rest_def add.commute)

lemma lx_isAtEnd_rest: "lx_isAtEnd lx \<longleftrightarrow> lx_rest lx = []"
  by (simp add: lx_isAtEnd_def lx_rest_def)

lemma lx_peek_rest: "lx_peek lx = (case lx_rest lx of [] \<Rightarrow> CHR 0x00 | c # _ \<Rightarrow> c)"
  by (auto simp: lx_peek_def lx_isAtEnd_rest split: list.split)
     (simp add: lx_rest_def drop_eq_ConsD)

lemma lx_peekNext_rest:
  "lx_peekNext lx = (case lx_rest lx of _ # c # _ \<Rightarrow> c | _ \<Rightarrow> CHR 0x00)"
proof (cases "drop 1 (lx_rest lx)")
  case Nil
  then have "length (lx_src lx) \<le> lx_pos lx + 1" by (simp add: lx_rest_def)
  with Nil show ?thesis by (auto simp: lx_peekNext_def split: list.split)
next
  case (Cons c cs)
  then have "drop (lx_pos lx + 1) (lx_src lx) = c # cs" by (simp add: lx_rest_def)
  from drop_eq_ConsD [OF this] Cons show ?thesis
    by (auto simp: lx_peekNext_def split: list.split)
qed

lemma lx_advance_rest: "lx_rest lx = c # cs \<Longrightarrow> lx_advance lx = Inr (c, lx_step c lx)"
  by (auto simp: lx_rest_def lx_advance_def lx_step_def Let_def dest!: drop_eq_ConsD)

lemma lx_advance_end:
  "lx_pos lx = length (lx_src lx) \<Longrightarrow> lx_advance lx = Inr (CHR 0x00, lx_step (CHR 0x00) lx)"
  by (auto simp: lx_advance_def lx_step_def Let_def)

lemmas lx_rests = lx_isAtEnd_rest lx_peek_rest lx_advance_rest

lemma skipWhitespace_eq: "skipWhitespace lx = Inr (lx_eat (takeWhile isspace (lx_rest lx)) lx)"
proof (induction "lx_rest lx" arbitrary: lx)
  case Nil
  then show ?case by (simp add: skipWhitespace.simps lx_rests)
next
  case (Cons c cs)
  from Cons.hyps(1)[of "lx_step c lx"] Cons.hyps(2)[symmetric] show ?case
    by (simp add: skipWhitespace.simps [of lx] lx_rests)
qed

lemma skipLineComment_eq:
  "skipLineComment lx = Inr (lx_eat (takeWhile (\<lambda>c. c \<noteq> CHR 0x0A) (lx_rest lx)) lx)"
proof (induction "lx_rest lx" arbitrary: lx)
  case Nil
  then show ?case by (simp add: skipLineComment.simps lx_rests)
next
  case (Cons c cs)
  from Cons.hyps(1)[of "lx_step c lx"] Cons.hyps(2)[symmetric] show ?case
    by (simp add: skipLineComment.simps [of lx] lx_rests)
qed

lemma readDigits_eq:
  "readDigits lx v = Inr (v @ takeWhile isdigit (lx_rest lx),
                          lx_eat (takeWhile isdigit (lx_rest lx)) lx)"
proof (induction "lx_rest lx" arbitrary: lx v)
  case Nil
  then show ?case by (simp add: readDigits.simps lx_rests)
next
  case (Cons c cs)
  from Cons.hyps(1)[of "lx_step c lx"] Cons.hyps(2)[symmetric] show ?case
    by (simp add: readDigits.simps [of lx] lx_rests)
qed

lemma readWord_loop_eq:
  "readWord_loop lx v = Inr (v @ takeWhile is_word_char (lx_rest lx),
                             lx_eat (takeWhile is_word_char (lx_rest lx)) lx)"
proof (induction "lx_rest lx" arbitrary: lx v)
  case Nil
  then show ?case by (simp add: readWord_loop.simps lx_rests)
next
  case (Cons c cs)
  from Cons.hyps(1)[of "lx_step c lx"] Cons.hyps(2)[symmetric] show ?case
    by (simp add: readWord_loop.simps [of lx] lx_rests is_word_char_def)
qed

text \<open>
  The body of a string literal: its value and the characters consumed. A backslash as the
  last character of the source consumes the terminating NUL as well.
\<close>

fun str_body :: "string \<Rightarrow> string \<times> string" where
  "str_body [] = ([], [])"
| "str_body (c # cs) =
    (if c = CHR 0x27 then ([], [])
     else if c = CHR 0x5C then
       (case cs of
          [] \<Rightarrow> ([CHR 0x00], [CHR 0x5C, CHR 0x00])
        | e # cs' \<Rightarrow> (case str_body cs' of (v, u) \<Rightarrow> (unescape e # v, c # e # u)))
     else (case str_body cs of (v, u) \<Rightarrow> (c # v, c # u)))"

lemma unescape_NUL [simp]: "unescape (CHR 0x00) = CHR 0x00"
  by (simp add: unescape_def)

lemma readString_loop_eq:
  "readString_loop lx v = Inr (v @ fst (str_body (lx_rest lx)), lx_eat (snd (str_body (lx_rest lx))) lx)"
proof (induction "lx_rest lx" arbitrary: lx v rule: str_body.induct)
  case 1
  then show ?case by (simp add: readString_loop.simps lx_rests)
next
  case (2 c cs)
  note rest = "2.hyps"(3)[symmetric]
  consider "c = CHR 0x27" | "c = CHR 0x5C" "cs = []" | e cs' where "c = CHR 0x5C" "cs = e # cs'"
    | "c \<noteq> CHR 0x27" "c \<noteq> CHR 0x5C"
    by (cases cs) auto
  then show ?case
  proof cases
    case 1
    with rest show ?thesis by (simp add: readString_loop.simps lx_rests)
  next
    case 2
    have "lx_pos (lx_step c lx) = length (lx_src (lx_step c lx))"
      using rest 2 by (auto simp: lx_rest_def dest!: drop_eq_ConsD)
    from lx_advance_end [OF this] rest 2 show ?thesis
      by (simp add: readString_loop.simps lx_rests)
  next
    case 3
    have "cs = e # lx_rest (lx_step e (lx_step c lx))" using rest 3 by simp
    from "2.hyps"(1)[OF _ 3(1) this] 3 rest show ?thesis
      by (simp add: readString_loop.simps [of lx] lx_rests split: prod.split)
  next
    case 4
    have "cs = lx_rest (lx_step c lx)" using rest by simp
    from "2.hyps"(2)[OF 4 this] 4 rest show ?thesis
      by (simp add: readString_loop.simps [of lx] lx_rests split: prod.split)
  qed
qed

lemmas reader_eqs = skipWhitespace_eq skipLineComment_eq readDigits_eq readWord_loop_eq
  readString_loop_eq

section \<open>One turn of the loop makes progress\<close>

lemma single_char_token_not_EOF: "single_char_token ch = Some t \<Longrightarrow> t \<noteq> END_OF_FILE"
  by (auto simp: single_char_token_def split: if_splits)

lemma classifyWord_not_EOF: "classifyWord w \<noteq> END_OF_FILE"
proof (cases "map_of KEYWORDS w")
  case (Some t)
  then have "t \<in> snd ` set KEYWORDS" by (force dest: map_of_SomeD)
  then have "t \<noteq> END_OF_FILE" by (auto simp: KEYWORDS_def)
  with Some show ?thesis by (simp add: classifyWord_def)
qed (simp add: classifyWord_def)

lemma str_body_prefix:
  "drop (length (snd (str_body xs))) xs \<noteq> [] \<Longrightarrow>
   \<exists>r. xs = snd (str_body xs) @ CHR 0x27 # r"
proof (induction xs rule: str_body.induct)
  case (2 c cs)
  consider "c = CHR 0x27" | "c = CHR 0x5C" "cs = []" | e cs' where "c = CHR 0x5C" "cs = e # cs'"
    | "c \<noteq> CHR 0x27" "c \<noteq> CHR 0x5C"
    by (cases cs) auto
  then show ?case
  proof cases
    case 3
    with "2.IH"(1)[of e cs'] "2.prems" show ?thesis by (simp add: case_prod_unfold)
  next
    case 4
    with "2.IH"(2) "2.prems" show ?thesis by (simp add: case_prod_unfold)
  qed (use "2.prems" in simp_all)
qed simp

text \<open>\<open>consumes\<close>: a non-empty prefix of the text that is left was read.\<close>

definition consumes :: "lexer \<Rightarrow> lexer \<Rightarrow> bool" where
  "consumes lx lx' \<longleftrightarrow> (\<exists>s r. s \<noteq> [] \<and> lx_rest lx = s @ r \<and> lx' = lx_eat s lx)"

lemma consumes_step: "lx_rest lx = c # cs \<Longrightarrow> consumes lx (lx_step c lx)"
  unfolding consumes_def by (rule exI [of _ "[c]"]) simp

lemma consumes_eat: "lx_rest lx = s @ r \<Longrightarrow> s \<noteq> [] \<Longrightarrow> consumes lx (lx_eat s lx)"
  unfolding consumes_def by blast

lemma consumes_trans: "consumes a b \<Longrightarrow> consumes b c \<Longrightarrow> consumes a c"
proof -
  assume "consumes a b" "consumes b c"
  then obtain s r s' r' where 1: "s \<noteq> []" "lx_rest a = s @ r" "b = lx_eat s a"
    and 2: "lx_rest b = s' @ r'" "c = lx_eat s' b"
    by (auto simp: consumes_def)
  then have "lx_rest a = (s @ s') @ r'" by simp
  moreover have "c = lx_eat (s @ s') a" using 1 2 by simp
  moreover have "s @ s' \<noteq> []" using 1 by simp
  ultimately show "consumes a c" unfolding consumes_def by blast
qed

lemma consumes_takeWhile:
  assumes "lx_rest lx = c # cs" and "P c"
  shows "consumes lx (lx_eat (takeWhile P (lx_rest lx)) lx)"
  using assms by (intro consumes_eat [of _ _ "dropWhile P (lx_rest lx)"]) auto

text \<open>
  The text of a token in the source: a string literal stands between quotes, with its escapes;
  any other token is its own value. \<open>munch\<close>: the token does not go on in the text behind it.
\<close>

definition word_shape :: "string \<Rightarrow> bool" where
  "word_shape v = (case v of [] \<Rightarrow> False
     | c # cs \<Rightarrow> (isalpha c \<or> c = CHR ''_'') \<and> list_all is_word_char cs)"

definition number_shape :: "string \<Rightarrow> bool" where
  "number_shape v = (takeWhile isdigit v \<noteq> [] \<and> (case dropWhile isdigit v of [] \<Rightarrow> True
     | c # cs \<Rightarrow> c = CHR ''.'' \<and> cs \<noteq> [] \<and> list_all isdigit cs))"

definition SYMBOLS :: "(tokenType \<times> string) list" where
  "SYMBOLS = [(COMMA, '',''), (SEMICOLON, '';''), (LPAREN, ''(''), (RPAREN, '')''), (DOT, ''.''),
     (PLUS, ''+''), (SLASH, ''/''), (STAR, ''*''), (EQ, ''=''), (MINUS, ''-''),
     (GTE, ''>=''), (GT, ''>''), (LTE, ''<=''), (LT, ''<''), (NEQ, ''!='')]"

definition spellable :: "tokenType \<times> string \<Rightarrow> bool" where
  "spellable tv = (fst tv = STRING \<or> fst tv = NUMBER \<and> number_shape (snd tv) \<or>
     word_shape (snd tv) \<and> fst tv = classifyWord (map toupper (snd tv)) \<or> tv \<in> set SYMBOLS)"

definition token_text :: "token \<Rightarrow> string \<Rightarrow> bool" where
  "token_text t s \<longleftrightarrow> (if tk_type t = STRING
     then \<exists>u. s = CHR 0x27 # u @ [CHR 0x27] \<and> str_body (u @ [CHR 0x27]) = (tk_value t, u)
     else s = tk_value t \<and> spellable (tk_type t, tk_value t))"

definition munch :: "token \<Rightarrow> string \<Rightarrow> bool" where
  "munch t rest \<longleftrightarrow> (case rest of [] \<Rightarrow> True | c # cs \<Rightarrow>
     (tk_type t = MINUS \<longrightarrow> c \<noteq> CHR ''-'') \<and> (tk_type t \<in> {GT, LT} \<longrightarrow> c \<noteq> CHR ''='') \<and>
     (tk_type t \<noteq> STRING \<and> word_shape (tk_value t) \<longrightarrow> \<not> is_word_char c) \<and>
     (tk_type t = NUMBER \<longrightarrow> \<not> isdigit c \<and>
        \<not> (CHR ''.'' \<notin> set (tk_value t) \<and> c = CHR ''.'' \<and> cs \<noteq> [] \<and> isdigit (hd cs))))"

definition reads :: "lexer \<Rightarrow> token \<Rightarrow> lexer \<Rightarrow> bool" where
  "reads lx t lx' \<longleftrightarrow> tk_line t = lx_line lx \<and> tk_col t = lx_col lx \<and>
     (\<exists>s r. s \<noteq> [] \<and> lx_rest lx = s @ r \<and> lx' = lx_eat s lx \<and> token_text t s \<and> munch t r)"

lemma reads_consumes: "reads lx t lx' \<Longrightarrow> consumes lx lx'"
  unfolding reads_def consumes_def by blast

lemma readsI:
  assumes "lx_rest lx = s @ r" "token_text (mkToken ty v (lx_line lx) (lx_col lx)) s"
    "munch (mkToken ty v (lx_line lx) (lx_col lx)) r" "s \<noteq> []"
  shows "reads lx (mkToken ty v (lx_line lx) (lx_col lx)) (lx_eat s lx)"
  using assms unfolding reads_def by auto

lemma classifyWord_not_STRING: "classifyWord w \<noteq> STRING \<and> classifyWord w \<noteq> NUMBER"
proof (cases "map_of KEYWORDS w")
  case (Some t)
  then have "t \<in> snd ` set KEYWORDS" by (force dest: map_of_SomeD)
  then have "t \<noteq> STRING \<and> t \<noteq> NUMBER" by (auto simp: KEYWORDS_def)
  with Some show ?thesis by (simp add: classifyWord_def)
qed (simp add: classifyWord_def)

lemma str_body_stops: "str_body xs = (v, u) \<Longrightarrow> xs = u @ CHR 0x27 # r \<Longrightarrow> str_body (u @ CHR 0x27 # r') = (v, u)"
proof (induction xs arbitrary: v u rule: str_body.induct)
  case (2 c cs)
  consider "c = CHR 0x27" | "c = CHR 0x5C" "cs = []" | e cs' where "c = CHR 0x5C" "cs = e # cs'"
    | "c \<noteq> CHR 0x27" "c \<noteq> CHR 0x5C"
    by (cases cs) auto
  then show ?case
  proof cases
    case 3
    then show ?thesis using "2.IH"(1)[of e cs'] "2.prems" by (auto split: prod.splits)
  next
    case 4
    then show ?thesis using "2.IH"(2) "2.prems" by (cases u) (auto split: prod.splits)
  qed (use "2.prems" in auto)
qed simp

lemma readString_ok:
  assumes rest: "lx_rest lx = CHR 0x27 # cs" and ok: "readString lx = Inr (t, lx')"
  shows "reads lx t lx'"
proof -
  let ?b = "snd (str_body cs)"
  from ok rest have 1: "drop (length ?b) cs \<noteq> []"
    by (auto simp: readString_def lx_rests readString_loop_eq split: if_splits)
  then obtain r where r: "cs = ?b @ CHR 0x27 # r" using str_body_prefix by blast
  then have d: "drop (length ?b) cs = CHR 0x27 # r" by (metis append_eq_conv_conj)
  from ok rest d have lx': "lx' = lx_eat (CHR 0x27 # ?b @ [CHR 0x27]) lx"
    and t: "t = mkToken STRING (fst (str_body cs)) (lx_line lx) (lx_col lx)"
    by (auto simp: readString_def lx_rests readString_loop_eq split: if_splits)
  have "str_body (?b @ [CHR 0x27]) = (fst (str_body cs), ?b)"
    using str_body_stops [of cs "fst (str_body cs)" ?b r "[]"] r by simp
  moreover have "lx_rest lx = (CHR 0x27 # ?b @ [CHR 0x27]) @ r" using rest r by simp
  ultimately show ?thesis unfolding lx' t
    by (intro readsI) (simp_all add: token_text_def munch_def split: list.split)
qed

lemma word_char_of_digit: "isdigit c \<Longrightarrow> \<not> (isalpha c \<or> c = CHR ''_'')"
proof
  assume d: "isdigit c" and a: "isalpha c \<or> c = CHR ''_''"
  have "CHR ''9'' < CHR ''A''" "CHR ''9'' < CHR ''a''" "\<not> CHR ''_'' \<le> CHR ''9''" by simp_all
  with a d show False unfolding isdigit_def isalpha_def isupper_def islower_def
    by (meson less_le_trans linorder_not_le)
qed

lemma dropWhile_head: "dropWhile P xs = y # ys \<Longrightarrow> \<not> P y"
  using hd_dropWhile [of P xs] by force

lemma readNumber_ok:
  assumes rest: "lx_rest lx = c # cs" and "isdigit c" and ok: "readNumber lx = Inr (t, lx')"
  shows "reads lx t lx'"
proof -
  let ?d = "takeWhile isdigit (lx_rest lx)" and ?r = "dropWhile isdigit (lx_rest lx)"
  let ?lx1 = "lx_eat ?d lx"
  have d: "?d \<noteq> []" "list_all isdigit ?d" using assms(1,2) by (auto simp: list_all_iff dest: set_takeWhileD)
  have r: "lx_rest ?lx1 = ?r" by (simp add: dropWhile_eq_drop)
  have no_word: "\<not> word_shape (?d @ s)" for s
    using assms(1,2) word_char_of_digit [of c] by (simp add: word_shape_def)
  have no_dot: "CHR ''.'' \<notin> set ?d" using d(2) by (auto simp: list_all_iff isdigit_def)
  have all: "takeWhile isdigit (xs @ ys) = xs @ takeWhile isdigit ys" "dropWhile isdigit (xs @ ys) = dropWhile isdigit ys"
    if "list_all isdigit xs" for xs ys
    using that by (simp_all add: takeWhile_append2 dropWhile_append2 list_all_iff)
  show ?thesis
  proof (cases "\<not> lx_isAtEnd ?lx1 \<and> lx_peek ?lx1 = CHR ''.'' \<and> isdigit (lx_peekNext ?lx1)")
    case True
    then obtain y z where y: "?r = CHR ''.'' # y # z" "isdigit y" unfolding lx_rests lx_peekNext_rest r
      by (auto simp: isdigit_def split: list.splits)
    let ?e = "takeWhile isdigit (y # z)" and ?q = "dropWhile isdigit (y # z)"
    let ?v = "?d @ CHR ''.'' # ?e"
    have "lx_rest (lx_step (CHR ''.'') ?lx1) = y # z" by (simp only: lx_rest_step r y(1)) simp
    then have t: "t = mkToken NUMBER ?v (lx_line lx) (lx_col lx)" "lx' = lx_eat ?v lx"
      using ok True y r
      by (auto simp: readNumber_def readDigits_eq lx_advance_rest simp del: lx_rest_eat lx_rest_step takeWhile.simps)
    have e: "list_all isdigit ?e" "?e \<noteq> []" using y(2) by (auto simp: list_all_iff dest: set_takeWhileD)
    have "lx_rest lx = ?v @ ?q"
      using takeWhile_dropWhile_id [of isdigit "lx_rest lx"] takeWhile_dropWhile_id [of isdigit "y # z"] y(1)
      by (metis append.assoc append_Cons)
    moreover have "\<not> isdigit (CHR ''.'')" by (simp add: isdigit_def)
    then have "number_shape ?v" using d e by (simp add: number_shape_def all)
    ultimately show ?thesis unfolding t using d(1) no_word
      by (intro readsI [where r = ?q])
        (auto simp: token_text_def spellable_def munch_def split: list.split dest: dropWhile_head)
  next
    case False
    then have t: "t = mkToken NUMBER ?d (lx_line lx) (lx_col lx)" "lx' = lx_eat ?d lx"
      using ok by (auto simp: readNumber_def readDigits_eq simp del: lx_rest_eat)
    have nil: "dropWhile isdigit ?d = []" using d(2) by (simp only: dropWhile_eq_Nil_conv list_all_iff)
    have "number_shape ?d" unfolding number_shape_def nil using d(1) by simp
    moreover have "\<not> (c' = CHR ''.'' \<and> cs' \<noteq> [] \<and> isdigit (hd cs'))" if "?r = c' # cs'" for c' cs'
      using False that unfolding lx_rests lx_peekNext_rest r by (cases cs') auto
    ultimately show ?thesis unfolding t using d(1) no_word [of "[]"]
      by (intro readsI [where r = ?r])
        (auto simp: token_text_def spellable_def munch_def split: list.split dest: dropWhile_head)
  qed
qed

lemma readIdentifierOrKeyword_ok:
  assumes "lx_rest lx = c # cs" "isalpha c \<or> c = CHR ''_''" and ok: "readIdentifierOrKeyword lx = Inr (t, lx')"
  shows "reads lx t lx'"
proof -
  let ?w = "takeWhile is_word_char (lx_rest lx)" and ?r = "dropWhile is_word_char (lx_rest lx)"
  let ?ty = "classifyWord (map toupper ?w)"
  have c: "is_word_char c" using assms(2) by (auto simp: is_word_char_def isalnum_def)
  then have "word_shape ?w" using assms(1,2) by (auto simp: word_shape_def list_all_iff dest: set_takeWhileD)
  then have shape: "token_text (mkToken ?ty ?w l k) ?w" for l k
    using classifyWord_not_STRING by (simp add: token_text_def spellable_def)
  have "?ty \<notin> {MINUS, GT, LT, NUMBER}"
  proof (cases "map_of KEYWORDS (map toupper ?w)")
    case (Some ty)
    then have "ty \<in> snd ` set KEYWORDS" by (force dest: map_of_SomeD)
    with Some show ?thesis by (auto simp: KEYWORDS_def classifyWord_def)
  qed (simp add: classifyWord_def)
  then have "munch (mkToken ?ty ?w l k) ?r" for l k
    by (auto simp: munch_def split: list.split dest: dropWhile_head)
  moreover have "t = mkToken ?ty ?w (lx_line lx) (lx_col lx)" "lx' = lx_eat ?w lx"
    using ok by (auto simp: readIdentifierOrKeyword_def readWord_loop_eq)
  moreover have "?w \<noteq> []" using assms(1) c by simp
  ultimately show ?thesis using shape readsI [of lx ?w ?r] by simp
qed

text \<open>Tokens of one character, and those that an \<open>=\<close> makes longer.\<close>

lemma symbol_reads:
  assumes "lx_rest lx = s @ r" "(ty, s) \<in> set SYMBOLS" "ty = MINUS \<Longrightarrow> r = [] \<or> hd r \<noteq> CHR ''-''"
    "ty \<in> {GT, LT} \<Longrightarrow> r = [] \<or> hd r \<noteq> CHR ''=''"
  shows "reads lx (mkToken ty s (lx_line lx) (lx_col lx)) (lx_eat s lx)"
proof (rule readsI [OF assms(1)])
  have sym: "ty \<noteq> STRING \<and> ty \<noteq> NUMBER \<and> \<not> word_shape s \<and> s \<noteq> []"
    using assms(2) by (auto simp: SYMBOLS_def word_shape_def char_class_defs)
  then show "token_text (mkToken ty s (lx_line lx) (lx_col lx)) s" "s \<noteq> []"
    using assms(2) by (simp_all add: token_text_def spellable_def)
  show "munch (mkToken ty s (lx_line lx) (lx_col lx)) r" using sym assms(3,4) by (auto simp: munch_def split: list.split)
qed

lemma single_char_symbol: "single_char_token ch = Some t \<Longrightarrow> (t, [ch]) \<in> set SYMBOLS \<and> t \<notin> {GT, LT} \<and> (t = MINUS \<longrightarrow> ch = CHR ''-'')"
  by (auto simp: single_char_token_def SYMBOLS_def split: if_splits)

lemma two_char_ok:
  assumes rest: "lx_rest lx = c # cs"
    and ok: "ebind (lx_advance lx) (\<lambda>(_, lx1).
            if \<not> lx_isAtEnd lx1 \<and> lx_peek lx1 = CHR ''=''
            then ebind (lx_advance lx1) (\<lambda>(_, lx2). Inr ([mkToken t2 [c, CHR ''=''] (lx_line lx) (lx_col lx)], lx2))
            else Inr ([mkToken t1 [c] (lx_line lx) (lx_col lx)], lx1)) = Inr (ts, lx')"
    and sym: "(t1, [c]) \<in> set SYMBOLS" "(t2, [c, CHR ''='']) \<in> set SYMBOLS" "t1 \<noteq> MINUS"
  shows "\<exists>t. ts = [t] \<and> reads lx t lx'"
proof (cases "\<exists>ds. cs = CHR ''='' # ds")
  case True
  then obtain ds where cs: "cs = CHR ''='' # ds" by blast
  have "t2 \<notin> {MINUS, GT, LT}" using sym(2) by (auto simp: SYMBOLS_def)
  then have "reads lx (mkToken t2 [c, CHR ''=''] (lx_line lx) (lx_col lx)) (lx_eat [c, CHR ''=''] lx)"
    using rest cs by (intro symbol_reads [OF _ sym(2), of _ ds]) auto
  then show ?thesis using ok rest cs by (auto simp: lx_rests split: if_splits)
next
  case False
  then have "cs = [] \<or> hd cs \<noteq> CHR ''=''" by (cases cs) auto
  then have "reads lx (mkToken t1 [c] (lx_line lx) (lx_col lx)) (lx_eat [c] lx)"
    using rest sym(3) by (intro symbol_reads [OF _ sym(1), of _ cs]) auto
  then show ?thesis using ok rest False by (cases cs) (auto simp: lx_rests split: if_splits)
qed

text \<open>One turn reads a comment up to the end of its line, or one token.\<close>

lemma tokenize_turn_ok:
  assumes rest: "lx_rest lx = c # cs" and ok: "tokenize_turn lx = Inr (ts, lx')"
  shows "ts = [] \<and> (\<exists>w. lx_rest lx = ''--'' @ w \<and>
      lx' = lx_eat (''--'' @ takeWhile (\<lambda>c. c \<noteq> CHR 0x0A) w) lx) \<or> (\<exists>t. ts = [t] \<and> reads lx t lx')"
proof -
  have peek: "lx_peek lx = c" and adv: "lx_advance lx = Inr (c, lx_step c lx)"
    using rest by (simp_all add: lx_rests)
  show ?thesis
  proof (cases "c = CHR ''-'' \<and> lx_peekNext lx = CHR ''-''")
    case True
    with ok have lx': "lx' = lx_eat (takeWhile (\<lambda>c. c \<noteq> CHR 0x0A) (lx_rest lx)) lx" "ts = []"
      by (auto simp: tokenize_turn_def peek skipLineComment_eq)
    obtain w where "lx_rest lx = ''--'' @ w" using True rest by (auto simp: lx_peekNext_rest split: list.splits)
    with lx' show ?thesis by auto
  next
    case False
    note turn = ok [unfolded tokenize_turn_def peek Let_def if_not_P [OF False]]
    show ?thesis
    proof (cases "single_char_token c")
      case (Some t)
      note sym = single_char_symbol [OF Some]
      have "t = MINUS \<Longrightarrow> cs = [] \<or> hd cs \<noteq> CHR ''-''"
        using False rest sym by (cases cs) (auto simp: lx_peekNext_rest)
      then have "reads lx (mkToken t [c] (lx_line lx) (lx_col lx)) (lx_eat [c] lx)"
        using rest sym by (intro symbol_reads [of lx "[c]" cs]) auto
      with turn adv Some show ?thesis by auto
    next
      case None
      note turn = turn [unfolded None option.case]
      consider "c = CHR ''>''" | "c = CHR ''<''" | "c = CHR ''!''" | "c = CHR 0x27"
        | "c \<noteq> CHR ''>''" "c \<noteq> CHR ''<''" "c \<noteq> CHR ''!''" "c \<noteq> CHR 0x27" by blast
      then show ?thesis
      proof cases
        case 1
        with turn show ?thesis using two_char_ok [OF rest, of GTE GT] by (auto simp: SYMBOLS_def)
      next
        case 2
        with turn show ?thesis using two_char_ok [OF rest, of LTE LT] by (auto simp: SYMBOLS_def)
      next
        case 3
        then have "ts = [mkToken NEQ ''!='' (lx_line lx) (lx_col lx)] \<and> lx' = lx_eat ''!='' lx \<and>
            (\<exists>r. lx_rest lx = ''!='' @ r)"
          using turn rest by (cases cs) (auto simp: lx_rests split: if_splits)
        then obtain r where r: "ts = [mkToken NEQ ''!='' (lx_line lx) (lx_col lx)]" "lx' = lx_eat ''!='' lx"
          "lx_rest lx = ''!='' @ r" by blast
        have "reads lx (mkToken NEQ ''!='' (lx_line lx) (lx_col lx)) (lx_eat ''!='' lx)"
          by (rule symbol_reads [OF r(3)]) (simp_all add: SYMBOLS_def)
        with r show ?thesis by simp
      next
        case 4
        with turn show ?thesis using readString_ok [of lx cs] rest by auto
      next
        case 5
        note turn = turn [unfolded if_not_P [OF 5(1)] if_not_P [OF 5(2)] if_not_P [OF 5(3)]
          if_not_P [OF 5(4)]]
        show ?thesis
        proof (cases "isdigit c")
          case True
          with turn obtain t where "ts = [t]" "readNumber lx = Inr (t, lx')" by auto
          with readNumber_ok [OF rest True] show ?thesis by blast
        next
          case False
          with turn obtain t where "isalpha c \<or> c = CHR ''_''" "ts = [t]"
            "readIdentifierOrKeyword lx = Inr (t, lx')"
            by (simp add: case_prod_unfold split: if_split_asm) force
          with readIdentifierOrKeyword_ok [OF rest] show ?thesis by blast
        qed
      qed
    qed
  qed
qed

lemma tokenize_turn_consumes: "lx_rest lx = c # cs \<Longrightarrow> tokenize_turn lx = Inr (ts, lx') \<Longrightarrow> consumes lx lx'"
proof -
  assume a: "lx_rest lx = c # cs" "tokenize_turn lx = Inr (ts, lx')"
  from tokenize_turn_ok [OF this] show "consumes lx lx'"
  proof (elim disjE conjE exE)
    fix w assume w: "lx_rest lx = ''--'' @ w" "lx' = lx_eat (''--'' @ takeWhile (\<lambda>c. c \<noteq> CHR 0x0A) w) lx"
    have "lx_rest lx = (''--'' @ takeWhile (\<lambda>c. c \<noteq> CHR 0x0A) w) @ dropWhile (\<lambda>c. c \<noteq> CHR 0x0A) w" using w(1) by simp
    from consumes_eat [OF this] show ?thesis unfolding w(2) by simp
  qed (rule reads_consumes)
qed

lemma consumes_pos: "consumes lx lx' \<Longrightarrow> lx_src lx' = lx_src lx \<and> lx_pos lx < lx_pos lx' \<and>
    lx_pos lx' \<le> length (lx_src lx)"
proof -
  assume "consumes lx lx'"
  then obtain s r where s: "s \<noteq> []" "lx_rest lx = s @ r" "lx' = lx_eat s lx"
    by (auto simp: consumes_def)
  then have "length (lx_src lx) - lx_pos lx = length s + length r"
    by (metis length_append length_drop lx_rest_def)
  moreover have "0 < length s" using s by simp
  ultimately have "lx_pos lx + length s \<le> length (lx_src lx)" by linarith
  with s show ?thesis by simp
qed

function tokenize_loop :: "lexer \<Rightarrow> token list \<Rightarrow> lex_error + token list" where
  "tokenize_loop lx tokens =
    ebind (skipWhitespace lx) (\<lambda>lx1.
      if lx_isAtEnd lx1
      then Inr (tokens @ [mkToken END_OF_FILE [] (lx_line lx1) (lx_col lx1)])
      else ebind (tokenize_turn lx1) (\<lambda>(ts, lx2). tokenize_loop lx2 (tokens @ ts)))"
  by pat_completeness auto
termination
proof (relation "measure (\<lambda>(lx, tokens). length (lx_src lx) - lx_pos lx)", goal_cases)
  case 1
  show ?case by simp
next
  case (2 lx tokens lx1 ts_lx2 ts lx2)
  then obtain c cs where rest: "lx_rest lx1 = c # cs" by (cases "lx_rest lx1") (auto simp: lx_rests)
  have "consumes lx1 lx2" using tokenize_turn_consumes [OF rest] 2 by auto
  from consumes_pos [OF this] 2(1) show ?case by (auto simp: skipWhitespace_eq)
qed

declare tokenize_loop.simps [simp del]

definition tokenize :: "lexer \<Rightarrow> lex_error + token list" where
  "tokenize lx = tokenize_loop lx []"

end
