(* ===== verification/Lexer_Props.thy ===== *)
theory Lexer_Props
  imports Lexer
begin

text \<open>
  Properties of the lexer: no read beyond the source (memory safety), the positions and the
  end-of-file token of its output, and the round trip from printed tokens back to tokens.
\<close>

section \<open>Memory safety\<close>

lemma lx_advance_safe: "\<not> lx_isAtEnd lx \<Longrightarrow> lx_advance lx \<noteq> Inl e"
  by (cases "lx_rest lx") (auto simp: lx_rests)

lemma readString_safe: "\<not> lx_isAtEnd lx \<Longrightarrow> readString lx \<noteq> Inl (Lex_out_of_range i)"
  by (auto simp: readString_def readString_loop_eq ebind_eq_Inl lx_advance_safe split: if_splits)

lemma readNumber_safe: "readNumber lx \<noteq> Inl (Lex_out_of_range i)"
  by (auto simp: readNumber_def readDigits_eq ebind_eq_Inl lx_advance_safe split: if_splits)

lemma tokenize_turn_safe:
  assumes "\<not> lx_isAtEnd lx"
  shows "tokenize_turn lx \<noteq> Inl (Lex_out_of_range i)"
proof
  assume turn: "tokenize_turn lx = Inl (Lex_out_of_range i)"
  note adv = lx_advance_safe [OF assms]
  from turn adv readString_safe [OF assms] readNumber_safe show False
    unfolding tokenize_turn_def Let_def
    by (simp add: ebind_eq_Inl skipLineComment_eq readIdentifierOrKeyword_def readWord_loop_eq
          split: option.split_asm if_split_asm)
       (auto simp: lx_advance_safe)
qed

lemma tokenize_loop_safe: "tokenize_loop lx tokens \<noteq> Inl (Lex_out_of_range i)"
proof (induction lx tokens rule: tokenize_loop.induct)
  case (1 lx tokens)
  with "1.IH"[OF skipWhitespace_eq] tokenize_turn_safe show ?case
    by (subst tokenize_loop.simps) (auto simp: skipWhitespace_eq ebind_eq_Inl)
qed

text \<open>
  C19. The lexer never reads beyond the terminating NUL of its source string: no call of
  \<open>advance()\<close>, in any reader and on any source text (unterminated strings and a trailing
  backslash included), is made at a position past \<open>src_.size()\<close>.
\<close>

theorem tokenize_memory_safe: "tokenize (Lexer_init src) \<noteq> Inl (Lex_out_of_range i)"
  unfolding tokenize_def by (rule tokenize_loop_safe)

section \<open>Positions and the end-of-file token\<close>

text \<open>
  The line and column of the character after a prefix: one more than the newlines of the
  prefix, one more than the characters since the last of them.
\<close>

definition linecol :: "string \<Rightarrow> int \<times> int" where
  "linecol s = (1 + int (length (filter (\<lambda>c. c = CHR 0x0A) s)),
                1 + int (length (takeWhile (\<lambda>c. c \<noteq> CHR 0x0A) (rev s))))"

lemma linecol_snoc:
  "linecol (s @ [c]) = (if c = CHR 0x0A then (fst (linecol s) + 1, 1)
                        else (fst (linecol s), snd (linecol s) + 1))"
  by (simp add: linecol_def)

definition lx_at :: "lexer \<Rightarrow> bool" where
  "lx_at lx \<longleftrightarrow> lx_pos lx \<le> length (lx_src lx) \<and>
     (lx_line lx, lx_col lx) = linecol (take (lx_pos lx) (lx_src lx))"

lemma lx_at_step:
  assumes "lx_at lx" "lx_rest lx = c # cs" shows "lx_at (lx_step c lx)"
proof -
  from assms(2) have "lx_pos lx < length (lx_src lx)" "lx_src lx ! lx_pos lx = c"
    by (auto simp: lx_rest_def dest: drop_eq_ConsD)
  then have "take (Suc (lx_pos lx)) (lx_src lx) = take (lx_pos lx) (lx_src lx) @ [c]"
    by (simp add: take_Suc_conv_app_nth)
  with assms \<open>lx_pos lx < length (lx_src lx)\<close> show ?thesis
    by (auto simp: lx_at_def linecol_snoc) (auto simp: lx_step_def prod_eq_iff)
qed

lemma lx_at_eat: "lx_at lx \<Longrightarrow> lx_rest lx = s @ r \<Longrightarrow> lx_at (lx_eat s lx)"
proof (induction s arbitrary: lx)
  case (Cons c s)
  then show ?case using lx_at_step [of lx c "s @ r"] by simp
qed simp

lemma lx_at_consumes: "consumes lx lx' \<Longrightarrow> lx_at lx \<Longrightarrow> lx_at lx'"
  by (auto simp: consumes_def intro: lx_at_eat)

lemma lx_at_skip: "lx_at lx \<Longrightarrow> lx_at (lx_eat (takeWhile P (lx_rest lx)) lx)"
  by (rule lx_at_eat [where r = "dropWhile P (lx_rest lx)"]) simp_all

text \<open>
  \<open>lexes before rest ts\<close>: behind the text \<open>before\<close>, the text \<open>rest\<close> consists of the tokens \<open>ts\<close>, each as
  long as it can be, with blanks and comments between them. A token has the line and the
  column of its own first character; the last one, and no other, is the end of the source.
\<close>

inductive lexes :: "string \<Rightarrow> string \<Rightarrow> token list \<Rightarrow> bool" where
  lexes_end: "(l, c) = linecol before \<Longrightarrow> lexes before [] [mkToken END_OF_FILE [] l c]"
| lexes_space: "isspace c \<Longrightarrow> lexes (before @ [c]) rest ts \<Longrightarrow> lexes before (c # rest) ts"
| lexes_comment: "CHR 0x0A \<notin> set w \<Longrightarrow> rest = [] \<or> hd rest = CHR 0x0A \<Longrightarrow>
    lexes (before @ ''--'' @ w) rest ts \<Longrightarrow> lexes before (''--'' @ w @ rest) ts"
| lexes_token: "token_text t s \<Longrightarrow> munch t rest \<Longrightarrow> (tk_line t, tk_col t) = linecol before \<Longrightarrow>
    lexes (before @ s) rest ts \<Longrightarrow> lexes before (s @ rest) (t # ts)"

lemma lexes_spaces: "list_all isspace g \<Longrightarrow> lexes (before @ g) rest ts \<Longrightarrow> lexes before (g @ rest) ts"
  by (induction g arbitrary: before) (auto intro: lexes_space)

abbreviation lx_done :: "lexer \<Rightarrow> string" where
  "lx_done lx \<equiv> take (lx_pos lx) (lx_src lx)"

lemma lx_done_eat: "lx_rest lx = s @ r \<Longrightarrow> lx_done (lx_eat s lx) = lx_done lx @ s"
  by (simp add: lx_rest_def take_add)

lemma tokenize_loop_lexes:
  "tokenize_loop lx tokens = Inr ts \<Longrightarrow> lx_at lx \<Longrightarrow>
   \<exists>new. ts = tokens @ new \<and> lexes (lx_done lx) (lx_rest lx) new"
proof (induction lx tokens rule: tokenize_loop.induct)
  case (1 lx tokens)
  let ?g = "takeWhile isspace (lx_rest lx)"
  define lx1 where "lx1 = lx_eat ?g lx"
  have at1: "lx_at lx1" using "1.prems"(2) by (simp add: lx1_def lx_at_skip)
  have split: "lx_rest lx = ?g @ lx_rest lx1" by (simp add: lx1_def dropWhile_eq_drop [symmetric])
  have done1: "lx_done lx1 = lx_done lx @ ?g" unfolding lx1_def by (rule lx_done_eat [OF split])
  have skip: "lexes (lx_done lx1) (lx_rest lx1) new \<Longrightarrow> lexes (lx_done lx) (lx_rest lx) new" for new
    using lexes_spaces [of ?g "lx_done lx" "lx_rest lx1" new] split done1
    by (simp add: list_all_iff) (metis set_takeWhileD)
  note loop = "1.prems"(1) [unfolded tokenize_loop.simps [of lx] skipWhitespace_eq, folded lx1_def]
  show ?case
  proof (cases "lx_isAtEnd lx1")
    case True
    then have "lexes (lx_done lx1) (lx_rest lx1) [mkToken END_OF_FILE [] (lx_line lx1) (lx_col lx1)]"
      using at1 by (simp add: lx_isAtEnd_rest lx_at_def lexes_end)
    with skip True loop show ?thesis by auto
  next
    case False
    then obtain c cs where rest: "lx_rest lx1 = c # cs"
      by (cases "lx_rest lx1") (auto simp: lx_isAtEnd_rest)
    from loop False obtain t lx2 where turn: "tokenize_turn lx1 = Inr (t, lx2)"
      and rec: "tokenize_loop lx2 (tokens @ t) = Inr ts" by auto
    have sk: "skipWhitespace lx = Inr lx1" by (simp add: lx1_def skipWhitespace_eq)
    have at2: "lx_at lx2" using lx_at_consumes [OF tokenize_turn_consumes [OF rest turn] at1] .
    from "1.IH"[OF sk False turn refl rec at2] obtain new where
      new: "ts = (tokens @ t) @ new" "lexes (lx_done lx2) (lx_rest lx2) new" by blast
    have "lexes (lx_done lx1) (lx_rest lx1) (t @ new)"
      using tokenize_turn_ok [OF rest turn]
    proof (elim disjE conjE exE)
      fix w
      let ?w = "takeWhile (\<lambda>c. c \<noteq> CHR 0x0A) w" and ?r = "dropWhile (\<lambda>c. c \<noteq> CHR 0x0A) w"
      assume w: "t = []" "lx_rest lx1 = ''--'' @ w" "lx2 = lx_eat (''--'' @ ?w) lx1"
      have r1: "lx_rest lx1 = (''--'' @ ?w) @ ?r" using w(2) by simp
      have r2: "lx_rest lx2 = ?r" unfolding w(3) lx_rest_eat r1 by (simp add: dropWhile_eq_drop [symmetric])
      have "lx_done lx2 = lx_done lx1 @ ''--'' @ ?w" unfolding w(3) by (rule lx_done_eat [OF r1])
      moreover have "?r = [] \<or> hd ?r = CHR 0x0A" using hd_dropWhile [of "\<lambda>c. c \<noteq> CHR 0x0A" w] by blast
      moreover have "CHR 0x0A \<notin> set ?w" by (auto dest: set_takeWhileD)
      ultimately have "lexes (lx_done lx1) (''--'' @ ?w @ ?r) new" using new(2) r2 by (intro lexes_comment) simp_all
      then show ?thesis using w(1,2) by simp
    next
      fix t' assume t': "t = [t']" "reads lx1 t' lx2"
      then obtain s r where s: "lx_rest lx1 = s @ r" "lx2 = lx_eat s lx1" "token_text t' s" "munch t' r"
        and pos: "tk_line t' = lx_line lx1" "tk_col t' = lx_col lx1" by (auto simp: reads_def)
      have "lexes (lx_done lx1 @ s) r new" using new(2) s(1,2) lx_done_eat [OF s(1)] by simp
      then have "lexes (lx_done lx1) (s @ r) (t' # new)"
        using at1 pos by (intro lexes_token [OF s(3,4)]) (simp_all add: lx_at_def)
      then show ?thesis using t'(1) s(1) by simp
    qed
    with skip new(1) show ?thesis by auto
  qed
qed

text \<open>
  C20. The tokens the lexer returns are exactly the text of the source: the source is the texts
  of the tokens in their order, each as long as it can be, with nothing but blanks and
  comments between them; every token carries the line and the column of the first character
  of its own text; and the list ends with its one \<open>END_OF_FILE\<close> token, which carries the
  position of the end of the source.
\<close>

theorem token_positions:
  assumes "tokenize (Lexer_init src) = Inr ts"
  shows "lexes [] src ts"
  using tokenize_loop_lexes [OF assms [unfolded tokenize_def]]
  by (simp add: Lexer_init_def lx_at_def linecol_def lx_rest_def)

theorem token_positions_witness:
  "lexes [] (''a'' @ [CHR 0x0A] @ ''= 1--x'')
     [mkToken IDENTIFIER ''a'' 1 1, mkToken EQ ''='' 2 1, mkToken NUMBER ''1'' 2 3,
      mkToken END_OF_FILE [] 2 7]"
  by (rule token_positions) code_simp

text \<open>What the parser needs of a token stream.\<close>

definition eof_terminated :: "token list \<Rightarrow> bool" where
  "eof_terminated ts \<longleftrightarrow> ts \<noteq> [] \<and> tk_type (last ts) = END_OF_FILE \<and>
     list_all (\<lambda>t. tk_type t \<noteq> END_OF_FILE) (butlast ts)"

lemma token_text_not_EOF: "token_text t s \<Longrightarrow> tk_type t \<noteq> END_OF_FILE"
  using classifyWord_not_EOF [of "map toupper (tk_value t)"]
  by (auto simp: token_text_def spellable_def SYMBOLS_def split: if_splits)

lemma lexes_eof: "lexes before rest ts \<Longrightarrow> eof_terminated ts"
  by (induction rule: lexes.induct) (auto simp: eof_terminated_def token_text_not_EOF)

lemma tokenize_eof_terminated: "tokenize (Lexer_init src) = Inr ts \<Longrightarrow> eof_terminated ts"
  using tokenize_loop_lexes [of "Lexer_init src" "[]" ts]
  by (auto simp: tokenize_def Lexer_init_def lx_at_def linecol_def dest: lexes_eof)

section \<open>Printing tokens and reading them back\<close>

text \<open>The text of a token: a string literal is quoted and escaped, any other token is its value.\<close>

definition escape :: "char \<Rightarrow> string" where
  "escape c = (if c = CHR 0x27 \<or> c = CHR 0x5C then [CHR 0x5C, c] else [c])"

definition spell :: "tokenType \<times> string \<Rightarrow> string" where
  "spell tv = (if fst tv = STRING then CHR 0x27 # concat (map escape (snd tv)) @ [CHR 0x27]
               else snd tv)"

definition print_tokens :: "(tokenType \<times> string) list \<Rightarrow> string" where
  "print_tokens tvs = concat (map (\<lambda>tv. spell tv @ '' '') tvs)"

abbreviation tv_of :: "token \<Rightarrow> tokenType \<times> string" where
  "tv_of t \<equiv> (tk_type t, tk_value t)"

lemma str_body_escape:
  "str_body (concat (map escape v) @ CHR 0x27 # r) = (v, concat (map escape v))"
  by (induction v) (auto simp: escape_def unescape_def)

lemma not_digit_space [simp]: "\<not> isdigit (CHR '' '')" "\<not> is_word_char (CHR '' '')"
  by (simp_all add: char_class_defs)

lemma single_char_token_None:
  assumes "\<And>d. d \<in> set '',;().+/*=-'' \<Longrightarrow> c \<noteq> d"
  shows "single_char_token c = None"
  using assms by (simp add: single_char_token_def)

lemma isalpha_no_symbol:
  assumes "isalpha c \<or> c = CHR ''_''"
  shows "single_char_token c = None" "c \<noteq> CHR ''>''" "c \<noteq> CHR ''<''" "c \<noteq> CHR ''!''"
    "c \<noteq> CHR 0x27" "\<not> isdigit c" "c \<noteq> CHR ''-''" "is_word_char c" "\<not> isspace c"
proof -
  have ne: "\<And>d. \<not> (isalpha d \<or> d = CHR ''_'') \<Longrightarrow> c \<noteq> d" using assms by auto
  show "c \<noteq> CHR ''>''" "c \<noteq> CHR ''<''" "c \<noteq> CHR ''!''" "c \<noteq> CHR 0x27" "c \<noteq> CHR ''-''"
    by (rule ne, simp add: char_class_defs)+
  show "single_char_token c = None"
    by (rule single_char_token_None, rule ne) (auto simp: char_class_defs)
  show "\<not> isspace c" unfolding isspace_def de_Morgan_disj
    by (intro conjI; rule ne; simp add: char_class_defs)
  show "is_word_char c" using assms by (auto simp: is_word_char_def isalnum_def)
  show "\<not> isdigit c"
  proof
    assume d: "isdigit c"
    have "CHR ''9'' < CHR ''A''" "CHR ''9'' < CHR ''a''" "\<not> CHR ''_'' \<le> CHR ''9''" by simp_all
    with assms d show False
      unfolding isdigit_def isalpha_def isupper_def islower_def
      by (meson less_le_trans linorder_not_le)
  qed
qed

lemma isdigit_no_symbol:
  assumes "isdigit c"
  shows "single_char_token c = None" "c \<noteq> CHR ''>''" "c \<noteq> CHR ''<''" "c \<noteq> CHR ''!''"
    "c \<noteq> CHR 0x27" "c \<noteq> CHR ''-''" "\<not> isspace c"
proof -
  have ne: "\<And>d. \<not> isdigit d \<Longrightarrow> c \<noteq> d" using assms by auto
  show "c \<noteq> CHR ''>''" "c \<noteq> CHR ''<''" "c \<noteq> CHR ''!''" "c \<noteq> CHR 0x27" "c \<noteq> CHR ''-''"
    by (rule ne, simp add: char_class_defs)+
  show "single_char_token c = None"
    by (rule single_char_token_None, rule ne) (auto simp: char_class_defs)
  show "\<not> isspace c" unfolding isspace_def de_Morgan_disj
    by (intro conjI; rule ne; simp add: char_class_defs)
qed

lemma turn_string:
  assumes "lx_rest lx = spell (STRING, v) @ CHR '' '' # r"
  shows "tokenize_turn lx = Inr ([mkToken STRING v (lx_line lx) (lx_col lx)], lx_eat (spell (STRING, v)) lx)"
  using assms
  by (simp add: tokenize_turn_def Let_def spell_def lx_rests single_char_token_def readString_def
        readString_loop_eq str_body_escape)

lemma turn_word:
  assumes "lx_rest lx = v @ CHR '' '' # r" "word_shape v"
  shows "tokenize_turn lx =
    Inr ([mkToken (classifyWord (map toupper v)) v (lx_line lx) (lx_col lx)], lx_eat v lx)"
proof -
  from assms obtain c cs where v: "v = c # cs" and c: "isalpha c \<or> c = CHR ''_''"
    and cs: "list_all is_word_char cs" by (auto simp: word_shape_def split: list.splits)
  have "takeWhile is_word_char (lx_rest lx) = v"
    using assms(1) v cs isalpha_no_symbol(8) [OF c] by (auto simp: list_all_iff takeWhile_append2)
  moreover have "lx_peek lx = c" using assms(1) v by (simp add: lx_rests)
  ultimately show ?thesis
    using isalpha_no_symbol [OF c] c
    by (simp add: tokenize_turn_def Let_def readIdentifierOrKeyword_def readWord_loop_eq)
qed

lemma turn_number:
  assumes "lx_rest lx = v @ CHR '' '' # r" "number_shape v"
  shows "tokenize_turn lx = Inr ([mkToken NUMBER v (lx_line lx) (lx_col lx)], lx_eat v lx)"
proof -
  define d where "d = takeWhile isdigit v"
  define lx1 where "lx1 = lx_eat d lx"
  have v: "v = d @ dropWhile isdigit v" by (simp add: d_def)
  have d: "d \<noteq> []" "list_all isdigit d" using assms(2)
    by (auto simp: number_shape_def d_def list_all_iff dest: set_takeWhileD)
  then obtain x ds where "d = x # ds" "isdigit x" by (cases d) auto
  moreover have "lx_rest lx = d @ dropWhile isdigit v @ CHR '' '' # r"
    using assms(1) v by (metis append.assoc)
  ultimately have peek: "lx_peek lx = x" "isdigit x" by (simp_all add: lx_rests)
  have "readNumber lx = Inr (mkToken NUMBER v (lx_line lx) (lx_col lx), lx_eat v lx)"
  proof (cases "dropWhile isdigit v")
    case Nil
    then have "takeWhile isdigit (lx_rest lx) = v" using assms(1) v d by (auto simp: list_all_iff takeWhile_append2)
    then show ?thesis using assms(1) by (simp add: readNumber_def readDigits_eq lx_rests)
  next
    case (Cons c cs)
    with assms(2) obtain y ys where cs: "c = CHR ''.''" "cs = y # ys" "list_all isdigit cs"
      by (auto simp: number_shape_def neq_Nil_conv)
    have ve: "v = d @ c # cs" using v Cons by simp
    have tw: "takeWhile isdigit (lx_rest lx) = d"
      using assms(1) ve d cs(1) by (auto simp: list_all_iff takeWhile_append2 char_class_defs)
    have r1: "lx_rest lx1 = c # cs @ CHR '' '' # r" using assms(1) ve by (simp add: lx1_def)
    have "takeWhile isdigit (cs @ CHR '' '' # r) = cs"
      using cs(3) by (auto simp: list_all_iff takeWhile_append2)
    then show ?thesis using r1 cs ve
      by (simp add: readNumber_def readDigits_eq tw lx_rests lx_peekNext_rest flip: lx1_def)
  qed
  then show ?thesis using isdigit_no_symbol [OF peek(2)] peek
    by (simp add: tokenize_turn_def Let_def)
qed

lemma turn_symbol:
  assumes "lx_rest lx = v @ CHR '' '' # r" "(t, v) \<in> set SYMBOLS"
  shows "tokenize_turn lx = Inr ([mkToken t v (lx_line lx) (lx_col lx)], lx_eat v lx)"
  using assms(2)
  unfolding SYMBOLS_def list.set insert_iff empty_iff prod.inject
  by (elim disjE conjE; use assms(1) in
      \<open>simp add: tokenize_turn_def Let_def single_char_token_def lx_rests lx_peekNext_rest\<close>)

lemma tokenize_turn_spell:
  assumes rest: "lx_rest lx = spell tv @ CHR '' '' # r" and "spellable tv"
  shows "tokenize_turn lx =
    Inr ([mkToken (fst tv) (snd tv) (lx_line lx) (lx_col lx)], lx_eat (spell tv) lx)"
proof (cases "fst tv = STRING")
  case True
  then show ?thesis using turn_string [of lx "snd tv" r] rest by (cases tv) simp
next
  case False
  then have "spell tv = snd tv" by (simp add: spell_def)
  with assms False turn_number [of lx "snd tv" r] turn_word [of lx "snd tv" r]
    turn_symbol [of lx "snd tv" r "fst tv"] show ?thesis
    by (auto simp: spellable_def)
qed

lemma spell_no_space:
  assumes "spellable tv"
  shows "takeWhile isspace (spell tv @ s) = []"
proof -
  have "\<exists>c cs. spell tv = c # cs \<and> \<not> isspace c"
  proof -
    consider "fst tv = STRING" | "fst tv = NUMBER" "number_shape (snd tv)"
      | "word_shape (snd tv)" "fst tv \<noteq> STRING" | "tv \<in> set SYMBOLS"
      using assms by (auto simp: spellable_def)
    then show ?thesis
    proof cases
      case 2
      then obtain c cs where "snd tv = c # cs" "isdigit c"
        by (cases "snd tv") (auto simp: number_shape_def split: if_splits)
      with 2 isdigit_no_symbol(7) show ?thesis by (simp add: spell_def)
    next
      case 3
      then show ?thesis using isalpha_no_symbol(9)
        by (auto simp: spell_def word_shape_def split: list.splits)
    next
      case 4
      then show ?thesis by (auto simp: SYMBOLS_def spell_def isspace_def)
    qed (simp add: spell_def isspace_def)
  qed
  then show ?thesis by auto
qed

lemma tokenize_loop_print:
  "lx_rest lx = '' '' @ print_tokens tvs \<or> lx_rest lx = print_tokens tvs \<Longrightarrow>
   list_all spellable tvs \<Longrightarrow>
   \<exists>new. tokenize_loop lx acc = Inr (acc @ new) \<and> map tv_of new = tvs @ [(END_OF_FILE, [])]"
proof (induction tvs arbitrary: lx acc)
  case Nil
  then have "lx_isAtEnd (lx_eat (takeWhile isspace (lx_rest lx)) lx)"
    by (auto simp: print_tokens_def lx_isAtEnd_rest isspace_def)
  then show ?case by (subst tokenize_loop.simps) (simp add: skipWhitespace_eq)
next
  case (Cons tv tvs)
  define lx1 where "lx1 = lx_eat (takeWhile isspace (lx_rest lx)) lx"
  have r1: "lx_rest lx1 = spell tv @ CHR '' '' # print_tokens tvs"
    using Cons.prems spell_no_space [of tv]
    by (auto simp: lx1_def print_tokens_def isspace_def)
  then have "\<not> lx_isAtEnd lx1" by (simp add: lx_isAtEnd_rest)
  moreover from tokenize_turn_spell [OF r1] Cons.prems
  have "tokenize_turn lx1 =
    Inr ([mkToken (fst tv) (snd tv) (lx_line lx1) (lx_col lx1)], lx_eat (spell tv) lx1)" by simp
  moreover obtain new where "tokenize_loop (lx_eat (spell tv) lx1)
      (acc @ [mkToken (fst tv) (snd tv) (lx_line lx1) (lx_col lx1)]) =
      Inr ((acc @ [mkToken (fst tv) (snd tv) (lx_line lx1) (lx_col lx1)]) @ new)"
    "map tv_of new = tvs @ [(END_OF_FILE, [])]"
    using Cons.IH [of "lx_eat (spell tv) lx1"
        "acc @ [mkToken (fst tv) (snd tv) (lx_line lx1) (lx_col lx1)]"] Cons.prems r1
    by auto
  ultimately show ?case
    by (subst tokenize_loop.simps) (auto simp: skipWhitespace_eq simp flip: lx1_def)
qed

text \<open>
  C21. Printing tokens and lexing the text gives the tokens back: for every list of token
  types and values the lexer can produce, the lexer reads their spellings (string literals
  quoted and escaped), separated by blanks, as exactly these tokens and the end of file.
\<close>

theorem tokenize_print_roundtrip:
  assumes "list_all spellable tvs"
  shows "\<exists>ts. tokenize (Lexer_init (print_tokens tvs)) = Inr ts \<and>
              map tv_of ts = tvs @ [(END_OF_FILE, [])]"
  using tokenize_loop_print [of "Lexer_init (print_tokens tvs)" tvs "[]"] assms
  by (auto simp: tokenize_def Lexer_init_def lx_rest_def)

theorem tokenize_print_roundtrip_witness:
  "\<exists>ts. tokenize (Lexer_init (print_tokens [(SELECT, ''select''), (STAR, ''*''),
      (NUMBER, ''3.14''), (NEQ, ''!=''), (STRING, [CHR 0x27, CHR 0x5C])])) = Inr ts \<and>
    map tv_of ts = [(SELECT, ''select''), (STAR, ''*''),
      (NUMBER, ''3.14''), (NEQ, ''!=''), (STRING, [CHR 0x27, CHR 0x5C])] @ [(END_OF_FILE, [])]"
  by (rule tokenize_print_roundtrip) code_simp

end
