(* ===== verification/Parser_Props.thy ===== *)
theory Parser_Props
  imports Parser Lexer_Props
begin

text \<open>
  Properties of the parser: it never reads outside its token vector, and it inverts a printer
  of statements that writes only the parentheses the grammar needs, which fixes the
  precedence and the associativity of the operators.
\<close>

section \<open>Memory safety\<close>

text \<open>A cursor inside a vector that ends with its one end-of-file token.\<close>

definition ps_ok :: "parser \<Rightarrow> bool" where
  "ps_ok p \<longleftrightarrow> eof_terminated (ps_tokens p) \<and> ps_pos p < length (ps_tokens p)"

definition ps_safe :: "(parse_error + 'a \<times> parser) \<Rightarrow> bool" where
  "ps_safe m = (case m of Inl e \<Rightarrow> e \<noteq> Parser_undefined | Inr (x, p) \<Rightarrow> ps_ok p)"

lemma ps_safe_Inr [simp]: "ps_safe (Inr (x, p)) = ps_ok p"
  by (simp add: ps_safe_def)

lemma ps_safe_bind [intro!]:
  "ps_safe m \<Longrightarrow> (\<And>x p. m = Inr (x, p) \<Longrightarrow> ps_ok p \<Longrightarrow> ps_safe (f (x, p))) \<Longrightarrow> ps_safe (ebind m f)"
  by (auto simp: ps_safe_def ebind_def split: sum.splits)

lemma ps_ok_nonempty: "ps_ok p \<Longrightarrow> ps_rest p \<noteq> []"
  by (auto simp: ps_ok_def ps_rest_def)

lemma ps_ok_peek: "ps_ok p \<Longrightarrow> ps_peek p = Inr (hd (ps_rest p))"
  by (simp add: ps_ok_def ps_peek_def ps_rest_def hd_drop_conv_nth)

lemma ps_ok_check: "ps_ok p \<Longrightarrow> ps_check p t = Inr (tk_type (hd (ps_rest p)) = t)"
  by (simp add: ps_check_def ps_ok_peek)

lemma ps_ok_check_any: "ps_ok p \<Longrightarrow> ps_check_any p ts = Inr (tk_type (hd (ps_rest p)) \<in> set ts)"
  by (simp add: ps_check_any_def ps_ok_peek)

lemma ps_ok_error [intro!]: "ps_ok p \<Longrightarrow> ps_safe (ps_error p m g)"
  by (simp add: ps_error_def ps_ok_peek ps_safe_def)

lemma ps_ok_next: "ps_ok p \<Longrightarrow> tk_type (hd (ps_rest p)) \<noteq> END_OF_FILE \<Longrightarrow> ps_ok (ps_next p)"
proof -
  assume ok: "ps_ok p" and ne: "tk_type (hd (ps_rest p)) \<noteq> END_OF_FILE"
  then have "ps_pos p \<noteq> length (ps_tokens p) - 1"
    by (auto simp: ps_ok_def eof_terminated_def ps_rest_def hd_drop_conv_nth last_conv_nth)
  with ok show "ps_ok (ps_next p)" unfolding ps_ok_def ps_next_sel by linarith
qed

lemma ps_ok_advance [intro!]:
  assumes "ps_ok p" "tk_type (hd (ps_rest p)) \<noteq> END_OF_FILE \<or> 0 < ps_pos p"
  shows "ps_safe (ps_advance p)"
proof (cases "tk_type (hd (ps_rest p)) = END_OF_FILE")
  case False
  with assms obtain t r where "ps_rest p = t # r" "tk_type t \<noteq> END_OF_FILE"
    by (cases "ps_rest p") (auto dest: ps_ok_nonempty)
  with ps_ok_next [OF assms(1) False] show ?thesis by (simp add: ps_advance_Cons)
qed (use assms in \<open>simp add: ps_advance_def ps_isAtEnd_def ps_ok_peek\<close>)

lemma ps_ok_expect [intro!]: "ps_ok p \<Longrightarrow> t \<noteq> END_OF_FILE \<Longrightarrow> ps_safe (ps_expect p t m)"
  by (auto simp: ps_expect_def ps_ok_check ps_ok_peek)

lemma ps_ok_match [intro!]: "ps_ok p \<Longrightarrow> t \<noteq> END_OF_FILE \<Longrightarrow> ps_safe (ps_match p t)"
  by (auto simp: ps_match_def ps_ok_check)

lemma expression_safe:
  shows "ps_ok p \<Longrightarrow> ps_safe (parseExpression p)"
    and "ps_ok p1 \<Longrightarrow> ps_safe (expressionLoop l1 p1)"
    and "ps_ok p2 \<Longrightarrow> ps_safe (parseComparison p2)"
    and "ps_ok p3 \<Longrightarrow> ps_safe (comparisonLoop l3 p3)"
    and "ps_ok p4 \<Longrightarrow> ps_safe (parseUnary p4)"
    and "ps_ok p5 \<Longrightarrow> ps_safe (parsePrimary p5)"
proof (induction p and l1 p1 and p2 and l3 p3 and p4 and p5
    rule: parseExpression_expressionLoop_parseComparison_comparisonLoop_parseUnary_parsePrimary.induct)
  case (2 left p)
  then show ?case
    by (subst expressionLoop.simps) (auto simp: ps_ok_check_any)
next
  case (4 left p)
  then show ?case
    by (subst comparisonLoop.simps) (auto simp: ps_ok_check_any)
next
  case (5 p)
  then show ?case
    by (subst parseUnary.simps) (auto simp: ps_ok_check_any)
next
  case (6 p)
  then show ?case
    by (subst parsePrimary.simps) (auto simp: ps_ok_peek ps_ok_check)
qed (subst parseExpression.simps parseComparison.simps, auto)+

lemma parseColumnList_loop_safe: "ps_ok p \<Longrightarrow> ps_safe (parseColumnList_loop cols p)"
proof (induction cols p rule: parseColumnList_loop.induct)
  case (1 cols p)
  then show ?case by (subst parseColumnList_loop.simps) auto
qed

lemma parseWhereClause_safe: "ps_ok p \<Longrightarrow> ps_safe (parseWhereClause p)"
  by (auto simp: parseWhereClause_def intro!: expression_safe)

lemma parseOrderBy_loop_safe: "ps_ok p \<Longrightarrow> ps_safe (parseOrderBy_loop cs p)"
proof (induction cs p rule: parseOrderBy_loop.induct)
  case (1 cs p)
  then show ?case by (subst parseOrderBy_loop.simps) (auto simp: Let_def)
qed

lemma parseOrderByClause_safe: "ps_ok p \<Longrightarrow> ps_safe (parseOrderByClause p)"
  by (auto simp: parseOrderByClause_def intro!: parseOrderBy_loop_safe)

lemma parseLimitClause_safe: "ps_ok p \<Longrightarrow> ps_safe (parseLimitClause p)"
  unfolding parseLimitClause_def
  by (rule ps_safe_bind) (auto split: sum.split simp: ps_safe_def[of "Inl _"])

lemma parseValues_loop_safe: "ps_ok p \<Longrightarrow> ps_safe (parseValues_loop vs p)"
proof (induction vs p rule: parseValues_loop.induct)
  case (1 vs p)
  then show ?case by (subst parseValues_loop.simps) (auto intro!: expression_safe)
qed

lemma parseAssignments_loop_safe: "ps_ok p \<Longrightarrow> ps_safe (parseAssignments_loop as p)"
proof (induction as p rule: parseAssignments_loop.induct)
  case (1 as p)
  then show ?case by (subst parseAssignments_loop.simps) (auto intro!: expression_safe)
qed

lemma ps_expect_pos: "ps_expect p t m = Inr (x, p') \<Longrightarrow> t \<noteq> END_OF_FILE \<Longrightarrow> 0 < ps_pos p'"
  by (auto simp: ps_lt_def dest!: ps_expect_lt)

lemma columnDef_loop_safe: "ps_ok p \<Longrightarrow> 0 < ps_pos p \<Longrightarrow> ps_safe (columnDef_loop d p)"
proof (induction d p rule: columnDef_loop.induct)
  case (1 d p)
  note pk = ps_ok_peek [OF "1.prems"(1)]
  have "ps_safe (columnDef_loop (d\<lparr>cd_primaryKey := True\<rparr>) r)"
    if "tk_value (hd (ps_rest p)) = ''PRIMARY''" "ps_advance p = Inr (x, q)"
      "ps_expect q IDENTIFIER ''Expected KEY after PRIMARY'' = Inr (y, r)" "ps_ok r" for x q y r
    using "1.IH"(1) [OF pk that(1,2) refl that(3) refl that(4)] ps_expect_pos [OF that(3)] by simp
  moreover have "ps_safe (columnDef_loop (d\<lparr>cd_notNull := True\<rparr>) r)"
    if "tk_value (hd (ps_rest p)) \<noteq> ''PRIMARY''" "tk_type (hd (ps_rest p)) = NOT" "ps_advance p = Inr (x, q)"
      "ps_expect q IDENTIFIER ''Expected NULL after NOT'' = Inr (y, r)" "ps_ok r" for x q y r
    using "1.IH"(2) [OF pk that(1,2,3) refl that(4) refl that(5)] ps_expect_pos [OF that(4)] by simp
  ultimately show ?case using "1.prems"
    by (subst columnDef_loop.simps) (auto simp: ps_ok_peek)
qed

lemma parseColumnDef_safe: "ps_ok p \<Longrightarrow> ps_safe (parseColumnDef p)"
  by (auto simp: parseColumnDef_def intro!: columnDef_loop_safe intro: ps_expect_pos)

lemma parseColumnDefs_loop_safe: "ps_ok p \<Longrightarrow> ps_safe (parseColumnDefs_loop ds p)"
proof (induction ds p rule: parseColumnDefs_loop.induct)
  case (1 ds p)
  then show ?case by (subst parseColumnDefs_loop.simps) (auto intro!: parseColumnDef_safe)
qed

lemmas clause_safe = parseColumnList_loop_safe parseWhereClause_safe parseOrderByClause_safe
  parseLimitClause_safe parseValues_loop_safe parseAssignments_loop_safe parseColumnDefs_loop_safe

lemma parseStatement_safe: "ps_ok p \<Longrightarrow> ps_safe (parseStatement p)"
  unfolding parseStatement_def parseSelect_def parseInsert_def parseUpdate_def parseDelete_def
    parseCreateTable_def parseDropTable_def parseColumnList_def
  by (auto simp: ps_ok_peek ps_ok_check split: tokenType.split intro!: clause_safe)

text \<open>
  C22. The front end is memory safe: on the tokens of any source text, no access of the parser
  to its token vector is out of range, whatever the syntax errors of the text.
\<close>

theorem parse_memory_safe:
  assumes "tokenize (Lexer_init src) = Inr ts"
  shows "parse (Parser_init ts) \<noteq> Inl Parser_undefined"
proof -
  have "ps_ok (Parser_init ts)" using tokenize_eof_terminated [OF assms]
    by (simp add: ps_ok_def Parser_init_def eof_terminated_def)
  then have st: "ps_safe (parseStatement (Parser_init ts))" by (rule parseStatement_safe)
  show ?thesis
  proof
    assume "parse (Parser_init ts) = Inl Parser_undefined"
    with st obtain s p where "ps_ok p" "ps_match p SEMICOLON = Inl Parser_undefined"
      by (auto simp: parse_def ebind_eq_Inl ps_safe_def)
    with ps_ok_match [of p SEMICOLON] show False by (simp add: ps_safe_def)
  qed
qed

theorem parse_memory_safe_witness:
  "parse (Parser_init [mkToken SELECT ''SELECT'' 1 1, mkToken END_OF_FILE [] 1 7]) \<noteq> Inl Parser_undefined"
  by (rule parse_memory_safe [of "''SELECT''"]) code_simp

section \<open>The parser as a reader of types and values\<close>

definition ps_tvs :: "parser \<Rightarrow> (tokenType \<times> string) list" where
  "ps_tvs p = map tv_of (ps_rest p)"

abbreviation ps_cur :: "parser \<Rightarrow> token" where
  "ps_cur p \<equiv> hd (ps_rest p)"

definition ps_skip :: "nat \<Rightarrow> parser \<Rightarrow> parser" where
  "ps_skip n p = p\<lparr>ps_pos := ps_pos p + n\<rparr>"

lemma ps_tvs_next [simp]: "ps_tvs (ps_next p) = tl (ps_tvs p)"
  by (simp add: ps_tvs_def map_tl)

lemma ps_tvs_skip [simp]: "ps_tvs (ps_skip n p) = drop n (ps_tvs p)"
  by (simp add: ps_tvs_def ps_rest_def ps_skip_def drop_map add.commute)

lemma ps_skip_skip [simp]: "ps_skip n (ps_skip m p) = ps_skip (m + n) p"
  and ps_next_skip [simp]: "ps_next (ps_skip n p) = ps_skip (Suc n) p"
  and ps_skip_next [simp]: "ps_skip n (ps_next p) = ps_skip (Suc n) p"
  by (simp_all add: ps_skip_def ps_next_def add.commute add.left_commute)

lemma ps_tvs_cur:
  "ps_tvs p = tv # r \<Longrightarrow> tk_type (ps_cur p) = fst tv \<and> tk_value (ps_cur p) = snd tv"
  by (cases "ps_rest p") (auto simp: ps_tvs_def)

lemma ps_peek_tvs: "ps_tvs p = tv # r \<Longrightarrow> ps_peek p = Inr (ps_cur p)"
  by (cases "ps_rest p") (auto simp: ps_tvs_def ps_peek_Cons)

lemma ps_check_tvs: "ps_tvs p = tv # r \<Longrightarrow> ps_check p t = Inr (fst tv = t)"
  by (simp add: ps_check_def ps_peek_tvs ps_tvs_cur)

lemma ps_check_any_tvs: "ps_tvs p = tv # r \<Longrightarrow> ps_check_any p ts = Inr (fst tv \<in> set ts)"
  by (simp add: ps_check_any_def ps_peek_tvs ps_tvs_cur)

lemma ps_advance_tvs:
  "ps_tvs p = tv # r \<Longrightarrow> fst tv \<noteq> END_OF_FILE \<Longrightarrow> ps_advance p = Inr (ps_cur p, ps_next p)"
  by (cases "ps_rest p") (auto simp: ps_tvs_def ps_advance_Cons)

lemma ps_match_tvs:
  "ps_tvs p = tv # r \<Longrightarrow> t \<noteq> END_OF_FILE \<Longrightarrow>
   ps_match p t = Inr (if fst tv = t then (True, ps_next p) else (False, p))"
  by (simp add: ps_match_def ps_check_tvs ps_advance_tvs)

lemma ps_expect_tvs:
  "ps_tvs p = tv # r \<Longrightarrow> fst tv \<noteq> END_OF_FILE \<Longrightarrow> fst tv = t \<Longrightarrow>
   ps_expect p t m = Inr (ps_cur p, ps_next p)"
  by (simp add: ps_expect_def ps_check_tvs ps_advance_tvs)

lemmas ps_reads = ps_peek_tvs ps_check_tvs ps_check_any_tvs ps_advance_tvs ps_match_tvs
  ps_expect_tvs ps_tvs_cur

declare ps_rest_next [simp del]

section \<open>Printing expressions\<close>

text \<open>
  The printer has the levels of the grammar: 0 for \<open>AND\<close> and \<open>OR\<close> (one level, associating to
  the left), 1 for comparisons (to the left), 2 for prefix operators, 3 for primaries. An
  operand is put in parentheses exactly when its level is below the one the grammar asks for.
\<close>

definition op_type :: "string \<Rightarrow> tokenType" where
  "op_type op = (case map_of (map prod.swap SYMBOLS) op of
     Some t \<Rightarrow> t | None \<Rightarrow> classifyWord (map toupper op))"

definition logic_op :: "string \<Rightarrow> bool" where
  "logic_op op \<longleftrightarrow> op_type op \<in> {AND, OR}"

definition comparison_op :: "string \<Rightarrow> bool" where
  "comparison_op op \<longleftrightarrow> op_type op \<in> {EQ, NEQ, LT, GT, LTE, GTE}"

definition prefix_op :: "string \<Rightarrow> bool" where
  "prefix_op op \<longleftrightarrow> op_type op \<in> {NOT, MINUS}"

fun expr_level :: "expr \<Rightarrow> nat" where
  "expr_level (BinaryExpr op l r) = (if logic_op op then 0 else 1)"
| "expr_level (UnaryExpr op e) = 2"
| "expr_level _ = 3"

definition paren :: "nat \<Rightarrow> expr \<Rightarrow> (tokenType \<times> string) list \<Rightarrow> (tokenType \<times> string) list" where
  "paren n e ts = (if expr_level e < n then (LPAREN, ''('') # ts @ [(RPAREN, '')'')] else ts)"

fun print_expr :: "expr \<Rightarrow> (tokenType \<times> string) list" where
  "print_expr (LiteralExpr k v) = [(case k of LkInteger \<Rightarrow> NUMBER | LkFloat \<Rightarrow> NUMBER
      | LkString \<Rightarrow> STRING | LkBool \<Rightarrow> classifyWord (map toupper v), v)]"
| "print_expr (ColumnRefExpr t c) =
     (if t = [] then [(IDENTIFIER, c)] else [(IDENTIFIER, t), (DOT, ''.''), (IDENTIFIER, c)])"
| "print_expr (BinaryExpr op l r) = (if logic_op op
     then paren 0 l (print_expr l) @ (op_type op, op) # paren 1 r (print_expr r)
     else paren 1 l (print_expr l) @ (op_type op, op) # paren 2 r (print_expr r))"
| "print_expr (UnaryExpr op e) = (op_type op, op) # paren 2 e (print_expr e)"

text \<open>The trees the parser can build: operators and literals as the grammar has them.\<close>

definition ident :: "string \<Rightarrow> bool" where
  "ident s \<longleftrightarrow> word_shape s \<and> classifyWord (map toupper s) = IDENTIFIER"

definition wf_literal :: "lit_kind \<Rightarrow> string \<Rightarrow> bool" where
  "wf_literal k v = (case k of
      LkInteger \<Rightarrow> number_shape v \<and> CHR ''.'' \<notin> set v
    | LkFloat \<Rightarrow> number_shape v \<and> CHR ''.'' \<in> set v
    | LkString \<Rightarrow> True
    | LkBool \<Rightarrow> word_shape v \<and> classifyWord (map toupper v) \<in> {BOOL_TRUE, BOOL_FALSE})"

definition op_spelled :: "string \<Rightarrow> bool" where
  "op_spelled op \<longleftrightarrow> (op_type op, op) \<in> set SYMBOLS \<or> word_shape op"

fun wf_expr :: "expr \<Rightarrow> bool" where
  "wf_expr (LiteralExpr k v) = wf_literal k v"
| "wf_expr (ColumnRefExpr t c) = ((t = [] \<or> ident t) \<and> ident c)"
| "wf_expr (BinaryExpr op l r) =
    ((logic_op op \<or> comparison_op op) \<and> op_spelled op \<and> wf_expr l \<and> wf_expr r)"
| "wf_expr (UnaryExpr op e) = (prefix_op op \<and> op_spelled op \<and> wf_expr e)"

text \<open>What the parse function of each level does on the text of an expression of that level.\<close>

definition reads_at :: "nat \<Rightarrow> parser \<Rightarrow> expr \<Rightarrow> parser \<Rightarrow> bool" where
  "reads_at n p e p' = (if n = 0 then parseExpression p = expressionLoop e p'
     else if n = 1 then parseComparison p = comparisonLoop e p'
     else if n = 2 then parseUnary p = Inr (e, p')
     else parsePrimary p = Inr (e, p'))"

text \<open>The tokens that may follow an operand of a level.\<close>

definition follows :: "nat \<Rightarrow> (tokenType \<times> string) list \<Rightarrow> bool" where
  "follows n r \<longleftrightarrow> r \<noteq> [] \<and> fst (hd r) \<noteq> DOT \<and>
     (n = 0 \<longrightarrow> fst (hd r) \<notin> {EQ, NEQ, LT, GT, LTE, GTE})"

lemma reads_at_lower:
  assumes "reads_at (Suc n) p e p'" "ps_tvs p' = r" "follows n r"
  shows "reads_at n p e p'"
proof -
  consider "n = 0" | "n = 1" | "n = 2" | "n > 2" by linarith
  then show ?thesis
  proof cases
    case 1
    from assms(3) obtain tv r' where "r = tv # r'" by (cases r) (auto simp: follows_def)
    with assms 1 show ?thesis
      by (auto simp: reads_at_def follows_def ps_reads comparisonLoop.simps [of _ p']
               parseExpression.simps [of p])
  next
    case 2
    then show ?thesis using assms by (simp add: reads_at_def parseComparison.simps [of p])
  next
    case 3
    then have prim: "parsePrimary p = Inr (e, p')" using assms by (simp add: reads_at_def)
    then obtain cur where cur: "ps_peek p = Inr cur" by (auto simp: parsePrimary.simps [of p])
    have "tk_type cur \<noteq> NOT" "tk_type cur \<noteq> MINUS"
      using prim cur by (auto simp: parsePrimary.simps [of p])
    then show ?thesis using cur prim 3
      by (simp add: reads_at_def parseUnary.simps [of p] ps_check_any_def)
  next
    case 4
    then show ?thesis using assms by (simp add: reads_at_def)
  qed
qed

lemma follows_mono: "follows n r \<Longrightarrow> n \<le> m \<Longrightarrow> follows m r"
  by (auto simp: follows_def)

lemma reads_at_le:
  "n \<le> m \<Longrightarrow> reads_at m p e p' \<Longrightarrow> ps_tvs p' = r \<Longrightarrow> follows n r \<Longrightarrow> reads_at n p e p'"
proof (induction m)
  case (Suc m)
  then show ?case
    using reads_at_lower [of m p e p' r] follows_mono [of n r m] by (cases "n = Suc m") auto
qed simp

text \<open>An operand in its place: from its own level, through parentheses when they are needed.\<close>

lemma reads_paren:
  assumes own: "\<And>p r. ps_tvs p = print_expr e @ r \<Longrightarrow> follows (expr_level e) r \<Longrightarrow>
      reads_at (expr_level e) p e (ps_skip (length (print_expr e)) p)"
    and p: "ps_tvs p = paren n e (print_expr e) @ r" "follows n r" "n \<le> 3"
  shows "reads_at n p e (ps_skip (length (paren n e (print_expr e))) p)"
proof (cases "expr_level e < n")
  case False
  with p have tvs: "ps_tvs p = print_expr e @ r" by (simp add: paren_def)
  have "reads_at (expr_level e) p e (ps_skip (length (print_expr e)) p)"
    using own [OF tvs] False p(2) by (simp add: follows_mono)
  then show ?thesis using False p(2) reads_at_le [of n "expr_level e" p e _ r] tvs
    by (simp add: paren_def)
next
  case True
  define q where "q = ps_skip (length (print_expr e)) (ps_next p)"
  from True p have tvs: "ps_tvs p = (LPAREN, ''('') # print_expr e @ (RPAREN, '')'') # r"
    by (simp add: paren_def)
  then have "reads_at (expr_level e) (ps_next p) e q"
    unfolding q_def by (intro own [where r = "(RPAREN, '')'') # r"]) (auto simp: follows_def)
  moreover have tq: "ps_tvs q = (RPAREN, '')'') # r" using tvs by (simp add: q_def)
  ultimately have "reads_at 0 (ps_next p) e q"
    using reads_at_le [of 0 "expr_level e" "ps_next p" e q "ps_tvs q"] by (simp add: follows_def)
  then have "parseExpression (ps_next p) = Inr (e, q)"
    using tq by (simp add: reads_at_def expressionLoop.simps [of _ q] ps_reads)
  then have "reads_at 3 p e (ps_next q)"
    using tvs tq by (simp add: reads_at_def parsePrimary.simps [of p] ps_reads)
  moreover have "ps_next q = ps_skip (length (paren n e (print_expr e))) p"
    using True by (simp add: q_def paren_def)
  ultimately show ?thesis
    using p tq reads_at_le [of n 3 p e "ps_next q" r] by simp
qed

lemma comparisonLoop_stop: "follows 0 (ps_tvs p) \<Longrightarrow> comparisonLoop e p = Inr (e, p)"
  by (cases "ps_tvs p") (auto simp: comparisonLoop.simps [of e p] ps_reads follows_def)

lemma print_expr_reads:
  "wf_expr e \<Longrightarrow> ps_tvs p = print_expr e @ r \<Longrightarrow> follows (expr_level e) r \<Longrightarrow>
   reads_at (expr_level e) p e (ps_skip (length (print_expr e)) p)"
proof (induction e arbitrary: p r)
  case (LiteralExpr k v)
  obtain tv r' where r: "r = tv # r'" using LiteralExpr.prems by (cases r) (auto simp: follows_def)
  with LiteralExpr show ?case
    by (cases k)
       (auto simp: reads_at_def parsePrimary.simps [of p] ps_reads wf_literal_def ps_skip_def ps_next_def)
next
  case (ColumnRefExpr t c)
  obtain tv r' where r: "r = tv # r'" "fst tv \<noteq> DOT"
    using ColumnRefExpr.prems by (cases r) (auto simp: follows_def)
  show ?case
  proof (cases "t = []")
    case True
    with ColumnRefExpr.prems r show ?thesis
      by (simp add: reads_at_def parsePrimary.simps [of p] ps_reads) (simp add: ps_skip_def ps_next_def)
  next
    case False
    with ColumnRefExpr.prems r
    have "ps_tvs p = (IDENTIFIER, t) # (DOT, ''.'') # (IDENTIFIER, c) # r" by simp
    then show ?thesis using False
      by (simp add: reads_at_def parsePrimary.simps [of p] ps_reads) (simp add: ps_skip_def ps_next_def)
  qed
next
  case (UnaryExpr op e)
  define s where "s = ps_skip (length (paren 2 e (print_expr e))) (ps_next p)"
  from UnaryExpr.prems have tvs: "ps_tvs p = (op_type op, op) # paren 2 e (print_expr e) @ r"
    and "prefix_op op" and wf: "wf_expr e" and f: "follows 2 r" by simp_all
  have "reads_at 2 (ps_next p) e s"
    unfolding s_def by (rule reads_paren [OF UnaryExpr.IH [OF wf] _ f]) (use tvs in simp_all)
  with tvs \<open>prefix_op op\<close> show ?case
    by (auto simp: reads_at_def parseUnary.simps [of p] ps_reads prefix_op_def s_def)
next
  case (BinaryExpr op left right)
  define n m :: nat where "n = (if logic_op op then 0 else 1)" and "m = Suc n"
  define q where "q = ps_skip (length (paren n left (print_expr left))) p"
  define s where "s = ps_skip (length (paren m right (print_expr right))) (ps_next q)"
  have lev: "expr_level (BinaryExpr op left right) = n" by (simp add: n_def)
  from BinaryExpr.prems have tvs: "ps_tvs p = paren n left (print_expr left) @
      (op_type op, op) # paren m right (print_expr right) @ r"
    and op: "logic_op op \<or> comparison_op op" and wf: "wf_expr left" "wf_expr right"
    and f: "follows n r" by (auto simp: n_def m_def numeral_2_eq_2)
  have n: "n \<le> 1" by (simp add: n_def)
  have tq: "ps_tvs q = (op_type op, op) # paren m right (print_expr right) @ r"
    and ts: "ps_tvs s = r" using tvs by (simp_all add: q_def s_def)
  have "follows n (ps_tvs q)"
    using op tq by (auto simp: follows_def n_def logic_op_def comparison_op_def)
  then have L: "reads_at n p left q"
    unfolding q_def by (intro reads_paren [OF BinaryExpr.IH(1) [OF wf(1)]]) (use tvs tq n in \<open>simp_all add: q_def\<close>)
  have R: "reads_at m (ps_next q) right s"
    unfolding s_def
    by (rule reads_paren [OF BinaryExpr.IH(2) [OF wf(2)]])
       (use tq n follows_mono [OF f, of m] in \<open>simp_all add: m_def\<close>)
  have len: "ps_skip (length (print_expr (BinaryExpr op left right))) p = s"
    by (simp add: s_def q_def n_def m_def numeral_2_eq_2)
  show ?case
  proof (cases "logic_op op")
    case True
    then have "parseExpression p = expressionLoop left q"
      "parseComparison (ps_next q) = comparisonLoop right s" using L R
      by (simp_all add: reads_at_def n_def m_def)
    moreover have "comparisonLoop right s = Inr (right, s)"
      using f ts True by (intro comparisonLoop_stop) (simp add: n_def)
    ultimately have "parseExpression p = expressionLoop (BinaryExpr op left right) s"
      using tq True by (auto simp: expressionLoop.simps [of left q] ps_reads logic_op_def)
    then show ?thesis unfolding lev len using True by (simp add: reads_at_def n_def)
  next
    case False
    then have "parseComparison p = comparisonLoop left q"
      "parseUnary (ps_next q) = Inr (right, s)" using L R
      by (simp_all add: reads_at_def n_def m_def)
    then have "parseComparison p = comparisonLoop (BinaryExpr op left right) s"
      using tq op False by (auto simp: comparisonLoop.simps [of left q] ps_reads comparison_op_def)
    then show ?thesis unfolding lev len using False by (simp add: reads_at_def n_def)
  qed
qed

text \<open>The tokens that may follow a whole expression.\<close>

definition ends_expr :: "(tokenType \<times> string) list \<Rightarrow> bool" where
  "ends_expr r \<longleftrightarrow> r \<noteq> [] \<and> fst (hd r) \<notin> {DOT, AND, OR, EQ, NEQ, LT, GT, LTE, GTE}"

lemma parseExpression_print:
  assumes "wf_expr e" "ps_tvs p = print_expr e @ r" "ends_expr r"
  shows "parseExpression p = Inr (e, ps_skip (length (print_expr e)) p)"
proof -
  define q where "q = ps_skip (length (print_expr e)) p"
  have tq: "ps_tvs q = r" using assms(2) by (simp add: q_def)
  have f: "follows n r" for n using assms(3) by (auto simp: follows_def ends_expr_def)
  have "reads_at (expr_level e) p e q"
    unfolding q_def by (rule print_expr_reads [OF assms(1,2) f])
  then have "reads_at 0 p e q"
    using reads_at_le [of 0 "expr_level e" p e q r] f tq by simp
  moreover have "expressionLoop e q = Inr (e, q)"
    using assms(3) tq by (cases r) (auto simp: expressionLoop.simps [of e q] ps_reads ends_expr_def)
  ultimately show ?thesis by (simp add: reads_at_def q_def)
qed

section \<open>Printing statements\<close>

definition sep_list :: "('a \<Rightarrow> (tokenType \<times> string) list) \<Rightarrow> 'a list \<Rightarrow> (tokenType \<times> string) list" where
  "sep_list f xs = (case xs of [] \<Rightarrow> []
     | x # xs' \<Rightarrow> f x @ concat (map (\<lambda>y. (COMMA, '','') # f y) xs'))"

lemma sep_list_simps [simp]:
  "sep_list f [] = []"
  "sep_list f [x] = f x"
  "sep_list f (x # y # ys) = f x @ (COMMA, '','') # sep_list f (y # ys)"
  by (simp_all add: sep_list_def)

definition print_where :: "expr option \<Rightarrow> (tokenType \<times> string) list" where
  "print_where w = (case w of None \<Rightarrow> [] | Some e \<Rightarrow> (WHERE, ''WHERE'') # print_expr e)"

definition print_order :: "orderByClause \<Rightarrow> (tokenType \<times> string) list" where
  "print_order c = (IDENTIFIER, ob_column c) # (if ob_ascending c then [] else [(DESC, ''DESC'')])"

definition print_columnDef :: "columnDef \<Rightarrow> (tokenType \<times> string) list" where
  "print_columnDef d = [(IDENTIFIER, cd_name d), (IDENTIFIER, cd_type d)] @
     (if cd_primaryKey d then [(IDENTIFIER, ''PRIMARY''), (IDENTIFIER, ''KEY'')] else []) @
     (if cd_notNull d then [(NOT, ''NOT''), (IDENTIFIER, ''NULL'')] else [])"

definition print_select :: "selectStatement \<Rightarrow> (tokenType \<times> string) list" where
  "print_select s = (SELECT, ''SELECT'') #
     (if sel_columns s = [''*''] then [(STAR, ''*'')]
      else sep_list (\<lambda>c. [(IDENTIFIER, c)]) (sel_columns s)) @
     [(FROM, ''FROM''), (IDENTIFIER, sel_table s)] @ print_where (sel_where s) @
     (if sel_orderBy s = [] then []
      else [(ORDER, ''ORDER''), (BY, ''BY'')] @ sep_list print_order (sel_orderBy s)) @
     (case sel_limit s of None \<Rightarrow> [] | Some n \<Rightarrow> [(LIMIT, ''LIMIT''), (NUMBER, nat_to_string (nat n))])"

definition print_insert :: "insertStatement \<Rightarrow> (tokenType \<times> string) list" where
  "print_insert s = [(INSERT, ''INSERT''), (INTO, ''INTO''), (IDENTIFIER, ins_table s), (LPAREN, ''('')] @
     sep_list (\<lambda>c. [(IDENTIFIER, c)]) (ins_columns s) @
     [(RPAREN, '')''), (VALUES, ''VALUES''), (LPAREN, ''('')] @
     sep_list print_expr (ins_values s) @ [(RPAREN, '')'')]"

definition print_update :: "updateStatement \<Rightarrow> (tokenType \<times> string) list" where
  "print_update s = [(UPDATE, ''UPDATE''), (IDENTIFIER, upd_table s), (SET, ''SET'')] @
     sep_list (\<lambda>(c, e). (IDENTIFIER, c) # (EQ, ''='') # print_expr e) (upd_assignments s) @
     print_where (upd_where s)"

definition print_delete :: "deleteStatement \<Rightarrow> (tokenType \<times> string) list" where
  "print_delete s = [(DELETE, ''DELETE''), (FROM, ''FROM''), (IDENTIFIER, del_table s)] @
     print_where (del_where s)"

definition print_create :: "createTableStatement \<Rightarrow> (tokenType \<times> string) list" where
  "print_create s = [(CREATE, ''CREATE''), (TABLE, ''TABLE''), (IDENTIFIER, ct_table s), (LPAREN, ''('')] @
     sep_list print_columnDef (ct_columns s) @ [(RPAREN, '')'')]"

fun statement_tokens :: "statement \<Rightarrow> (tokenType \<times> string) list" where
  "statement_tokens (StSelect s) = print_select s"
| "statement_tokens (StInsert s) = print_insert s"
| "statement_tokens (StUpdate s) = print_update s"
| "statement_tokens (StDelete s) = print_delete s"
| "statement_tokens (StCreateTable s) = print_create s"
| "statement_tokens (StDropTable s) = [(DROP, ''DROP''), (TABLE, ''TABLE''), (IDENTIFIER, dt_table s)]"

text \<open>The statements the grammar can express.\<close>

fun wf_statement :: "statement \<Rightarrow> bool" where
  "wf_statement (StSelect s) = ((sel_columns s = [''*''] \<or> sel_columns s \<noteq> [] \<and> list_all ident (sel_columns s)) \<and>
     ident (sel_table s) \<and> pred_option wf_expr (sel_where s) \<and>
     list_all (\<lambda>c. ident (ob_column c)) (sel_orderBy s) \<and>
     pred_option (\<lambda>n. 0 \<le> n \<and> n < 2 ^ 31) (sel_limit s))"
| "wf_statement (StInsert s) = (ident (ins_table s) \<and> ins_columns s \<noteq> [] \<and> list_all ident (ins_columns s) \<and>
     ins_values s \<noteq> [] \<and> list_all wf_expr (ins_values s))"
| "wf_statement (StUpdate s) = (ident (upd_table s) \<and> upd_assignments s \<noteq> [] \<and>
     list_all (\<lambda>(c, e). ident c \<and> wf_expr e) (upd_assignments s) \<and> pred_option wf_expr (upd_where s))"
| "wf_statement (StDelete s) = (ident (del_table s) \<and> pred_option wf_expr (del_where s))"
| "wf_statement (StCreateTable s) = (ident (ct_table s) \<and> ct_columns s \<noteq> [] \<and>
     list_all (\<lambda>d. ident (cd_name d) \<and> ident (cd_type d)) (ct_columns s))"
| "wf_statement (StDropTable s) = ident (dt_table s)"

section \<open>Parsing printed clauses\<close>

lemma ps_skip_0 [simp]: "ps_skip 0 p = p"
  by (simp add: ps_skip_def)

lemma ps_next_conv: "ps_next p = ps_skip 1 p"
  by (simp add: ps_skip_def ps_next_def)

lemma tvs_skip_append: "ps_tvs p = xs @ r \<Longrightarrow> ps_tvs (ps_skip (length xs) p) = r"
  by simp

text \<open>The comma-separated loops, each over any item its body reads.\<close>

lemma columnList_print:
  "ps_tvs p = sep_list (\<lambda>c. [(IDENTIFIER, c)]) xs @ r \<Longrightarrow> xs \<noteq> [] \<Longrightarrow> r \<noteq> [] \<Longrightarrow> fst (hd r) \<noteq> COMMA \<Longrightarrow>
   \<exists>p'. parseColumnList_loop acc p = Inr (acc @ xs, p') \<and> ps_tvs p' = r"
proof (induction xs arbitrary: acc p)
  case (Cons x xs)
  show ?case
  proof (cases xs)
    case Nil
    with Cons.prems obtain tv r' where "r = tv # r'" by (cases r) auto
    with Nil Cons.prems show ?thesis
      by (auto simp: parseColumnList_loop.simps [of acc p] ps_reads)
  next
    case (Cons y ys)
    with Cons.prems have "ps_tvs p = (IDENTIFIER, x) # (COMMA, '','') # sep_list (\<lambda>c. [(IDENTIFIER, c)]) xs @ r"
      by simp
    with Cons Cons.IH [of "ps_next (ps_next p)" "acc @ [x]"] Cons.prems show ?thesis
      by (simp add: parseColumnList_loop.simps [of acc p] ps_reads)
  qed
qed simp

definition stops :: "tokenType set \<Rightarrow> (tokenType \<times> string) list \<Rightarrow> bool" where
  "stops T r \<longleftrightarrow> r \<noteq> [] \<and> fst (hd r) \<notin> T"

lemma stopsE: "stops T r \<Longrightarrow> (\<And>tv r'. r = tv # r' \<Longrightarrow> fst tv \<notin> T \<Longrightarrow> thesis) \<Longrightarrow> thesis"
  by (cases r) (auto simp: stops_def)

lemma ps_match_stop:
  "stops T (ps_tvs p) \<Longrightarrow> t \<in> T \<Longrightarrow> t \<noteq> END_OF_FILE \<Longrightarrow> ps_match p t = Inr (False, p)"
  by (auto simp: ps_match_tvs elim!: stopsE)

lemma ends_expr_Cons [simp]:
  "ends_expr (tv # r) \<longleftrightarrow> fst tv \<notin> {DOT, AND, OR, EQ, NEQ, LT, GT, LTE, GTE}"
  by (simp add: ends_expr_def)

lemma where_print:
  assumes "ps_tvs p = print_where w @ r" "pred_option wf_expr w" "ends_expr r" "stops {WHERE} r"
  shows "\<exists>p'. parseWhereClause p = Inr (w, p') \<and> ps_tvs p' = r"
proof (cases w)
  case None
  with assms show ?thesis by (simp add: parseWhereClause_def print_where_def ps_match_stop)
next
  case (Some e)
  with assms have p: "ps_tvs p = (WHERE, ''WHERE'') # print_expr e @ r" by (simp add: print_where_def)
  then have "parseExpression (ps_next p) = Inr (e, ps_skip (length (print_expr e)) (ps_next p))"
    using Some assms by (intro parseExpression_print [where r = r]) simp_all
  with p Some show ?thesis by (simp add: parseWhereClause_def ps_reads)
qed

lemma values_print:
  "ps_tvs p = sep_list print_expr es @ r \<Longrightarrow> es \<noteq> [] \<Longrightarrow> list_all wf_expr es \<Longrightarrow> ends_expr r \<Longrightarrow> stops {COMMA} r \<Longrightarrow>
   \<exists>p'. parseValues_loop acc p = Inr (acc @ es, p') \<and> ps_tvs p' = r"
proof (induction es arbitrary: acc p)
  case (Cons e es)
  define q where "q = ps_skip (length (print_expr e)) p"
  show ?case
  proof (cases es)
    case Nil
    with Cons.prems have "parseExpression p = Inr (e, q)" "ps_tvs q = r"
      by (simp_all add: parseExpression_print q_def)
    with Nil Cons.prems show ?thesis
      by (simp add: parseValues_loop.simps [of acc p] ps_match_stop [of "{COMMA}"])
  next
    case (Cons e' es')
    with Cons.prems have "ps_tvs p = print_expr e @ (COMMA, '','') # sep_list print_expr es @ r" by simp
    then have "parseExpression p = Inr (e, q)" "ps_tvs q = (COMMA, '','') # sep_list print_expr es @ r"
      using Cons.prems by (simp_all add: parseExpression_print q_def)
    with Cons Cons.IH [of "ps_next q" "acc @ [e]"] Cons.prems show ?thesis
      by (simp add: parseValues_loop.simps [of acc p] ps_reads)
  qed
qed simp

abbreviation print_assignment :: "string \<times> expr \<Rightarrow> (tokenType \<times> string) list" where
  "print_assignment \<equiv> (\<lambda>(c, e). (IDENTIFIER, c) # (EQ, ''='') # print_expr e)"

lemma assignments_print:
  "ps_tvs p = sep_list print_assignment as @ r \<Longrightarrow> as \<noteq> [] \<Longrightarrow> list_all (\<lambda>(c, e). wf_expr e) as \<Longrightarrow>
   ends_expr r \<Longrightarrow> stops {COMMA} r \<Longrightarrow>
   \<exists>p'. parseAssignments_loop acc p = Inr (acc @ as, p') \<and> ps_tvs p' = r"
proof (induction as arbitrary: acc p)
  case (Cons a as)
  obtain c e where a: "a = (c, e)" by (cases a)
  define q where "q = ps_skip (length (print_expr e)) (ps_next (ps_next p))"
  show ?case
  proof (cases as)
    case Nil
    with Cons.prems a have p: "ps_tvs p = (IDENTIFIER, c) # (EQ, ''='') # print_expr e @ r" by simp
    then have "parseExpression (ps_next (ps_next p)) = Inr (e, q)" "ps_tvs q = r"
      using Cons.prems a parseExpression_print [of e "ps_next (ps_next p)"] unfolding q_def by simp_all
    with Nil a p Cons.prems show ?thesis
      by (simp add: parseAssignments_loop.simps [of acc p] ps_reads ps_match_stop [of "{COMMA}"])
  next
    case (Cons a' as')
    with Cons.prems a have p: "ps_tvs p = (IDENTIFIER, c) # (EQ, ''='') # print_expr e @
        (COMMA, '','') # sep_list print_assignment as @ r" by simp
    then have "parseExpression (ps_next (ps_next p)) = Inr (e, q)"
      "ps_tvs q = (COMMA, '','') # sep_list print_assignment as @ r"
      using Cons.prems a parseExpression_print [of e "ps_next (ps_next p)"] unfolding q_def by simp_all
    with Cons a p Cons.IH [of "ps_next q" "acc @ [a]"] Cons.prems show ?thesis
      by (simp add: parseAssignments_loop.simps [of acc p] ps_reads)
  qed
qed simp

lemma orderBy_print:
  "ps_tvs p = sep_list print_order cs @ r \<Longrightarrow> cs \<noteq> [] \<Longrightarrow> stops {COMMA, ASC, DESC} r \<Longrightarrow>
   \<exists>p'. parseOrderBy_loop acc p = Inr (acc @ cs, p') \<and> ps_tvs p' = r"
proof (induction cs arbitrary: acc p)
  case (Cons c cs)
  define q where "q = ps_skip (length (print_order c)) p"
  define r' where "r' = (if cs = [] then r else (COMMA, '','') # sep_list print_order cs @ r)"
  have p: "ps_tvs p = print_order c @ r'" using Cons.prems(1) by (cases cs) (simp_all add: r'_def)
  have q: "ps_tvs q = r'" using p by (simp add: q_def)
  have r': "stops {ASC, DESC} r'" using Cons.prems(3) by (auto simp: r'_def stops_def)
  have step: "parseOrderBy_loop acc p = ebind (ps_match q COMMA) (\<lambda>(more, p4).
      if more then parseOrderBy_loop (acc @ [c]) p4 else Inr (acc @ [c], p4))"
  proof (cases "ob_ascending c")
    case True
    have "q = ps_next p" using True by (simp add: q_def print_order_def ps_skip_def ps_next_def)
    moreover have "ps_tvs p = (IDENTIFIER, ob_column c) # r'" using True p by (simp add: print_order_def)
    moreover have "\<lparr>ob_column = ob_column c, ob_ascending = True\<rparr> = c" using True by simp
    ultimately show ?thesis using r'
      by (simp add: parseOrderBy_loop.simps [of acc p] ps_reads ps_match_stop [of "{ASC, DESC}"])
  next
    case False
    have "q = ps_next (ps_next p)"
      using False by (simp add: q_def print_order_def ps_skip_def ps_next_def)
    moreover have "ps_tvs p = (IDENTIFIER, ob_column c) # (DESC, ''DESC'') # r'"
      using False p by (simp add: print_order_def)
    moreover have "\<lparr>ob_column = ob_column c, ob_ascending = False\<rparr> = c" using False by simp
    ultimately show ?thesis using r'
      by (simp add: parseOrderBy_loop.simps [of acc p] ps_reads ps_match_stop [of "{ASC, DESC}"])
  qed
  show ?case
  proof (cases cs)
    case Nil
    with q Cons.prems step show ?thesis by (simp add: r'_def ps_match_stop [of "{COMMA, ASC, DESC}"])
  next
    case (Cons c' cs')
    with q step Cons.IH [of "ps_next q" "acc @ [c]"] Cons.prems show ?thesis
      by (simp add: r'_def ps_reads)
  qed
qed simp

lemma columnDef_print:
  assumes "ps_tvs p = print_columnDef d @ r" "stops {NOT} r" "snd (hd r) \<noteq> ''PRIMARY''"
  shows "\<exists>p'. parseColumnDef p = Inr (d, p') \<and> ps_tvs p' = r"
proof -
  obtain tv r' where r: "r = tv # r'" "fst tv \<noteq> NOT" "snd tv \<noteq> ''PRIMARY''"
    using assms(2,3) by (cases r) (auto simp: stops_def)
  have stop: "columnDef_loop d' q = Inr (d', q)" if "ps_tvs q = r" for d' q
    using that r by (simp add: columnDef_loop.simps [of d' q] ps_reads)
  have nn: "columnDef_loop d' q = Inr (d'\<lparr>cd_notNull := True\<rparr>, ps_skip 2 q)"
    if "ps_tvs q = (NOT, ''NOT'') # (IDENTIFIER, ''NULL'') # r" for d' q
    using that by (simp add: columnDef_loop.simps [of d' q] ps_reads ps_next_conv stop numeral_2_eq_2)
  have pk: "columnDef_loop d' q = columnDef_loop (d'\<lparr>cd_primaryKey := True\<rparr>) (ps_skip 2 q)"
    if "ps_tvs q = (IDENTIFIER, ''PRIMARY'') # (IDENTIFIER, ''KEY'') # s" for d' q s
    using that by (simp add: columnDef_loop.simps [of d' q] ps_reads ps_next_conv numeral_2_eq_2)
  have "\<exists>p'. columnDef_loop \<lparr>cd_name = cd_name d, cd_type = cd_type d, cd_primaryKey = False,
      cd_notNull = False\<rparr> (ps_skip 2 p) = Inr (d, p') \<and> ps_tvs p' = r"
    using assms(1) by (cases "cd_primaryKey d"; cases "cd_notNull d")
      (simp_all add: print_columnDef_def stop nn pk)
  with assms(1) show ?thesis
    by (simp add: parseColumnDef_def print_columnDef_def ps_reads ps_next_conv numeral_2_eq_2)
qed

lemma columnDefs_print:
  "ps_tvs p = sep_list print_columnDef ds @ r \<Longrightarrow> ds \<noteq> [] \<Longrightarrow> stops {COMMA, NOT} r \<Longrightarrow> snd (hd r) \<noteq> ''PRIMARY'' \<Longrightarrow>
   \<exists>p'. parseColumnDefs_loop acc p = Inr (acc @ ds, p') \<and> ps_tvs p' = r"
proof (induction ds arbitrary: acc p)
  case (Cons d ds)
  define r' where "r' = (if ds = [] then r else (COMMA, '','') # sep_list print_columnDef ds @ r)"
  have p: "ps_tvs p = print_columnDef d @ r'" using Cons.prems(1) by (cases ds) (simp_all add: r'_def)
  have "stops {NOT} r'" "snd (hd r') \<noteq> ''PRIMARY''"
    using Cons.prems by (auto simp: r'_def stops_def)
  with p obtain q where q: "parseColumnDef p = Inr (d, q)" "ps_tvs q = r'"
    using columnDef_print by blast
  show ?case
  proof (cases ds)
    case Nil
    with q Cons.prems show ?thesis
      by (simp add: parseColumnDefs_loop.simps [of acc p] r'_def ps_match_stop [of "{COMMA, NOT}"])
  next
    case (Cons d' ds')
    with q Cons.IH [of "ps_next q" "acc @ [d]"] Cons.prems show ?thesis
      by (simp add: parseColumnDefs_loop.simps [of acc p] r'_def ps_reads)
  qed
qed simp

lemma columnDefs_head:
  "ds \<noteq> [] \<Longrightarrow> \<exists>r. sep_list print_columnDef ds = (IDENTIFIER, cd_name (hd ds)) # r"
  by (cases ds; cases "tl ds") (auto simp: print_columnDef_def)

section \<open>Parsing printed statements\<close>

text \<open>What stands behind a statement: the end of the text or a semicolon.\<close>

definition ends_stmt :: "(tokenType \<times> string) list \<Rightarrow> bool" where
  "ends_stmt r \<longleftrightarrow> r = [(END_OF_FILE, [])] \<or> (\<exists>v r'. r = (SEMICOLON, v) # r' \<and> r' \<noteq> [])"

lemma ends_stmtD:
  "ends_stmt r \<Longrightarrow> T \<inter> {SEMICOLON, END_OF_FILE} = {} \<Longrightarrow> stops T r"
  "ends_stmt r \<Longrightarrow> ends_expr r"
  by (auto simp: ends_stmt_def stops_def)

lemma limit_print:
  assumes "ps_tvs p = (case l of None \<Rightarrow> [] | Some n \<Rightarrow> [(LIMIT, ''LIMIT''), (NUMBER, nat_to_string (nat n))]) @ r"
    "pred_option (\<lambda>n. 0 \<le> n \<and> n < 2 ^ 31) l" "stops {LIMIT} r"
  shows "\<exists>p'. parseLimitClause p = Inr (l, p') \<and> ps_tvs p' = r"
proof (cases l)
  case None
  with assms show ?thesis by (simp add: parseLimitClause_def ps_match_stop)
next
  case (Some n)
  then have "stoi (nat_to_string (nat n)) = Inr n" using assms(2) by (simp add: stoi_nat_to_string nat_less_iff)
  with Some assms(1) show ?thesis by (simp add: parseLimitClause_def ps_reads)
qed

lemma orderClause_print:
  assumes "ps_tvs p = (if cs = [] then [] else [(ORDER, ''ORDER''), (BY, ''BY'')] @ sep_list print_order cs) @ r"
    "stops {ORDER, COMMA, ASC, DESC} r"
  shows "\<exists>p'. parseOrderByClause p = Inr (cs, p') \<and> ps_tvs p' = r"
proof (cases "cs = []")
  case True
  with assms show ?thesis
    by (simp add: parseOrderByClause_def ps_match_stop [of "{ORDER, COMMA, ASC, DESC}"])
next
  case False
  have "stops {COMMA, ASC, DESC} r" using assms(2) by (simp add: stops_def)
  with False assms orderBy_print [of "ps_next (ps_next p)" cs r "[]"] show ?thesis
    by (simp add: parseOrderByClause_def ps_reads)
qed

lemma select_print:
  assumes "ps_tvs p = print_select s @ r" "wf_statement (StSelect s)" "ends_stmt r"
  shows "\<exists>p'. parseSelect p = Inr (s, p') \<and> ps_tvs p' = r"
proof -
  define lim ord whr where
    "lim = (case sel_limit s of None \<Rightarrow> [] | Some n \<Rightarrow> [(LIMIT, ''LIMIT''), (NUMBER, nat_to_string (nat n))]) @ r"
    and "ord = (if sel_orderBy s = [] then [] else [(ORDER, ''ORDER''), (BY, ''BY'')] @ sep_list print_order (sel_orderBy s)) @ lim"
    and "whr = print_where (sel_where s) @ ord"
  define cols where "cols = (if sel_columns s = [''*''] then [(STAR, ''*'')]
      else sep_list (\<lambda>c. [(IDENTIFIER, c)]) (sel_columns s))"
  define q where "q = ps_next p"
  have p: "ps_tvs p = (SELECT, ''SELECT'') # cols @ (FROM, ''FROM'') # (IDENTIFIER, sel_table s) # whr"
    using assms(1) by (simp add: print_select_def cols_def whr_def ord_def lim_def)
  note wf = assms(2) [simplified]
  have slim: "stops T lim" if "T \<inter> {SEMICOLON, END_OF_FILE, LIMIT} = {}" for T
    using that assms(3) unfolding lim_def by (cases "sel_limit s") (auto simp: ends_stmt_def stops_def)
  have sord: "stops T ord" if "T \<inter> {SEMICOLON, END_OF_FILE, LIMIT, ORDER} = {}" for T
    using that slim [of T] unfolding ord_def by (cases "sel_orderBy s") (auto simp: stops_def)
  have eord: "ends_expr ord"
    using sord [of "{DOT, AND, OR, EQ, NEQ, LT, GT, LTE, GTE}"] by (simp add: ends_expr_def stops_def)
  have "\<exists>p2. (ps_check q STAR = Inr True \<and> ps_advance q = Inr (ps_cur q, p2) \<and> sel_columns s = [''*''] \<or>
      ps_check q STAR = Inr False \<and> parseColumnList q = Inr (sel_columns s, p2)) \<and>
      ps_tvs p2 = (FROM, ''FROM'') # (IDENTIFIER, sel_table s) # whr"
  proof (cases "sel_columns s = [''*'']")
    case True
    then show ?thesis using p by (simp add: q_def ps_reads cols_def)
  next
    case False
    then have ne: "sel_columns s \<noteq> []" using wf by simp
    then obtain c r' where "sep_list (\<lambda>c. [(IDENTIFIER, c)]) (sel_columns s) = (IDENTIFIER, c) # r'"
      by (cases "sel_columns s"; cases "tl (sel_columns s)") auto
    with p False ne columnList_print [of q "sel_columns s" "(FROM, ''FROM'') # (IDENTIFIER, sel_table s) # whr" "[]"]
    show ?thesis by (simp add: q_def cols_def ps_reads parseColumnList_def)
  qed
  then obtain p2 where p2: "ps_check q STAR = Inr True \<and> ps_advance q = Inr (ps_cur q, p2) \<and> sel_columns s = [''*''] \<or>
      ps_check q STAR = Inr False \<and> parseColumnList q = Inr (sel_columns s, p2)"
    "ps_tvs p2 = (FROM, ''FROM'') # (IDENTIFIER, sel_table s) # whr" by blast
  from p2(2) obtain p5 where p5: "parseWhereClause (ps_next (ps_next p2)) = Inr (sel_where s, p5)" "ps_tvs p5 = ord"
    using where_print [of "ps_next (ps_next p2)" "sel_where s" ord] wf eord sord [of "{WHERE}"] by (auto simp: whr_def)
  then obtain p6 where p6: "parseOrderByClause p5 = Inr (sel_orderBy s, p6)" "ps_tvs p6 = lim"
    using orderClause_print [of p5 "sel_orderBy s" lim] slim [of "{ORDER, COMMA, ASC, DESC}"] by (auto simp: ord_def)
  then obtain p7 where "parseLimitClause p6 = Inr (sel_limit s, p7)" "ps_tvs p7 = r"
    using limit_print [of p6 "sel_limit s" r] wf ends_stmtD(1) [OF assms(3), of "{LIMIT}"] by (auto simp: lim_def)
  note run = p p2(2) p5 p6 this
  from p2(1) show ?thesis
  proof (elim disjE conjE)
    assume "ps_check q STAR = Inr True" "ps_advance q = Inr (ps_cur q, p2)" "sel_columns s = [''*'']"
    with run show ?thesis by (simp add: parseSelect_def ps_expect_tvs ps_tvs_cur flip: q_def)
  next
    assume "ps_check q STAR = Inr False" "parseColumnList q = Inr (sel_columns s, p2)"
    with run show ?thesis by (simp add: parseSelect_def ps_expect_tvs ps_tvs_cur flip: q_def)
  qed
qed

lemma insert_print:
  assumes "ps_tvs p = print_insert s @ r" "wf_statement (StInsert s)"
  shows "\<exists>p'. parseInsert p = Inr (s, p') \<and> ps_tvs p' = r"
proof -
  define vals where "vals = (RPAREN, '')'') # (VALUES, ''VALUES'') # (LPAREN, ''('') # sep_list print_expr (ins_values s) @ (RPAREN, '')'') # r"
  define q where "q = ps_next (ps_next (ps_next (ps_next p)))"
  have p: "ps_tvs p = (INSERT, ''INSERT'') # (INTO, ''INTO'') # (IDENTIFIER, ins_table s) # (LPAREN, ''('') #
      sep_list (\<lambda>c. [(IDENTIFIER, c)]) (ins_columns s) @ vals"
    using assms(1) by (simp add: print_insert_def vals_def)
  then obtain p5 where p5: "parseColumnList q = Inr (ins_columns s, p5)" "ps_tvs p5 = vals"
    using columnList_print [of q "ins_columns s" vals "[]"] assms(2)
    by (auto simp: q_def parseColumnList_def vals_def)
  then obtain p9 where "parseValues_loop [] (ps_next (ps_next (ps_next p5))) = Inr (ins_values s, p9)"
    "ps_tvs p9 = (RPAREN, '')'') # r"
    using values_print [of "ps_next (ps_next (ps_next p5))" "ins_values s" "(RPAREN, '')'') # r" "[]"] assms(2)
    by (auto simp: vals_def stops_def)
  with p p5 show ?thesis
    by (simp add: parseInsert_def ps_reads vals_def flip: q_def)
qed

lemma update_print:
  assumes "ps_tvs p = print_update s @ r" "wf_statement (StUpdate s)" "ends_stmt r"
  shows "\<exists>p'. parseUpdate p = Inr (s, p') \<and> ps_tvs p' = r"
proof -
  define whr where "whr = print_where (upd_where s) @ r"
  define q where "q = ps_next (ps_next (ps_next p))"
  note stop = ends_stmtD [OF assms(3)]
  have p: "ps_tvs p = (UPDATE, ''UPDATE'') # (IDENTIFIER, upd_table s) # (SET, ''SET'') #
      sep_list print_assignment (upd_assignments s) @ whr"
    using assms(1) by (simp add: print_update_def whr_def)
  have "ends_expr whr" "stops {COMMA} whr"
    using stop(1) [of "{COMMA}"] stop(2)
    by (cases "upd_where s"; simp add: whr_def print_where_def stops_def)+
  moreover have "list_all (\<lambda>(c, e). wf_expr e) (upd_assignments s)"
    using assms(2) by (auto simp: list_all_iff)
  ultimately obtain p4 where p4: "parseAssignments_loop [] q = Inr (upd_assignments s, p4)" "ps_tvs p4 = whr"
    using p assignments_print [of q "upd_assignments s" whr "[]"] assms(2) by (auto simp: q_def)
  then obtain p5 where "parseWhereClause p4 = Inr (upd_where s, p5)" "ps_tvs p5 = r"
    using where_print [of p4 "upd_where s" r] assms(2) stop(1) [of "{WHERE}"] stop(2) by (auto simp: whr_def)
  with p p4 show ?thesis
    by (simp add: parseUpdate_def ps_reads flip: q_def)
qed

lemma delete_print:
  assumes "ps_tvs p = print_delete s @ r" "wf_statement (StDelete s)" "ends_stmt r"
  shows "\<exists>p'. parseDelete p = Inr (s, p') \<and> ps_tvs p' = r"
  using assms where_print [of "ps_next (ps_next (ps_next p))" "del_where s" r]
    ends_stmtD [OF assms(3)]
  by (auto simp: parseDelete_def print_delete_def ps_reads)

lemma create_print:
  assumes "ps_tvs p = print_create s @ r" "wf_statement (StCreateTable s)"
  shows "\<exists>p'. parseCreateTable p = Inr (s, p') \<and> ps_tvs p' = r"
proof -
  define q where "q = ps_next (ps_next (ps_next (ps_next p)))"
  have p: "ps_tvs p = (CREATE, ''CREATE'') # (TABLE, ''TABLE'') # (IDENTIFIER, ct_table s) # (LPAREN, ''('') #
      sep_list print_columnDef (ct_columns s) @ (RPAREN, '')'') # r"
    using assms(1) by (simp add: print_create_def)
  then obtain p5 where "parseColumnDefs_loop [] q = Inr (ct_columns s, p5)" "ps_tvs p5 = (RPAREN, '')'') # r"
    using columnDefs_print [of q "ct_columns s" "(RPAREN, '')'') # r" "[]"] assms(2)
    by (auto simp: q_def stops_def)
  with p show ?thesis by (simp add: parseCreateTable_def ps_reads flip: q_def)
qed

lemma statement_print:
  assumes "ps_tvs p = statement_tokens s @ r" "wf_statement s" "ends_stmt r"
  shows "\<exists>p'. parseStatement p = Inr (s, p') \<and> ps_tvs p' = r"
proof (cases s)
  case (StSelect x)
  with assms select_print [of p x r] show ?thesis
    by (auto simp: parseStatement_def print_select_def ps_reads)
next
  case (StInsert x)
  with assms insert_print [of p x r] show ?thesis
    by (auto simp: parseStatement_def print_insert_def ps_reads)
next
  case (StUpdate x)
  with assms update_print [of p x r] show ?thesis
    by (auto simp: parseStatement_def print_update_def ps_reads)
next
  case (StDelete x)
  with assms delete_print [of p x r] show ?thesis
    by (auto simp: parseStatement_def print_delete_def ps_reads)
next
  case (StCreateTable x)
  with assms create_print [of p x r] show ?thesis
    by (auto simp: parseStatement_def print_create_def ps_reads)
next
  case (StDropTable x)
  with assms show ?thesis by (simp add: parseStatement_def parseDropTable_def ps_reads)
qed

section \<open>Round trip through the text\<close>

lemma word_no_symbol: "word_shape v \<Longrightarrow> map_of (map prod.swap SYMBOLS) v = None"
proof -
  assume "word_shape v"
  moreover have "list_all (\<lambda>tv. \<not> word_shape (snd tv)) SYMBOLS" by code_simp
  ultimately show ?thesis by (force simp: map_of_eq_None_iff list_all_iff)
qed

lemma op_spellable: "op_spelled op \<Longrightarrow> spellable (op_type op, op)"
  by (auto simp: op_spelled_def spellable_def op_type_def word_no_symbol)

lemma keyword_spellable:
  "list_all spellable [(SELECT, ''SELECT''), (INSERT, ''INSERT''), (INTO, ''INTO''), (VALUES, ''VALUES''),
     (UPDATE, ''UPDATE''), (SET, ''SET''), (DELETE, ''DELETE''), (FROM, ''FROM''), (WHERE, ''WHERE''),
     (ORDER, ''ORDER''), (BY, ''BY''), (DESC, ''DESC''), (LIMIT, ''LIMIT''), (CREATE, ''CREATE''),
     (TABLE, ''TABLE''), (DROP, ''DROP''), (NOT, ''NOT''), (IDENTIFIER, ''PRIMARY''), (IDENTIFIER, ''KEY''),
     (IDENTIFIER, ''NULL''), (LPAREN, ''(''), (RPAREN, '')''), (COMMA, '',''), (DOT, ''.''),
     (STAR, ''*''), (EQ, ''='')]"
  by code_simp

lemmas keyword_spellable' [simp] = keyword_spellable [simplified list.pred_inject conj_assoc simp_thms]

lemma ident_spellable [simp]: "ident v \<Longrightarrow> spellable (IDENTIFIER, v)"
  by (simp add: ident_def spellable_def)

lemma number_spellable [simp]: "spellable (NUMBER, nat_to_string n)"
proof -
  have "list_all isdigit (nat_to_string n)" "nat_to_string n \<noteq> []"
    using nat_to_string_Cons [of n] by auto
  then show ?thesis by (simp add: spellable_def number_shape_def list_all_iff)
qed

lemma print_expr_spellable: "wf_expr e \<Longrightarrow> list_all spellable (print_expr e)"
proof (induction e)
  case (LiteralExpr k v)
  then show ?case by (cases k) (auto simp: wf_literal_def spellable_def)
qed (auto simp: paren_def op_spellable)

lemma sep_list_spellable:
  "(\<And>x. x \<in> set xs \<Longrightarrow> list_all spellable (f x)) \<Longrightarrow> list_all spellable (sep_list f xs)"
  by (cases xs) (auto simp: sep_list_def list_all_iff)

lemma statement_spellable:
  assumes "wf_statement s" shows "list_all spellable (statement_tokens s)"
proof -
  have whr: "list_all spellable (print_where w)" if "pred_option wf_expr w" for w
    using that by (cases w) (simp_all add: print_where_def print_expr_spellable)
  have ids: "list_all spellable (sep_list (\<lambda>c. [(IDENTIFIER, c)]) xs)" if "list_all ident xs" for xs
    by (rule sep_list_spellable) (use that in \<open>simp add: list_all_iff\<close>)
  show ?thesis
  proof (cases s)
    case (StSelect x)
    have "list_all spellable (sep_list print_order (sel_orderBy x))"
      by (rule sep_list_spellable) (use assms StSelect in \<open>auto simp: list_all_iff print_order_def\<close>)
    with assms StSelect show ?thesis
      by (auto simp: print_select_def whr ids split: option.split)
  next
    case (StInsert x)
    have "list_all spellable (sep_list print_expr (ins_values x))"
      by (rule sep_list_spellable, rule print_expr_spellable) (use assms StInsert in \<open>auto simp: list_all_iff\<close>)
    with assms StInsert show ?thesis by (auto simp: print_insert_def ids)
  next
    case (StUpdate x)
    have "list_all spellable (sep_list print_assignment (upd_assignments x))"
      by (rule sep_list_spellable)
         (use assms StUpdate in \<open>auto simp: print_expr_spellable list_all_iff [of _ "upd_assignments x"]\<close>)
    with assms StUpdate show ?thesis by (auto simp: print_update_def whr)
  next
    case (StDelete x)
    with assms show ?thesis by (auto simp: print_delete_def whr)
  next
    case (StCreateTable x)
    have "list_all spellable (sep_list print_columnDef (ct_columns x))"
      by (rule sep_list_spellable) (use assms StCreateTable in \<open>auto simp: list_all_iff print_columnDef_def\<close>)
    with assms StCreateTable show ?thesis by (auto simp: print_create_def)
  next
    case (StDropTable x)
    with assms show ?thesis by simp
  qed
qed

declare option.pred_inject [code]

definition sql_of :: "statement \<Rightarrow> string" where
  "sql_of s = print_tokens (statement_tokens s)"

definition parse_sql :: "string \<Rightarrow> lex_error + (parse_error + statement)" where
  "parse_sql src = ebind (tokenize (Lexer_init src)) (\<lambda>ts. Inr (parse (Parser_init ts)))"

lemma lex_parse_print:
  assumes "wf_statement s"
  shows "\<exists>ts. tokenize (Lexer_init (sql_of s)) = Inr ts \<and> parse (Parser_init ts) = Inr s"
proof -
  obtain ts where ts: "tokenize (Lexer_init (sql_of s)) = Inr ts"
    "map tv_of ts = statement_tokens s @ [(END_OF_FILE, [])]"
    using tokenize_loop_print [of "Lexer_init (sql_of s)" "statement_tokens s" "[]"]
      statement_spellable [OF assms]
    by (auto simp: sql_of_def tokenize_def Lexer_init_def lx_rest_def)
  then have "ps_tvs (Parser_init ts) = statement_tokens s @ [(END_OF_FILE, [])]"
    by (simp add: ps_tvs_def ps_rest_def Parser_init_def)
  then obtain p where "parseStatement (Parser_init ts) = Inr (s, p)" "ps_tvs p = [(END_OF_FILE, [])]"
    using statement_print [of "Parser_init ts" s "[(END_OF_FILE, [])]"] assms
    by (auto simp: ends_stmt_def)
  then have "parse (Parser_init ts) = Inr s" by (simp add: parse_def ps_reads)
  with ts show ?thesis by blast
qed

text \<open>
  C6. Parsing inverts printing: for every statement the grammar can express (any nesting of
  expressions, any column lists, orders and limits), the lexer and the parser read its
  printed text, in which an operand is in parentheses only where precedence or left
  association require them, back as exactly that statement.
\<close>

theorem parse_print_roundtrip:
  assumes "wf_statement s"
  shows "parse_sql (sql_of s) = Inr (Inr s)"
  using lex_parse_print [OF assms] by (auto simp: parse_sql_def)

theorem parse_print_roundtrip_witness:
  "parse_sql (sql_of (StSelect \<lparr>sel_columns = [''name''], sel_table = ''users'',
     sel_where = Some (BinaryExpr ''AND'' (BinaryExpr ''>='' (ColumnRefExpr [] ''age'') (LiteralExpr LkInteger ''18''))
       (BinaryExpr ''OR'' (UnaryExpr ''NOT'' (ColumnRefExpr ''u'' ''x'')) (LiteralExpr LkBool ''true''))),
     sel_orderBy = [\<lparr>ob_column = ''age'', ob_ascending = False\<rparr>], sel_limit = Some 10\<rparr>)) =
   Inr (Inr (StSelect \<lparr>sel_columns = [''name''], sel_table = ''users'',
     sel_where = Some (BinaryExpr ''AND'' (BinaryExpr ''>='' (ColumnRefExpr [] ''age'') (LiteralExpr LkInteger ''18''))
       (BinaryExpr ''OR'' (UnaryExpr ''NOT'' (ColumnRefExpr ''u'' ''x'')) (LiteralExpr LkBool ''true''))),
     sel_orderBy = [\<lparr>ob_column = ''age'', ob_ascending = False\<rparr>], sel_limit = Some 10\<rparr>))"
  by (rule parse_print_roundtrip) code_simp

text \<open>
  Trailing tokens are not read: after a complete statement and its semicolon, \<open>parse\<close>
  returns the statement whatever tokens follow, so the rest of the text is silently dropped.
\<close>

theorem parse_ignores_rest:
  assumes "wf_statement s" "map tv_of ts = statement_tokens s @ (SEMICOLON, '';'') # rest" "rest \<noteq> []"
  shows "parse (Parser_init ts) = Inr s"
proof -
  have "ps_tvs (Parser_init ts) = statement_tokens s @ (SEMICOLON, '';'') # rest"
    using assms(2) by (simp add: ps_tvs_def ps_rest_def Parser_init_def)
  then obtain p where "parseStatement (Parser_init ts) = Inr (s, p)" "ps_tvs p = (SEMICOLON, '';'') # rest"
    using statement_print [of "Parser_init ts" s "(SEMICOLON, '';'') # rest"] assms
    by (auto simp: ends_stmt_def)
  then show ?thesis by (simp add: parse_def ps_reads)
qed

theorem parse_ignores_rest_witness:
  "parse (Parser_init [mkToken DROP ''DROP'' 1 1, mkToken TABLE ''TABLE'' 1 6, mkToken IDENTIFIER ''t'' 1 12,
     mkToken SEMICOLON '';'' 1 13, mkToken SELECT ''SELECT'' 1 15, mkToken END_OF_FILE [] 1 21]) =
   Inr (StDropTable \<lparr>dt_table = ''t''\<rparr>)"
  by (rule parse_ignores_rest [where rest = "[(SELECT, ''SELECT''), (END_OF_FILE, [])]"]) (code_simp | simp)+

text \<open>A misspelled \<open>WHERE\<close> is such a rest: the statement read is the one without a condition.\<close>

theorem delete_misspelled_where:
  "parse_sql ''DELETE FROM t WEHRE id = 1'' = Inr (Inr (StDelete \<lparr>del_table = ''t'', del_where = None\<rparr>))"
  by code_simp

end
