(* ===== verification/Queries.thy ===== *)
theory Queries
  imports Executor Sort_Order Parser_Props
begin

text \<open>
  Queries from SQL text to rows (\<open>runSQL\<close> in main.cpp), and what the executor computes: total
  correctness of every plan, the result of a SELECT, the hash join, and snapshot reads.
\<close>

datatype sql_error =
    Sql_lex lex_error
  | Sql_parse parse_error
  | Sql_plan plan_error
  | Sql_exec exec_error

definition map_err :: "('e \<Rightarrow> 'f) \<Rightarrow> 'e + 'a \<Rightarrow> 'f + 'a" where
  "map_err f = map_sum f id"

lemma map_err_simps [simp]: "map_err f (Inr x) = Inr x" "map_err f (Inl e) = Inl (f e)"
  by (simp_all add: map_err_def)

definition compile_sql :: "string \<Rightarrow> sql_error + physicalPlan" where
  "compile_sql sql =
     ebind (map_err Sql_lex (tokenize (Lexer_init sql))) (\<lambda>ts.
     ebind (map_err Sql_parse (parse (Parser_init ts))) (\<lambda>stmt.
     ebind (map_err Sql_plan (toLogical stmt)) (\<lambda>logical.
       map_err Sql_plan (toPhysical logical))))"

definition runSQL :: "sorter \<Rightarrow> table_storage \<Rightarrow> string \<Rightarrow> (sql_error + row list) option" where
  "runSQL srt storage sql = (case compile_sql sql of Inl e \<Rightarrow> Some (Inl e)
     | Inr plan \<Rightarrow> map_option (map_err Sql_exec) (execute srt storage None plan))"

section \<open>Every plan runs to an end\<close>

lemma build_ok: "plan_ok p \<Longrightarrow> build storage snap p \<noteq> Inl Exec_undefined"
  by (induction rule: plan_ok.induct) (auto simp: ebind_eq_Inl split: option.splits)

lemma sortRows_defined: "sortRows srt ob rows \<noteq> Inl Exec_undefined"
  by (simp add: sortRows_def)

lemma map_sum_id_Inl: "map_sum id f m = Inl e \<longleftrightarrow> m = Inl e"
  by (cases m) auto

lemma op_rows_defined: "op_rows srt op \<noteq> Inl Exec_undefined"
  by (induction op) (auto simp: ebind_eq_Inl map_sum_id_Inl sortRows_defined)

text \<open>
  C10. The engine runs every optimised plan to an end: for any logical plan the optimizer
  translates, over any storage and snapshot, every \<open>next()\<close> and \<open>open()\<close> of the operator tree
  returns (the filter, join and drain loops end), no child is accessed outside its vector,
  and the rows or the error returned are those of the plan's relational algebra.
\<close>

theorem execute_total:
  assumes "toPhysical logical = Inr plan"
  shows "\<exists>r. execute srt storage snap plan = Some r \<and> r \<noteq> Inl Exec_undefined \<and>
             r = ebind (build storage snap plan) (op_rows srt)"
proof -
  have "plan_ok plan" using assms by (simp add: toPhysical_def buildPhysical_ok)
  from build_ok [OF this] op_rows_defined show ?thesis
    by (auto simp: execute_rows ebind_eq_Inl)
qed

theorem execute_total_witness:
  "\<exists>r. execute sort_with Map.empty None (PhysicalLimit 3 [PhysicalSeqScan ''t'' []]) = Some r \<and>
       r \<noteq> Inl Exec_undefined \<and>
       r = ebind (build Map.empty None (PhysicalLimit 3 [PhysicalSeqScan ''t'' []])) (op_rows sort_with)"
  by (rule execute_total [of "LogicalLimit 3 [LogicalScan ''t'' []]"]) (simp add: toPhysical_def)

section \<open>SELECT\<close>

definition limit_rows :: "int option \<Rightarrow> 'a list \<Rightarrow> 'a list" where
  "limit_rows l xs = (case l of None \<Rightarrow> xs | Some n \<Rightarrow> take (nat n) xs)"

lemma limit_rows_simps [simp]: "limit_rows None = id" "limit_rows (Some n) = take (nat n)"
  by (simp_all add: limit_rows_def fun_eq_iff)

definition selected :: "selectStatement \<Rightarrow> row list \<Rightarrow> row list" where
  "selected s rows = map (project_row (sel_columns s)) (filter (matches (sel_where s)) rows)"

lemma matches_simps [simp]: "matches None = (\<lambda>r. True)" "matches (Some e) = evaluateExpr e"
  by (simp_all add: matches_def fun_eq_iff)

lemma execute_select:
  assumes "storage (sel_table s) = Some rows"
  shows "execute srt storage None (select_plan s) = Some (map_sum id (limit_rows (sel_limit s))
    (if sel_orderBy s = [] then Inr (selected s rows) else sortRows srt (sel_orderBy s) (selected s rows)))"
  using assms
  by (cases "sel_where s"; cases "sel_limit s"; cases "sel_orderBy s")
     (simp_all add: execute_rows select_plan_def selected_def SeqScan_rows_def sum.map_id0)

lemma compile_print_select:
  assumes "wf_statement (StSelect s)"
  shows "compile_sql (sql_of (StSelect s)) = Inr (select_plan s)"
proof -
  from lex_parse_print [OF assms] obtain ts where "tokenize (Lexer_init (sql_of (StSelect s))) = Inr ts"
    "parse (Parser_init ts) = Inr (StSelect s)" by blast
  then show ?thesis
    by (simp add: compile_sql_def toLogical_def toPhysical_def plan_select)
qed

text \<open>
  C1. The result of a SELECT, from its SQL text: for every SELECT the grammar can express, run
  on an existing table, the rows returned are the first \<open>LIMIT\<close> rows of a list that holds
  exactly the projections of the rows the condition accepts, each as often as it occurs, in the
  table's order without ORDER BY and in an order the clauses allow with it (on values for which
  \<open>std::sort\<close> is defined). Without a LIMIT all of them are returned.
\<close>

theorem runSQL_select:
  assumes "wf_statement (StSelect s)" "storage (sel_table s) = Some rows" "sort_contract srt"
    "strict_weak_on (Sort_less (sel_orderBy s)) (set (selected s rows))"
  shows "\<exists>out. runSQL srt storage (sql_of (StSelect s)) = Some (Inr (limit_rows (sel_limit s) out)) \<and>
     mset out = image_mset (project_row (sel_columns s)) (filter_mset (matches (sel_where s)) (mset rows)) \<and>
     (sel_orderBy s = [] \<longrightarrow> out = selected s rows) \<and>
     sorted_wrt (\<lambda>a b. \<not> Sort_less (sel_orderBy s) b a) out"
proof -
  define out where "out = (if sel_orderBy s = [] then selected s rows
    else srt (Sort_less (sel_orderBy s)) (selected s rows))"
  have "runSQL srt storage (sql_of (StSelect s)) = Some (Inr (limit_rows (sel_limit s) out))"
    using assms(4) execute_select [of storage s rows srt, OF assms(2)]
    by (simp add: runSQL_def compile_print_select [OF assms(1)] out_def sortRows_def)
  moreover have "mset out = mset (selected s rows)" "sorted_wrt (\<lambda>a b. \<not> Sort_less (sel_orderBy s) b a) out"
    using assms(3,4) by (auto simp: out_def sort_contract_def sorted_wrt_iff_nth_less)
  ultimately show ?thesis by (auto simp: selected_def out_def)
qed

theorem runSQL_select_witness:
  "\<exists>out. runSQL sort_with [''users'' \<mapsto> [fmap_of_list [(''id'', ''1''), (''age'', ''35'')],
        fmap_of_list [(''id'', ''2''), (''age'', ''22'')], fmap_of_list [(''id'', ''3''), (''age'', ''9'')]]]
      (sql_of (StSelect \<lparr>sel_columns = [''age''], sel_table = ''users'',
        sel_where = Some (BinaryExpr ''>='' (ColumnRefExpr [] ''age'') (LiteralExpr LkInteger ''10'')),
        sel_orderBy = [\<lparr>ob_column = ''age'', ob_ascending = True\<rparr>], sel_limit = Some 5\<rparr>)) =
      Some (Inr (limit_rows (Some 5) out)) \<and>
    mset out = image_mset (project_row [''age''])
      (filter_mset (matches (Some (BinaryExpr ''>='' (ColumnRefExpr [] ''age'') (LiteralExpr LkInteger ''10''))))
        (mset [fmap_of_list [(''id'', ''1''), (''age'', ''35'')],
          fmap_of_list [(''id'', ''2''), (''age'', ''22'')], fmap_of_list [(''id'', ''3''), (''age'', ''9'')]])) \<and>
    sorted_wrt (\<lambda>a b. \<not> Sort_less [\<lparr>ob_column = ''age'', ob_ascending = True\<rparr>] b a) out"
proof -
  let ?rows = "[fmap_of_list [(''id'', ''1''), (''age'', ''35'')],
        fmap_of_list [(''id'', ''2''), (''age'', ''22'')], fmap_of_list [(''id'', ''3''), (''age'', ''9'')]]"
  let ?s = "\<lparr>sel_columns = [''age''], sel_table = ''users'',
        sel_where = Some (BinaryExpr ''>='' (ColumnRefExpr [] ''age'') (LiteralExpr LkInteger ''10'')),
        sel_orderBy = [\<lparr>ob_column = ''age'', ob_ascending = True\<rparr>], sel_limit = Some 5\<rparr>"
  have "wf_statement (StSelect ?s)" by code_simp
  moreover have "strict_weak_on (Sort_less (sel_orderBy ?s)) (set (selected ?s ?rows))" by code_simp
  ultimately show ?thesis
    using runSQL_select [of ?s "[''users'' \<mapsto> ?rows]" ?rows sort_with] sort_with_contract by simp
qed

section \<open>Joins and snapshots\<close>

text \<open>
  C15. The hash join computes the nested-loop join: for each probe row in turn, the build rows
  with the same key in their order, each joined row taking the probe row's columns and the
  columns only the build row has; rows without a key column are in no pair.
\<close>

theorem hash_join_nested_loop:
  assumes "storage b = Some bs" "storage p = Some ps"
  shows "execute srt storage None (PhysicalHashJoin bk pk [PhysicalSeqScan b [], PhysicalSeqScan p []]) =
    Some (Inr (concat (map (\<lambda>pr. map (\<lambda>br. br ++\<^sub>f pr)
      (filter (\<lambda>br. fmlookup pr pk \<noteq> None \<and> fmlookup br bk = fmlookup pr pk) bs)) ps)))"
proof -
  have "(\<lambda>pr. map (\<lambda>br. br ++\<^sub>f pr) (filter (\<lambda>br. fmlookup pr pk \<noteq> None \<and> fmlookup br bk = fmlookup pr pk) bs)) =
     (\<lambda>pr. case fmlookup pr pk of None \<Rightarrow> []
       | Some k \<Rightarrow> map (join_row pr) (filter (\<lambda>br. fmlookup br bk = Some k) bs))"
    by (rule ext) (simp add: join_row_def [abs_def] split: option.split)
  then show ?thesis using assms
    by (simp add: execute_rows SeqScan_rows_def join_rows_def)
qed

theorem hash_join_nested_loop_witness:
  "execute sort_with [''a'' \<mapsto> [fmap_of_list [(''k'', ''1'')]], ''b'' \<mapsto> [fmempty]] None
     (PhysicalHashJoin ''k'' ''k'' [PhysicalSeqScan ''a'' [], PhysicalSeqScan ''b'' []]) =
    Some (Inr (concat (map (\<lambda>pr. map (\<lambda>br. br ++\<^sub>f pr)
      (filter (\<lambda>br. fmlookup pr ''k'' \<noteq> None \<and> fmlookup br ''k'' = fmlookup pr ''k'') [fmap_of_list [(''k'', ''1'')]]))
      [fmempty])))"
  by (rule hash_join_nested_loop) simp_all

text \<open>
  C26. Snapshot reads are all or nothing: the executor stamps every stored row as created by
  transaction 1 and never deleted, so a scan under a snapshot returns the whole table for
  every snapshot but number 0, and nothing for that one, whatever committed when.
\<close>

theorem snapshot_all_or_nothing:
  assumes "storage t = Some rows"
  shows "execute srt storage (Some s) (PhysicalSeqScan t []) =
         Some (Inr (if snapshotId s = 0 then [] else rows))"
proof -
  have v: "isVisible s \<lparr>vr_data = r, vr_createdBy = 1, vr_deletedBy = 0\<rparr> \<longleftrightarrow> snapshotId s \<noteq> 0" for r
    using unat_eq_0 [of "snapshotId s"] by (auto simp: isVisible_def Let_def word_le_nat_alt)
  then have "map vr_data (filter (isVisible s) (map (\<lambda>row. \<lparr>vr_data = row, vr_createdBy = 1, vr_deletedBy = 0\<rparr>) rows)) =
      (if snapshotId s = 0 then [] else rows)"
    by (induction rows) auto
  then show ?thesis using assms by (simp add: execute_rows SeqScan_rows_def)
qed

theorem snapshot_all_or_nothing_witness:
  "execute sort_with [''t'' \<mapsto> [fmempty]] (Some \<lparr>snapshotId = 9\<rparr>) (PhysicalSeqScan ''t'' []) =
     Some (Inr (if snapshotId \<lparr>snapshotId = 9\<rparr> = 0 then [] else [fmempty]))"
  by (rule snapshot_all_or_nothing) simp

section \<open>Surprises\<close>

text \<open>
  Logical operators in lower case make a condition constant: the lexer reads \<open>and\<close> as the
  keyword, the evaluator compares the operator's text with \<open>AND\<close>; no row ever matches.
\<close>

theorem lowercase_and_matches_nothing:
  "\<exists>s e. parse_sql ''SELECT * FROM t WHERE a = 1 and b = 2'' = Inr (Inr (StSelect s)) \<and>
     sel_where s = Some e \<and> (\<forall>row. \<not> evaluateExpr e row)"
proof -
  let ?e = "BinaryExpr ''and'' (BinaryExpr ''='' (ColumnRefExpr [] ''a'') (LiteralExpr LkInteger ''1''))
     (BinaryExpr ''='' (ColumnRefExpr [] ''b'') (LiteralExpr LkInteger ''2''))"
  have "parse_sql ''SELECT * FROM t WHERE a = 1 and b = 2'' = Inr (Inr (StSelect \<lparr>sel_columns = [''*''],
      sel_table = ''t'', sel_where = Some ?e, sel_orderBy = [], sel_limit = None\<rparr>))"
    by code_simp
  moreover have "\<not> evaluateExpr ?e row" for row
    by (rule unknown_op_false) (simp add: known_ops_def)
  ultimately show ?thesis by auto
qed

end
