(* ===== verification/Locks.thy ===== *)
theory Locks
  imports Transaction
begin

text \<open>
  The lock manager (include/lock_manager.h, src/lock_manager.cpp): for each resource the
  vector of granted locks. Each operation runs under the mutex, so a run of the system is a
  sequence of whole operations, whatever threads they come from; \<open>lock_run\<close> is that
  interleaving.
\<close>

datatype lockMode = Shared | Exclusive

record lockEntry =
  le_holder :: txn_id
  le_mode :: lockMode

type_synonym lock_table = "string \<rightharpoonup> lockEntry list"

definition entries :: "lock_table \<Rightarrow> string \<Rightarrow> lockEntry list" where
  "entries locks resource = (case locks resource of None \<Rightarrow> [] | Some es \<Rightarrow> es)"

text \<open>The loop over the entries: is one of them in conflict with the request?\<close>

fun conflict :: "txn_id \<Rightarrow> lockMode \<Rightarrow> lockEntry list \<Rightarrow> bool" where
  "conflict txnId mode [] = False"
| "conflict txnId mode (e # es) =
    (if le_holder e = txnId then conflict txnId mode es
     else if mode = Exclusive \<or> le_mode e = Exclusive then True
     else conflict txnId mode es)"

text \<open>\<open>locks_[resource]\<close> creates the resource's (empty) vector even when the lock is denied.\<close>

definition acquireLock :: "txn_id \<Rightarrow> string \<Rightarrow> lockMode \<Rightarrow> lock_table \<Rightarrow> bool \<times> lock_table" where
  "acquireLock txnId resource mode locks =
    (let es = entries locks resource in
     if conflict txnId mode es then (False, locks(resource \<mapsto> es))
     else (True, locks(resource \<mapsto> es @ [\<lparr>le_holder = txnId, le_mode = mode\<rparr>])))"

definition releaseAll :: "txn_id \<Rightarrow> lock_table \<Rightarrow> lock_table" where
  "releaseAll txnId locks = (\<lambda>resource. map_option (filter (\<lambda>e. le_holder e \<noteq> txnId)) (locks resource))"

definition isLocked :: "string \<Rightarrow> lock_table \<Rightarrow> bool" where
  "isLocked resource locks = (case locks resource of None \<Rightarrow> False | Some es \<Rightarrow> es \<noteq> [])"

lemma conflict_iff:
  "conflict t m es \<longleftrightarrow> (\<exists>e\<in>set es. le_holder e \<noteq> t \<and> (m = Exclusive \<or> le_mode e = Exclusive))"
  by (induction es) auto

lemma entries_upd [simp]: "entries (locks(r \<mapsto> es)) r' = (if r' = r then es else entries locks r')"
  by (simp add: entries_def)

lemma entries_releaseAll [simp]:
  "entries (releaseAll t locks) r = filter (\<lambda>e. le_holder e \<noteq> t) (entries locks r)"
  by (simp add: entries_def releaseAll_def split: option.split)

section \<open>Who holds what\<close>

definition holds :: "lock_table \<Rightarrow> txn_id \<Rightarrow> string \<Rightarrow> lockMode \<Rightarrow> bool" where
  "holds locks t r m \<longleftrightarrow> (\<exists>e\<in>set (entries locks r). le_holder e = t \<and> le_mode e = m)"

lemma isLocked_holds: "isLocked r locks \<longleftrightarrow> (\<exists>t m. holds locks t r m)"
proof -
  have "isLocked r locks \<longleftrightarrow> entries locks r \<noteq> []"
    by (simp add: isLocked_def entries_def split: option.split)
  then show ?thesis by (cases "entries locks r") (auto simp: holds_def)
qed

lemma holds_acquire:
  "acquireLock t r m locks = (b, locks') \<Longrightarrow>
   holds locks' t' r' m' \<longleftrightarrow> holds locks t' r' m' \<or> b \<and> t' = t \<and> r' = r \<and> m' = m"
  by (auto simp: acquireLock_def Let_def holds_def split: if_splits)

lemma holds_releaseAll: "holds (releaseAll t locks) t' r m \<longleftrightarrow> holds locks t' r m \<and> t' \<noteq> t"
  by (auto simp: holds_def)

lemma acquireLock_granted:
  assumes "acquireLock t r m locks = (b, locks')"
  shows "b \<longleftrightarrow> (\<forall>t' m'. t' \<noteq> t \<and> holds locks t' r m' \<longrightarrow> m = Shared \<and> m' = Shared)"
proof -
  have "b \<longleftrightarrow> \<not> conflict t m (entries locks r)"
    using assms by (auto simp: acquireLock_def Let_def split: if_splits)
  then show ?thesis
    by (auto simp: conflict_iff holds_def) (metis lockMode.exhaust)+
qed

text \<open>
  A lock is granted exactly when no other transaction holds a conflicting one; granting
  adds this lock and nothing else, a denial changes no holder.
\<close>

theorem acquireLock_spec:
  "acquireLock t r m locks = (b, locks') \<Longrightarrow>
   b = (\<not> (\<exists>t' m'. t' \<noteq> t \<and> holds locks t' r m' \<and> (m = Exclusive \<or> m' = Exclusive))) \<and>
   (\<forall>t' r' m'. holds locks' t' r' m' = (holds locks t' r' m' \<or> b \<and> t' = t \<and> r' = r \<and> m' = m))"
proof (intro conjI allI)
  assume acq: "acquireLock t r m locks = (b, locks')"
  have sh: "(k = Shared) = (k \<noteq> Exclusive)" for k by (cases k) simp_all
  show "b = (\<not> (\<exists>t' m'. t' \<noteq> t \<and> holds locks t' r m' \<and> (m = Exclusive \<or> m' = Exclusive)))"
    unfolding acquireLock_granted [OF acq] sh by blast
qed (rule holds_acquire)

theorem acquireLock_spec_witness:
  "False = (\<not> (\<exists>t' m'. t' \<noteq> 3 \<and> holds [''users:1'' \<mapsto> [\<lparr>le_holder = 1, le_mode = Shared\<rparr>]] t' ''users:1'' m' \<and>
      (Exclusive = Exclusive \<or> m' = Exclusive))) \<and>
   (\<forall>t' r' m'. holds [''users:1'' \<mapsto> [\<lparr>le_holder = 1, le_mode = Shared\<rparr>]] t' r' m' =
      (holds [''users:1'' \<mapsto> [\<lparr>le_holder = 1, le_mode = Shared\<rparr>]] t' r' m' \<or>
       False \<and> t' = 3 \<and> r' = ''users:1'' \<and> m' = Exclusive))"
  by (rule acquireLock_spec) (simp add: acquireLock_def entries_def)

section \<open>Interleavings\<close>

datatype lock_event = Acquire txn_id string lockMode | ReleaseAll txn_id

inductive lock_step :: "lock_table \<Rightarrow> lock_event \<Rightarrow> lock_table \<Rightarrow> bool" where
  acquire: "acquireLock t r m locks = (b, locks') \<Longrightarrow> lock_step locks (Acquire t r m) locks'"
| release: "lock_step locks (ReleaseAll t) (releaseAll t locks)"

inductive lock_run :: "lock_event list \<Rightarrow> lock_table \<Rightarrow> bool" where
  init: "lock_run [] Map.empty"
| step: "lock_run evs locks \<Longrightarrow> lock_step locks ev locks' \<Longrightarrow> lock_run (evs @ [ev]) locks'"

inductive_cases lock_step_AcquireE: "lock_step locks (Acquire t r m) locks'"
inductive_cases lock_step_ReleaseE: "lock_step locks (ReleaseAll t) locks'"

inductive_simps lock_step_simps [simp]:
  "lock_step locks (Acquire t r m) locks'"
  "lock_step locks (ReleaseAll t) locks'"

definition locks_exclusive :: "lock_table \<Rightarrow> bool" where
  "locks_exclusive locks \<longleftrightarrow> (\<forall>r t t' m m'. t \<noteq> t' \<and> holds locks t r m \<and> holds locks t' r m' \<longrightarrow>
     m = Shared \<and> m' = Shared)"

lemma lock_step_exclusive [inv_intros]:
  assumes "lock_step locks ev locks'" "locks_exclusive locks"
  shows "locks_exclusive locks'"
  using assms(1)
proof cases
  case (acquire t r m b)
  note granted = acquireLock_granted [OF acquire(2)] holds_acquire [OF acquire(2)]
  show ?thesis unfolding locks_exclusive_def
  proof (intro allI impI)
    fix r' t1 t2 m1 m2
    assume h: "t1 \<noteq> t2 \<and> holds locks' t1 r' m1 \<and> holds locks' t2 r' m2"
    consider "holds locks t1 r' m1" "holds locks t2 r' m2"
      | "b" "t1 = t" "r' = r" "m1 = m" "holds locks t2 r' m2"
      | "b" "t2 = t" "r' = r" "m2 = m" "holds locks t1 r' m1"
      using h granted(2) by blast
    then show "m1 = Shared \<and> m2 = Shared"
    proof cases
      case 1
      with h assms(2) show ?thesis unfolding locks_exclusive_def by blast
    next
      case 2
      with h granted(1) show ?thesis by metis
    next
      case 3
      with h granted(1) show ?thesis by metis
    qed
  qed
next
  case (release t)
  with assms(2) show ?thesis by (auto simp: locks_exclusive_def holds_releaseAll)
qed

text \<open>
  C11. Mutual exclusion in every reachable state: after any interleaving of lock requests and
  releases, the holder of an exclusive lock on a resource is the only holder of any lock on it.
\<close>

theorem lock_mutual_exclusion:
  assumes "lock_run evs locks" "holds locks t r Exclusive"
  shows "{t'. \<exists>m. holds locks t' r m} = {t}"
proof -
  from assms(1) have "locks_exclusive locks"
  proof (induction rule: lock_run.induct)
    case init
    show ?case by (simp add: locks_exclusive_def holds_def entries_def)
  qed (rule lock_step_exclusive)
  then have "t' = t" if "holds locks t' r m" for t' m
    using that assms(2) by (force simp: locks_exclusive_def)
  with assms(2) show ?thesis by blast
qed

theorem lock_mutual_exclusion_witness:
  "{t'. \<exists>m. holds [''users:1'' \<mapsto> [\<lparr>le_holder = 7, le_mode = Exclusive\<rparr>]] t' ''users:1'' m} = {7}"
proof -
  let ?L = "[''users:1'' \<mapsto> [\<lparr>le_holder = 7, le_mode = Exclusive\<rparr>]]"
  have "lock_step Map.empty (Acquire 7 ''users:1'' Exclusive) ?L"
    by (rule lock_step.acquire [where b = True]) (simp add: acquireLock_def entries_def)
  from lock_run.step [OF lock_run.init this]
  have run: "lock_run [Acquire 7 ''users:1'' Exclusive] ?L" by simp
  have "holds ?L 7 ''users:1'' Exclusive" by (simp add: holds_def entries_def)
  from lock_mutual_exclusion [OF run this] show ?thesis .
qed

text \<open>
  The locks of the requester itself never count: whatever it holds, it is granted a shared lock and
  an exclusive one, on a resource that is not free.
\<close>

lemma own_locks_never_conflict:
  assumes "holds locks t r m" "\<forall>t' m'. holds locks t' r m' \<longrightarrow> t' = t"
  shows "isLocked r locks \<and> fst (acquireLock t r m' locks)"
proof -
  obtain b locks' where acq: "acquireLock t r m' locks = (b, locks')" by fastforce
  have "isLocked r locks" unfolding isLocked_holds using assms(1) by blast
  moreover have b unfolding acquireLock_granted [OF acq] using assms(2) by blast
  ultimately show ?thesis using acq by simp
qed

text \<open>
  C40. Releasing makes progress possible: after \<open>releaseAll\<close> of every other holder of a resource,
  in any order, a request for any mode on it is granted, also when the requester holds locks on it
  itself, as they are passed over (the README has an exclusive lock granted only on a completely
  free resource); and \<open>isLocked\<close> is false once the requester has released too.
\<close>

theorem release_then_acquire:
  assumes "\<forall>t' m'. holds locks t' r m' \<longrightarrow> t' = t \<or> t' \<in> set others"
  shows "fst (acquireLock t r m (foldr releaseAll others locks)) \<and>
         \<not> isLocked r (releaseAll t (foldr releaseAll others locks))"
proof -
  have h: "holds (foldr releaseAll others locks) t' r m' \<longleftrightarrow> holds locks t' r m' \<and> t' \<notin> set others" for t' m'
    by (induction others) (auto simp: holds_releaseAll)
  obtain b locks' where acq: "acquireLock t r m (foldr releaseAll others locks) = (b, locks')" by fastforce
  have "b" using assms h unfolding acquireLock_granted [OF acq] by blast
  with acq show ?thesis using assms h by (auto simp: isLocked_holds holds_releaseAll)
qed

theorem release_then_acquire_witness:
  "fst (acquireLock 3 ''users:1'' Exclusive (foldr releaseAll [1, 2]
     [''users:1'' \<mapsto> [\<lparr>le_holder = 1, le_mode = Shared\<rparr>, \<lparr>le_holder = 2, le_mode = Shared\<rparr>]])) \<and>
   \<not> isLocked ''users:1'' (releaseAll 3 (foldr releaseAll [1, 2]
     [''users:1'' \<mapsto> [\<lparr>le_holder = 1, le_mode = Shared\<rparr>, \<lparr>le_holder = 2, le_mode = Shared\<rparr>]]))"
  by (rule release_then_acquire) (simp add: holds_def entries_def)

end
