(* ===== verification/Stream.thy ===== *)
theory Stream
  imports Prelude
begin

text \<open>
  The file streams the storage code uses (\<open>std::fstream\<close> opened for input and output in binary
  mode) and the bytes of its integers. A stream is the bytes of its file, one position shared
  by reading and writing, as \<open>std::basic_filebuf\<close> has it, and its error state. What C++
  prescribes and the code depends on:
  \<^item> a read or a write on a stream that is not good does nothing and leaves it failed;
  \<^item> a read that meets the end of the file takes what is there and sets \<open>eofbit\<close> and \<open>failbit\<close>;
  \<^item> \<open>seekg\<close> clears \<open>eofbit\<close> only, and neither seek moves a failed stream;
  \<^item> \<open>clear\<close> resets the error state and does not move the position.
  Buffering and loss of power are not modelled: what is written is in the file. Integers are
  written in the byte order of the machine, little endian here.
\<close>

section \<open>Streams\<close>

record fstream =
  fs_bytes :: string
  fs_pos :: nat
  fs_eof :: bool
  fs_fail :: bool

definition fs_good :: "fstream \<Rightarrow> bool" where
  "fs_good s \<longleftrightarrow> \<not> fs_eof s \<and> \<not> fs_fail s"

definition fs_read :: "nat \<Rightarrow> fstream \<Rightarrow> string \<times> fstream" where
  "fs_read n s =
    (if \<not> fs_good s then ([], s\<lparr>fs_fail := True\<rparr>)
     else let got = take n (drop (fs_pos s) (fs_bytes s)); s' = s\<lparr>fs_pos := fs_pos s + length got\<rparr>
       in if length got = n then (got, s') else (got, s'\<lparr>fs_eof := True, fs_fail := True\<rparr>))"

definition overwrite :: "nat \<Rightarrow> string \<Rightarrow> string \<Rightarrow> string" where
  "overwrite pos bs file =
    (let padded = file @ replicate (pos - length file) (CHR 0x00)
     in take pos padded @ bs @ drop (pos + length bs) padded)"

definition fs_write :: "string \<Rightarrow> fstream \<Rightarrow> fstream" where
  "fs_write bs s =
    (if \<not> fs_good s then s\<lparr>fs_fail := True\<rparr>
     else s\<lparr>fs_bytes := overwrite (fs_pos s) bs (fs_bytes s), fs_pos := fs_pos s + length bs\<rparr>)"

definition fs_seekg :: "nat \<Rightarrow> fstream \<Rightarrow> fstream" where
  "fs_seekg n s = (let s' = s\<lparr>fs_eof := False\<rparr> in if fs_fail s' then s' else s'\<lparr>fs_pos := n\<rparr>)"

definition fs_seekp :: "nat \<Rightarrow> fstream \<Rightarrow> fstream" where
  "fs_seekp n s = (if fs_fail s then s else s\<lparr>fs_pos := n\<rparr>)"

definition fs_clear :: "fstream \<Rightarrow> fstream" where
  "fs_clear s = s\<lparr>fs_eof := False, fs_fail := False\<rparr>"

text \<open>
  Both storage classes open their file the same way: \<open>open(in | out)\<close> of an existing file, or
  else creating it with \<open>trunc\<close>. What the operating system answers is an argument: the
  contents of the file if it can be opened, and whether it can be created.
\<close>

definition fs_open :: "string option \<Rightarrow> bool \<Rightarrow> fstream option" where
  "fs_open existing creatable =
    (case existing of Some bytes \<Rightarrow> Some \<lparr>fs_bytes = bytes, fs_pos = 0, fs_eof = False, fs_fail = False\<rparr>
     | None \<Rightarrow> if creatable then Some \<lparr>fs_bytes = [], fs_pos = 0, fs_eof = False, fs_fail = False\<rparr> else None)"

section \<open>Laws\<close>

lemma fs_read_good:
  "fs_good s \<Longrightarrow> drop (fs_pos s) (fs_bytes s) = bs @ r \<Longrightarrow>
   fs_read (length bs) s = (bs, s\<lparr>fs_pos := fs_pos s + length bs\<rparr>)"
  by (simp add: fs_read_def Let_def)

lemma fs_read_bytes: "fs_read n s = (bs, s') \<Longrightarrow> fs_bytes s' = fs_bytes s"
  by (auto simp: fs_read_def Let_def split: if_splits)

lemma fs_read_ok:
  assumes "fs_read n s = (bs, s')" "\<not> fs_fail s'"
  shows "fs_good s" "fs_good s'" "length bs = n" "fs_pos s' = fs_pos s + n" "fs_bytes s' = fs_bytes s"
    "bs = take n (drop (fs_pos s) (fs_bytes s))" "0 < n \<Longrightarrow> fs_pos s' \<le> length (fs_bytes s)"
  using assms by (auto simp: fs_read_def fs_good_def Let_def split: if_splits)

text \<open>A read that fails leaves the position at the end of the file.\<close>

lemma fs_read_fail:
  assumes "fs_read n s = (bs, s')" "fs_fail s'" "fs_good s"
  shows "length (fs_bytes s') \<le> fs_pos s'"
  using assms by (auto simp: fs_read_def fs_good_def Let_def split: if_splits)

lemma length_overwrite [simp]: "length (overwrite pos bs file) = max (length file) (pos + length bs)"
  by (simp add: overwrite_def Let_def max_def min_def)

lemma overwrite_end [simp]: "overwrite (length file) bs file = file @ bs"
  by (simp add: overwrite_def)

lemma read_overwrite: "take (length bs) (drop pos (overwrite pos bs file)) = bs"
  by (simp add: overwrite_def Let_def)

lemma nth_overwrite:
  "i < length file \<Longrightarrow> i < pos \<or> pos + length bs \<le> i \<Longrightarrow> overwrite pos bs file ! i = file ! i"
  by (auto simp: overwrite_def Let_def nth_append min_def)

lemma overwrite_overwrite:
  "overwrite (pos + length as) bs (overwrite pos as file) = overwrite pos (as @ bs) file"
proof -
  let ?f = "file @ replicate (pos - length file) (CHR 0x00)"
  define g where "g = overwrite pos as file"
  have p: "length (take pos ?f) = pos" by (simp add: min_def)
  have g: "g = (take pos ?f @ as) @ drop (pos + length as) ?f" by (simp add: g_def overwrite_def Let_def)
  have "overwrite (pos + length as) bs g = take (pos + length as) g @ bs @ drop (pos + length as + length bs) g"
    by (simp add: overwrite_def Let_def g_def)
  also have "take (pos + length as) g = take pos ?f @ as"
    unfolding g using p by (simp only: take_append length_append) simp
  also have "drop (pos + length as + length bs) g = drop (pos + length (as @ bs)) ?f"
    unfolding g drop_append length_append p by (simp add: add.assoc add.commute add.left_commute)
  finally show ?thesis by (simp add: overwrite_def Let_def g_def)
qed

lemma fs_write_write: "fs_write bs (fs_write as s) = fs_write (as @ bs) s"
  by (cases "fs_good s") (simp_all add: fs_write_def fs_good_def overwrite_overwrite add.assoc)

lemma fs_write_Nil: "fs_good s \<Longrightarrow> fs_pos s \<le> length (fs_bytes s) \<Longrightarrow> fs_write [] s = s"
  by (simp add: fs_write_def overwrite_def)

section \<open>Integers as bytes\<close>

lemma of_char_less: "of_char c < (256::nat)"
proof -
  have "of_char c = (of_char c :: nat) mod 256" by simp
  then show ?thesis by (metis mod_less_divisor zero_less_numeral)
qed

fun le_bytes :: "nat \<Rightarrow> nat \<Rightarrow> string" where
  "le_bytes 0 x = []"
| "le_bytes (Suc n) x = char_of x # le_bytes n (x div 256)"

fun le_val :: "string \<Rightarrow> nat" where
  "le_val [] = 0"
| "le_val (c # cs) = of_char c + 256 * le_val cs"

lemma length_le_bytes [simp]: "length (le_bytes n x) = n"
  by (induction n arbitrary: x) simp_all

lemma le_val_bytes: "le_val (le_bytes n x) = x mod 256 ^ n"
proof (induction n arbitrary: x)
  case (Suc n)
  have "x mod 256 + 256 * (x div 256 mod 256 ^ n) = x mod (256 * 256 ^ n)"
    by (simp add: mod_mult2_eq)
  with Suc show ?case by (simp add: of_char_of)
qed simp

lemma le_val_less: "le_val bs < 256 ^ length bs"
proof (induction bs)
  case (Cons c cs)
  have "of_char c < (256::nat)" by (rule of_char_less)
  moreover have "le_val cs + 1 \<le> 256 ^ length cs" using Cons by simp
  ultimately have "of_char c + 256 * le_val cs < 256 * 256 ^ length cs" by linarith
  then show ?case by simp
qed simp

lemma le_bytes_val: "le_bytes (length bs) (le_val bs) = bs"
proof (induction bs)
  case (Cons c cs)
  have "of_char c < (256::nat)" by (rule of_char_less)
  then have "(of_char c + 256 * le_val cs) div 256 = le_val cs" by simp
  moreover have "char_of (of_char c + 256 * le_val cs) = c"
    using \<open>of_char c < 256\<close> by (simp add: char_of_eq_iff take_bit_eq_mod)
  ultimately show ?case using Cons by simp
qed simp

end
