(* ===== verification/Row_Codec.thy ===== *)
theory Row_Codec
  imports Prelude
begin

text \<open>
  Rows as text: \<open>col=val;\<close> for each column. The log (src/wal.cpp) and the table heap
  (src/table_heap.cpp) each have their own copy of the two functions. \<open>std::unordered_map\<close>
  does not specify its iteration order: it is the argument \<open>ord\<close>, which lists the columns of
  a row, each once (\<open>row_order\<close>). \<open>row_codec\<close> is what the users of a codec rely on.
\<close>

type_synonym row_ord = "row \<Rightarrow> string list"

definition row_order :: "row_ord \<Rightarrow> bool" where
  "row_order ord \<longleftrightarrow> (\<forall>r. distinct (ord r) \<and> set (ord r) = fset (fmdom r))"

definition sorted_ord :: row_ord where
  "sorted_ord r = sorted_list_of_fset (fmdom r)"

lemma sorted_ord_order: "row_order sorted_ord"
  by (simp add: row_order_def sorted_ord_def) (simp add: sorted_list_of_fset.rep_eq)

section \<open>The interface\<close>

locale row_codec =
  fixes ser :: "row \<Rightarrow> string"
    and deser :: "string \<Rightarrow> row"
    and safe :: "row \<Rightarrow> bool"
  assumes deser_ser: "safe r \<Longrightarrow> deser (ser r) = r"
begin

lemma ser_inj: "safe r \<Longrightarrow> safe r' \<Longrightarrow> ser r = ser r' \<Longrightarrow> r = r'"
  by (metis deser_ser)

lemma map_deser_ser: "list_all safe rs \<Longrightarrow> map deser (map ser rs) = rs"
  by (induction rs) (simp_all add: deser_ser)

end

section \<open>The log's functions\<close>

definition serializeRow :: "row_ord \<Rightarrow> row \<Rightarrow> string" where
  "serializeRow ord r = foldl (\<lambda>result col. result @ col @ ''='' @ the (fmlookup r col) @ '';'') [] (ord r)"

text \<open>One token between semicolons; the loop over the tokens.\<close>

definition row_token :: "string \<Rightarrow> row \<Rightarrow> row" where
  "row_token token r =
    (if token = [] then r
     else if CHR ''='' \<notin> set token then r
     else let col = takeWhile (\<lambda>c. c \<noteq> CHR ''='') token;
              val = tl (dropWhile (\<lambda>c. c \<noteq> CHR ''='') token)
          in if col = [] then r else fmupd col val r)"

function deserializeRow_loop :: "string \<Rightarrow> row \<Rightarrow> row" where
  "deserializeRow_loop s r =
    (if CHR '';'' \<notin> set s then r
     else deserializeRow_loop (tl (dropWhile (\<lambda>c. c \<noteq> CHR '';'') s))
            (row_token (takeWhile (\<lambda>c. c \<noteq> CHR '';'') s) r))"
  by pat_completeness auto
termination
proof (relation "measure (\<lambda>(s, r). length s)", goal_cases)
  case (2 s r)
  then have "dropWhile (\<lambda>c. c \<noteq> CHR '';'') s \<noteq> []" by (auto simp: dropWhile_eq_Nil_conv)
  moreover have "length (dropWhile (\<lambda>c. c \<noteq> CHR '';'') s) \<le> length s" by (rule length_dropWhile_le)
  ultimately show ?case by (cases "dropWhile (\<lambda>c. c \<noteq> CHR '';'') s") auto
qed simp

declare deserializeRow_loop.simps [simp del]

definition deserializeRow :: "string \<Rightarrow> row" where
  "deserializeRow s = deserializeRow_loop s fmempty"

section \<open>The table heap's functions\<close>

definition serializeRowData :: "row_ord \<Rightarrow> row \<Rightarrow> string" where
  "serializeRowData ord r = foldl (\<lambda>result col. result @ col @ ''='' @ the (fmlookup r col) @ '';'') [] (ord r)"

function deserializeRowData_loop :: "string \<Rightarrow> row \<Rightarrow> row" where
  "deserializeRowData_loop s r =
    (if CHR '';'' \<notin> set s then r
     else deserializeRowData_loop (tl (dropWhile (\<lambda>c. c \<noteq> CHR '';'') s))
            (row_token (takeWhile (\<lambda>c. c \<noteq> CHR '';'') s) r))"
  by pat_completeness auto
termination
proof (relation "measure (\<lambda>(s, r). length s)", goal_cases)
  case (2 s r)
  then have "dropWhile (\<lambda>c. c \<noteq> CHR '';'') s \<noteq> []" by (auto simp: dropWhile_eq_Nil_conv)
  moreover have "length (dropWhile (\<lambda>c. c \<noteq> CHR '';'') s) \<le> length s" by (rule length_dropWhile_le)
  ultimately show ?case by (cases "dropWhile (\<lambda>c. c \<noteq> CHR '';'') s") auto
qed simp

declare deserializeRowData_loop.simps [simp del]

definition deserializeRowData :: "string \<Rightarrow> row" where
  "deserializeRowData s = deserializeRowData_loop s fmempty"

lemma row_codecs_agree: "serializeRowData = serializeRow" "deserializeRowData = deserializeRow"
proof -
  have "deserializeRowData_loop s r = deserializeRow_loop s r" for s r
    by (induction s r rule: deserializeRow_loop.induct)
       (simp add: deserializeRow_loop.simps deserializeRowData_loop.simps)
  then show "deserializeRowData = deserializeRow"
    by (simp add: fun_eq_iff deserializeRowData_def deserializeRow_def)
qed (simp add: fun_eq_iff serializeRowData_def serializeRow_def)

section \<open>Round trip\<close>

text \<open>A row whose separators cannot be misread.\<close>

definition field_safe :: "string \<Rightarrow> string \<Rightarrow> bool" where
  "field_safe c v \<longleftrightarrow> c \<noteq> [] \<and> CHR '';'' \<notin> set c \<and> CHR ''='' \<notin> set c \<and> CHR '';'' \<notin> set v"

definition row_safe :: "row \<Rightarrow> bool" where
  "row_safe r \<longleftrightarrow> fmpred field_safe r"

lemma row_token_field: "field_safe c v \<Longrightarrow> row_token (c @ ''='' @ v) r = fmupd c v r"
  using takeWhile_stop [of "CHR ''=''" c v] dropWhile_stop [of "CHR ''=''" c v]
  by (simp add: row_token_def field_safe_def Let_def)

lemma deserializeRow_field:
  assumes "field_safe c v"
  shows "deserializeRow_loop (c @ ''='' @ v @ '';'' @ s) r = deserializeRow_loop s (fmupd c v r)"
proof -
  have "takeWhile (\<lambda>c. c \<noteq> CHR '';'') (c @ ''='' @ v @ '';'' @ s) = c @ ''='' @ v"
    "dropWhile (\<lambda>c. c \<noteq> CHR '';'') (c @ ''='' @ v @ '';'' @ s) = '';'' @ s"
    using assms takeWhile_stop [of "CHR '';''" "c @ ''='' @ v" s] dropWhile_stop [of "CHR '';''" "c @ ''='' @ v" s]
    by (simp_all add: field_safe_def)
  then show ?thesis using row_token_field [OF assms]
    by (subst deserializeRow_loop.simps) simp
qed

definition row_text :: "row \<Rightarrow> string list \<Rightarrow> string" where
  "row_text r cols = concat (map (\<lambda>col. col @ ''='' @ the (fmlookup r col) @ '';'') cols)"

lemma serializeRow_text: "serializeRow ord r = row_text r (ord r)"
proof -
  have "foldl (\<lambda>result col. result @ col @ ''='' @ the (fmlookup r col) @ '';'') acc cols = acc @ row_text r cols"
    for acc cols by (induction cols arbitrary: acc) (simp_all add: row_text_def)
  then show ?thesis by (simp add: serializeRow_def)
qed

lemma deserializeRow_text:
  "\<forall>c\<in>set cols. \<exists>v. fmlookup r c = Some v \<and> field_safe c v \<Longrightarrow>
   deserializeRow_loop (row_text r cols) acc = foldl (\<lambda>a c. fmupd c (the (fmlookup r c)) a) acc cols"
proof (induction cols arbitrary: acc)
  case Nil
  then show ?case by (simp add: row_text_def deserializeRow_loop.simps)
next
  case (Cons c cols)
  then obtain v where v: "fmlookup r c = Some v" "field_safe c v" by auto
  have "row_text r (c # cols) = c @ ''='' @ v @ '';'' @ row_text r cols" by (simp add: row_text_def v(1))
  then show ?case using deserializeRow_field [OF v(2)] Cons v(1) by simp
qed

lemma foldl_fmupd_all:
  "fmlookup (foldl (\<lambda>a c. fmupd c (the (fmlookup r c)) a) acc cols) k =
   (if k \<in> set cols then Some (the (fmlookup r k)) else fmlookup acc k)"
  by (induction cols arbitrary: acc) auto

lemma deserialize_serialize:
  assumes "row_order ord" "row_safe r"
  shows "deserializeRow (serializeRow ord r) = r"
proof -
  have dom: "set (ord r) = fset (fmdom r)" using assms(1) by (simp add: row_order_def)
  have "\<forall>c\<in>set (ord r). \<exists>v. fmlookup r c = Some v \<and> field_safe c v"
    using assms(2) unfolding dom row_safe_def fmpred_iff by (auto simp: fmlookup_dom_iff)
  then have "deserializeRow (serializeRow ord r) = foldl (\<lambda>a c. fmupd c (the (fmlookup r c)) a) fmempty (ord r)"
    by (simp add: deserializeRow_def serializeRow_text deserializeRow_text)
  moreover have "fmlookup (foldl (\<lambda>a c. fmupd c (the (fmlookup r c)) a) fmempty (ord r)) k = fmlookup r k" for k
    by (cases "fmlookup r k") (simp_all add: foldl_fmupd_all dom fmlookup_dom_iff)
  ultimately show ?thesis by (simp add: fmap_ext)
qed

text \<open>Both copies are codecs for every iteration order.\<close>

locale iterated_rows =
  fixes ord :: row_ord
  assumes order: "row_order ord"
begin

sublocale log_codec: row_codec "serializeRow ord" deserializeRow row_safe
  by unfold_locales (rule deserialize_serialize [OF order])

sublocale heap_codec: row_codec "serializeRowData ord" deserializeRowData row_safe
  by unfold_locales (simp add: row_codecs_agree deserialize_serialize [OF order])

end

interpretation sorted_rows: iterated_rows sorted_ord
  by unfold_locales (rule sorted_ord_order)

text \<open>
  C29. Reading a serialised row gives the row back, whatever order the map iterates in, as long
  as no column is empty or holds \<open>;\<close> or \<open>=\<close> and no value holds \<open>;\<close>. Values may hold \<open>=\<close>.
\<close>

theorem row_roundtrip:
  assumes "row_order ord" "row_safe r"
  shows "deserializeRow (serializeRow ord r) = r \<and> deserializeRowData (serializeRowData ord r) = r"
  using deserialize_serialize [OF assms] by (simp add: row_codecs_agree)

theorem row_roundtrip_witness:
  "deserializeRow (serializeRow sorted_ord (fmap_of_list [(''id'', ''1''), (''f'', ''a=b'')])) =
     fmap_of_list [(''id'', ''1''), (''f'', ''a=b'')] \<and>
   deserializeRowData (serializeRowData sorted_ord (fmap_of_list [(''id'', ''1''), (''f'', ''a=b'')])) =
     fmap_of_list [(''id'', ''1''), (''f'', ''a=b'')]"
  by (rule row_roundtrip [OF sorted_ord_order])
     (auto simp: row_safe_def fmpred_iff field_safe_def fmlookup_of_list split: if_splits)

text \<open>
  Without that the text does not determine the row: a value with a semicolon comes back
  cut short, and what follows it can become a column of its own.
\<close>

theorem row_injection:
  "deserializeRow (serializeRow sorted_ord (fmap_of_list [(''name'', ''x;admin=1'')])) =
   fmap_of_list [(''name'', ''x''), (''admin'', ''1'')]"
proof -
  have "serializeRow sorted_ord (fmap_of_list [(''name'', ''x;admin=1'')]) = ''name=x;admin=1;''"
    by (simp add: serializeRow_def sorted_ord_def fmlookup_of_list sorted_list_of_fset.rep_eq)
  then show ?thesis
    by (simp add: deserializeRow_def deserializeRow_loop.simps row_token_def fmap_of_list_simps fmupd_reorder_neq)
qed

end
