(* ===== verification/Wal.thy ===== *)
theory Wal
  imports Stream Row_Codec
begin

text \<open>
  The write-ahead log (include/wal.h, src/wal.cpp): records on a file stream. The constructor
  reads the existing records to find the next LSN, \<open>append\<close> writes at the end of the file,
  \<open>readAll\<close> reads from its beginning, and \<open>recover\<close> replays the records on a storage.
\<close>

section \<open>Records\<close>

text \<open>
  The type is an enum over one byte. A file can hold any byte there, and the code then treats
  the record as of no known type: \<open>LgUnknown\<close>.
\<close>

datatype logType = LgBegin | LgCommit | LgAbort | LgUpdate | LgInsert | LgDelete | LgUnknown nat

definition type_byte :: "logType \<Rightarrow> nat" where
  "type_byte t = (case t of LgBegin \<Rightarrow> 0 | LgCommit \<Rightarrow> 1 | LgAbort \<Rightarrow> 2 | LgUpdate \<Rightarrow> 3
     | LgInsert \<Rightarrow> 4 | LgDelete \<Rightarrow> 5 | LgUnknown n \<Rightarrow> n)"

definition byte_type :: "nat \<Rightarrow> logType" where
  "byte_type n = (if n = 0 then LgBegin else if n = 1 then LgCommit else if n = 2 then LgAbort
     else if n = 3 then LgUpdate else if n = 4 then LgInsert else if n = 5 then LgDelete
     else LgUnknown n)"

record logRecord =
  lr_lsn :: lsn
  lr_prevLsn :: lsn
  lr_txnId :: txn_id
  lr_type :: logType
  lr_table :: string
  lr_key :: string
  lr_oldValue :: string
  lr_newValue :: string

section \<open>Writing and reading one record\<close>

definition writeStr :: "string \<Rightarrow> fstream \<Rightarrow> fstream" where
  "writeStr s f = (let len = length s mod 2 ^ 32 in fs_write (take len s) (fs_write (le_bytes 4 len) f))"

definition wal_writeRecord :: "logRecord \<Rightarrow> fstream \<Rightarrow> fstream" where
  "wal_writeRecord rec f =
    (let f1 = fs_write (le_bytes 8 (unat (lr_lsn rec))) f;
         f2 = fs_write (le_bytes 8 (unat (lr_prevLsn rec))) f1;
         f3 = fs_write (le_bytes 8 (unat (lr_txnId rec))) f2;
         f4 = fs_write (le_bytes 1 (type_byte (lr_type rec))) f3;
         f5 = writeStr (lr_table rec) f4;
         f6 = writeStr (lr_key rec) f5;
         f7 = writeStr (lr_oldValue rec) f6
     in writeStr (lr_newValue rec) f7)"

text \<open>A read that may fail, and the sequence that stops at the first failure.\<close>

type_synonym 'a reader = "fstream \<Rightarrow> 'a option \<times> fstream"

definition rd_bind :: "'a reader \<Rightarrow> ('a \<Rightarrow> 'b reader) \<Rightarrow> 'b reader" where
  "rd_bind m k f = (case m f of (None, f') \<Rightarrow> (None, f') | (Some x, f') \<Rightarrow> k x f')"

definition rd_return :: "'a \<Rightarrow> 'a reader" where
  "rd_return x f = (Some x, f)"

definition rd_bytes :: "nat \<Rightarrow> string reader" where
  "rd_bytes n f = (case fs_read n f of (bs, f') \<Rightarrow> (if fs_fail f' then None else Some bs, f'))"

definition readStr :: "string reader" where
  "readStr = rd_bind (rd_bytes 4) (\<lambda>len. rd_bytes (le_val len))"

definition readRecord :: "logRecord reader" where
  "readRecord =
     rd_bind (rd_bytes 8) (\<lambda>lsn.
     rd_bind (rd_bytes 8) (\<lambda>prev.
     rd_bind (rd_bytes 8) (\<lambda>txn.
     rd_bind (rd_bytes 1) (\<lambda>type.
     rd_bind readStr (\<lambda>table.
     rd_bind readStr (\<lambda>key.
     rd_bind readStr (\<lambda>oldValue.
     rd_bind readStr (\<lambda>newValue.
       rd_return \<lparr>lr_lsn = of_nat (le_val lsn), lr_prevLsn = of_nat (le_val prev),
         lr_txnId = of_nat (le_val txn), lr_type = byte_type (le_val type), lr_table = table,
         lr_key = key, lr_oldValue = oldValue, lr_newValue = newValue\<rparr>))))))))"

section \<open>Reading makes progress\<close>

text \<open>
  A successful reader moves the position forward, over bytes of the file; a failed one leaves
  the stream failed, at the end of the file. Neither changes the file.
\<close>

definition rd_ok :: "nat \<Rightarrow> 'a reader \<Rightarrow> bool" where
  "rd_ok n m \<longleftrightarrow> (\<forall>f. case m f of
     (Some x, f') \<Rightarrow> (0 < n \<longrightarrow> fs_good f) \<and> (fs_good f \<longrightarrow> fs_good f') \<and> fs_bytes f' = fs_bytes f \<and> fs_pos f + n \<le> fs_pos f' \<and>
       (0 < n \<or> fs_pos f \<le> length (fs_bytes f) \<longrightarrow> fs_pos f' \<le> length (fs_bytes f))
   | (None, f') \<Rightarrow> fs_fail f' \<and> fs_bytes f' = fs_bytes f \<and>
       (fs_good f \<longrightarrow> length (fs_bytes f) \<le> fs_pos f') \<and> (\<not> fs_good f \<longrightarrow> fs_pos f' = fs_pos f))"

lemma rd_ok_Some:
  "rd_ok n m \<Longrightarrow> m f = (Some x, f') \<Longrightarrow> (0 < n \<longrightarrow> fs_good f) \<and> (fs_good f \<longrightarrow> fs_good f') \<and> fs_bytes f' = fs_bytes f \<and>
     fs_pos f + n \<le> fs_pos f' \<and> (0 < n \<or> fs_pos f \<le> length (fs_bytes f) \<longrightarrow> fs_pos f' \<le> length (fs_bytes f))"
  by (auto simp: rd_ok_def dest!: spec [of _ f])

lemma rd_ok_None:
  "rd_ok n m \<Longrightarrow> m f = (None, f') \<Longrightarrow> fs_fail f' \<and> fs_bytes f' = fs_bytes f \<and>
     (fs_good f \<longrightarrow> length (fs_bytes f) \<le> fs_pos f') \<and> (\<not> fs_good f \<longrightarrow> fs_pos f' = fs_pos f)"
  by (auto simp: rd_ok_def dest!: spec [of _ f])

lemma rd_ok_bytes: "rd_ok n (rd_bytes n)"
  by (auto simp: rd_ok_def rd_bytes_def fs_read_def fs_good_def Let_def split: if_splits)

lemma rd_ok_bind:
  assumes "rd_ok a m" "\<And>x. rd_ok b (k x)" "0 < a"
  shows "rd_ok (a + b) (rd_bind m k)"
  unfolding rd_ok_def
proof
  fix f
  show "case rd_bind m k f of
     (Some x, f') \<Rightarrow> (0 < a + b \<longrightarrow> fs_good f) \<and> (fs_good f \<longrightarrow> fs_good f') \<and> fs_bytes f' = fs_bytes f \<and> fs_pos f + (a + b) \<le> fs_pos f' \<and>
       (0 < a + b \<or> fs_pos f \<le> length (fs_bytes f) \<longrightarrow> fs_pos f' \<le> length (fs_bytes f))
   | (None, f') \<Rightarrow> fs_fail f' \<and> fs_bytes f' = fs_bytes f \<and>
       (fs_good f \<longrightarrow> length (fs_bytes f) \<le> fs_pos f') \<and> (\<not> fs_good f \<longrightarrow> fs_pos f' = fs_pos f)"
  proof (cases "m f")
    case (Pair r f1)
    show ?thesis
    proof (cases r)
      case None
      with Pair rd_ok_None [OF assms(1), of f f1] show ?thesis by (simp add: rd_bind_def)
    next
      case (Some x)
      note m = rd_ok_Some [OF assms(1) Pair [unfolded Some]]
      obtain r2 f2 where k: "k x f1 = (r2, f2)" by fastforce
      show ?thesis
      proof (cases r2)
        case None
        with Pair Some k m rd_ok_None [OF assms(2), of x f1 f2] assms(3) show ?thesis
          by (auto simp: rd_bind_def)
      next
        case (Some y)
        with Pair \<open>r = Some x\<close> k m rd_ok_Some [OF assms(2), of x f1 y f2] assms(3) show ?thesis
          by (simp add: rd_bind_def)
      qed
    qed
  qed
qed

lemma rd_ok_weaken:
  assumes "rd_ok n m"
  shows "rd_ok 0 m"
  unfolding rd_ok_def
proof
  fix f
  obtain r f' where "m f = (r, f')" by fastforce
  then show "case m f of
     (Some x, f') \<Rightarrow> (0 < (0::nat) \<longrightarrow> fs_good f) \<and> (fs_good f \<longrightarrow> fs_good f') \<and> fs_bytes f' = fs_bytes f \<and> fs_pos f + 0 \<le> fs_pos f' \<and>
       (0 < (0::nat) \<or> fs_pos f \<le> length (fs_bytes f) \<longrightarrow> fs_pos f' \<le> length (fs_bytes f))
   | (None, f') \<Rightarrow> fs_fail f' \<and> fs_bytes f' = fs_bytes f \<and>
       (fs_good f \<longrightarrow> length (fs_bytes f) \<le> fs_pos f') \<and> (\<not> fs_good f \<longrightarrow> fs_pos f' = fs_pos f)"
    using rd_ok_Some [OF assms, of f _ f'] rd_ok_None [OF assms, of f f'] by (cases r) auto
qed

lemma rd_ok_return: "rd_ok 0 (rd_return x)"
  by (simp add: rd_ok_def rd_return_def)

lemma rd_ok_readStr: "rd_ok 4 readStr"
proof -
  have "rd_ok (4 + 0) readStr" unfolding readStr_def
    by (rule rd_ok_bind [OF rd_ok_bytes]) (simp_all add: rd_ok_weaken [OF rd_ok_bytes])
  then show ?thesis by simp
qed

lemma rd_ok_readRecord: "rd_ok 41 readRecord"
proof -
  have "rd_ok (8 + (8 + (8 + (1 + (4 + (4 + (4 + (4 + 0)))))))) readRecord"
    unfolding readRecord_def
    by (intro rd_ok_bind rd_ok_bytes rd_ok_readStr rd_ok_return) simp_all
  then show ?thesis by simp
qed

text \<open>The loops \<open>while (readRecord(rec))\<close>: every turn takes at least 41 bytes of the file.\<close>

function read_records :: "logRecord list \<Rightarrow> fstream \<Rightarrow> logRecord list \<times> fstream" where
  "read_records acc f = (case readRecord f of
     (None, f') \<Rightarrow> (acc, f') | (Some rec, f') \<Rightarrow> read_records (acc @ [rec]) f')"
  by pat_completeness auto
termination
  by (relation "measure (\<lambda>(acc, f). length (fs_bytes f) - fs_pos f)")
    (auto dest!: sym [of "(Some _, _)" "readRecord _"] rd_ok_Some [OF rd_ok_readRecord])

declare read_records.simps [simp del]

section \<open>The log\<close>

record wal =
  wal_file :: fstream
  wal_nextLsn :: lsn

definition WAL_open :: "string option \<Rightarrow> bool \<Rightarrow> wal option" where
  "WAL_open existing creatable = (case fs_open existing creatable of None \<Rightarrow> None
     | Some f \<Rightarrow> (case read_records [] f of (recs, f') \<Rightarrow>
         Some \<lparr>wal_file = f', wal_nextLsn = foldl (\<lambda>n rec. lr_lsn rec + 1) 1 recs\<rparr>))"

definition wal_append :: "logRecord \<Rightarrow> wal \<Rightarrow> lsn \<times> wal" where
  "wal_append rec w =
    (let rec' = rec\<lparr>lr_lsn := wal_nextLsn w\<rparr>;
         f1 = fs_seekp (length (fs_bytes (wal_file w))) (wal_file w);
         f2 = wal_writeRecord rec' f1
     in (lr_lsn rec', \<lparr>wal_file = f2, wal_nextLsn = wal_nextLsn w + 1\<rparr>))"

text \<open>\<open>flush\<close> hands buffered bytes to the file; in the model they are there already.\<close>

definition wal_readAll :: "wal \<Rightarrow> logRecord list \<times> wal" where
  "wal_readAll w =
    (let f1 = fs_seekg 0 (wal_file w);
         f2 = fs_clear f1
     in case read_records [] f2 of (recs, f3) \<Rightarrow> (recs, w\<lparr>wal_file := f3\<rparr>))"

section \<open>A record and its bytes\<close>

definition str_bytes :: "string \<Rightarrow> string" where
  "str_bytes s = le_bytes 4 (length s) @ s"

definition rec_bytes :: "logRecord \<Rightarrow> string" where
  "rec_bytes rec = le_bytes 8 (unat (lr_lsn rec)) @ le_bytes 8 (unat (lr_prevLsn rec)) @
     le_bytes 8 (unat (lr_txnId rec)) @ le_bytes 1 (type_byte (lr_type rec)) @
     str_bytes (lr_table rec) @ str_bytes (lr_key rec) @ str_bytes (lr_oldValue rec) @ str_bytes (lr_newValue rec)"

text \<open>The strings' lengths fit in 32 bits, and an unknown type is another byte.\<close>

definition rec_fits :: "logRecord \<Rightarrow> bool" where
  "rec_fits rec \<longleftrightarrow> length (lr_table rec) < 2 ^ 32 \<and> length (lr_key rec) < 2 ^ 32 \<and>
     length (lr_oldValue rec) < 2 ^ 32 \<and> length (lr_newValue rec) < 2 ^ 32 \<and>
     (case lr_type rec of LgUnknown n \<Rightarrow> 5 < n \<and> n < 256 | _ \<Rightarrow> True)"

lemma type_roundtrip:
  "(case t of LgUnknown n \<Rightarrow> 5 < n \<and> n < 256 | _ \<Rightarrow> True) \<Longrightarrow> byte_type (type_byte t) = t \<and> type_byte t < 256"
  by (auto simp: byte_type_def type_byte_def split: logType.splits)

lemma writeStr_bytes: "length s < 2 ^ 32 \<Longrightarrow> writeStr s f = fs_write (str_bytes s) f"
  by (simp add: writeStr_def str_bytes_def fs_write_write)

lemma wal_writeRecord_bytes: "rec_fits rec \<Longrightarrow> wal_writeRecord rec f = fs_write (rec_bytes rec) f"
  by (simp add: wal_writeRecord_def rec_bytes_def rec_fits_def writeStr_bytes fs_write_write Let_def)

definition feeds :: "'a reader \<Rightarrow> string \<Rightarrow> 'a \<Rightarrow> bool" where
  "feeds m bs x \<longleftrightarrow> (\<forall>f rest. fs_good f \<longrightarrow> drop (fs_pos f) (fs_bytes f) = bs @ rest \<longrightarrow>
     m f = (Some x, f\<lparr>fs_pos := fs_pos f + length bs\<rparr>))"

lemma feedsD:
  "feeds m bs x \<Longrightarrow> fs_good f \<Longrightarrow> drop (fs_pos f) (fs_bytes f) = bs @ rest \<Longrightarrow>
   m f = (Some x, f\<lparr>fs_pos := fs_pos f + length bs\<rparr>)"
  by (simp add: feeds_def)

lemma feeds_bytes: "length bs = n \<Longrightarrow> feeds (rd_bytes n) bs bs"
  by (auto simp: feeds_def rd_bytes_def fs_read_good fs_good_def)

lemma feeds_return: "feeds (rd_return x) [] x"
  by (simp add: feeds_def rd_return_def)

lemma feeds_bind:
  assumes "feeds m as x" "feeds (k x) bs y"
  shows "feeds (rd_bind m k) (as @ bs) y"
  unfolding feeds_def
proof (intro allI impI)
  fix f rest
  assume f: "fs_good f" "drop (fs_pos f) (fs_bytes f) = (as @ bs) @ rest"
  let ?f1 = "f\<lparr>fs_pos := fs_pos f + length as\<rparr>"
  have 1: "m f = (Some x, ?f1)" using feedsD [OF assms(1) f(1)] f(2) by simp
  have "drop (fs_pos ?f1) (fs_bytes ?f1) = drop (length as) (drop (fs_pos f) (fs_bytes f))"
    by (simp add: add.commute)
  then have "drop (fs_pos ?f1) (fs_bytes ?f1) = bs @ rest" by (simp add: f(2))
  moreover have "fs_good ?f1" using f(1) by (simp add: fs_good_def)
  ultimately have "k x ?f1 = (Some y, ?f1\<lparr>fs_pos := fs_pos ?f1 + length bs\<rparr>)"
    using feedsD [OF assms(2)] by blast
  with 1 show "rd_bind m k f = (Some y, f\<lparr>fs_pos := fs_pos f + length (as @ bs)\<rparr>)"
    by (simp add: rd_bind_def add.assoc)
qed

lemma feeds_readStr: "length s < 2 ^ 32 \<Longrightarrow> feeds readStr (str_bytes s) s"
  unfolding readStr_def str_bytes_def
  by (rule feeds_bind [OF feeds_bytes]) (simp_all add: le_val_bytes feeds_bytes)

lemma feeds_readRecord:
  assumes "rec_fits rec"
  shows "feeds readRecord (rec_bytes rec) rec"
proof -
  have word: "(of_nat (unat x mod 18446744073709551616) :: 64 word) = x" for x :: "64 word"
  proof -
    have "unat x < 2 ^ LENGTH(64)" by (rule unsigned_less)
    then show ?thesis by simp
  qed
  note type = type_roundtrip [of "lr_type rec"]
  have "feeds readRecord (le_bytes 8 (unat (lr_lsn rec)) @ le_bytes 8 (unat (lr_prevLsn rec)) @
     le_bytes 8 (unat (lr_txnId rec)) @ le_bytes 1 (type_byte (lr_type rec)) @
     str_bytes (lr_table rec) @ str_bytes (lr_key rec) @ str_bytes (lr_oldValue rec) @
     str_bytes (lr_newValue rec) @ []) rec"
    unfolding readRecord_def
  proof (intro feeds_bind [OF feeds_bytes] feeds_bind [OF feeds_readStr])
    show "feeds (rd_return \<lparr>lr_lsn = of_nat (le_val (le_bytes 8 (unat (lr_lsn rec)))),
        lr_prevLsn = of_nat (le_val (le_bytes 8 (unat (lr_prevLsn rec)))),
        lr_txnId = of_nat (le_val (le_bytes 8 (unat (lr_txnId rec)))),
        lr_type = byte_type (le_val (le_bytes 1 (type_byte (lr_type rec)))), lr_table = lr_table rec,
        lr_key = lr_key rec, lr_oldValue = lr_oldValue rec, lr_newValue = lr_newValue rec\<rparr>) [] rec"
      using type assms by (cases rec) (simp add: le_val_bytes word rec_fits_def feeds_return)
  qed (use assms in \<open>simp_all add: rec_fits_def\<close>)
  then show ?thesis by (simp add: rec_bytes_def)
qed

lemma read_records_feed:
  assumes "list_all rec_fits recs" "fs_good f" "drop (fs_pos f) (fs_bytes f) = concat (map rec_bytes recs)"
  shows "\<exists>f'. read_records acc f = (acc @ recs, f') \<and> fs_bytes f' = fs_bytes f \<and>
    fs_fail f' \<and> length (fs_bytes f) \<le> fs_pos f'"
  using assms
proof (induction recs arbitrary: acc f)
  case Nil
  obtain r f' where r: "readRecord f = (r, f')" by fastforce
  show ?case
  proof (cases r)
    case None
    then show ?thesis using r Nil rd_ok_None [OF rd_ok_readRecord, of f f']
      by (auto simp: read_records.simps [of acc f])
  next
    case (Some x)
    then show ?thesis using r Nil rd_ok_Some [OF rd_ok_readRecord, of f x f'] by auto
  qed
next
  case (Cons rec recs)
  let ?f1 = "f\<lparr>fs_pos := fs_pos f + length (rec_bytes rec)\<rparr>"
  have d: "drop (fs_pos f) (fs_bytes f) = rec_bytes rec @ concat (map rec_bytes recs)" using Cons.prems by simp
  then have 1: "readRecord f = (Some rec, ?f1)"
    using feedsD [OF feeds_readRecord Cons.prems(2)] Cons.prems(1) by simp
  have "drop (fs_pos ?f1) (fs_bytes ?f1) = drop (length (rec_bytes rec)) (drop (fs_pos f) (fs_bytes f))"
    by (simp add: add.commute)
  then have "drop (fs_pos ?f1) (fs_bytes ?f1) = concat (map rec_bytes recs)" by (simp add: d)
  moreover have "fs_good ?f1" using Cons.prems(2) by (simp add: fs_good_def)
  ultimately show ?case using Cons.IH [of ?f1 "acc @ [rec]"] Cons.prems(1) 1
    by (simp add: read_records.simps [of acc f])
qed

text \<open>
  C17. The record format is right: on a stream in a good state, what \<open>append\<close> writes after the
  records of the file is read back by \<open>readAll\<close> as those records and the new one, with the
  sequence number \<open>append\<close> gave it and every other field as it was.
\<close>

theorem wal_append_readAll:
  assumes "fs_good (wal_file w)" "fs_bytes (wal_file w) = concat (map rec_bytes recs)"
    "list_all rec_fits recs" "rec_fits rec" "wal_append rec w = (n, w')"
  shows "n = wal_nextLsn w \<and> wal_nextLsn w' = n + 1 \<and> fst (wal_readAll w') = recs @ [rec\<lparr>lr_lsn := n\<rparr>]"
proof -
  let ?rec = "rec\<lparr>lr_lsn := wal_nextLsn w\<rparr>"
  have fits: "rec_fits ?rec" using assms(4) by (simp add: rec_fits_def)
  have w': "n = wal_nextLsn w" "wal_nextLsn w' = wal_nextLsn w + 1" "fs_good (wal_file w')"
    "fs_bytes (wal_file w') = concat (map rec_bytes (recs @ [?rec]))"
    using assms(1,2,5) fits by (auto simp: wal_append_def wal_writeRecord_bytes fs_write_def fs_seekp_def fs_good_def Let_def)
  let ?f = "fs_clear (fs_seekg 0 (wal_file w'))"
  have "fs_good ?f" "drop (fs_pos ?f) (fs_bytes ?f) = concat (map rec_bytes (recs @ [?rec]))"
    using w' by (simp_all add: fs_clear_def fs_seekg_def fs_good_def Let_def)
  then obtain f' where "read_records [] ?f = (recs @ [?rec], f')"
    using read_records_feed [of "recs @ [?rec]" ?f "[]"] assms(3) fits by auto
  then show ?thesis using w' by (simp add: wal_readAll_def Let_def)
qed

theorem wal_append_readAll_witness:
  "(1::lsn) = 1 \<and>
   wal_nextLsn (snd (wal_append \<lparr>lr_lsn = 0, lr_prevLsn = 0, lr_txnId = 9, lr_type = LgInsert,
     lr_table = ''users'', lr_key = ''1'', lr_oldValue = [], lr_newValue = ''id=1;''\<rparr>
     \<lparr>wal_file = \<lparr>fs_bytes = [], fs_pos = 0, fs_eof = False, fs_fail = False\<rparr>, wal_nextLsn = 1\<rparr>)) = 1 + 1 \<and>
   fst (wal_readAll (snd (wal_append \<lparr>lr_lsn = 0, lr_prevLsn = 0, lr_txnId = 9, lr_type = LgInsert,
     lr_table = ''users'', lr_key = ''1'', lr_oldValue = [], lr_newValue = ''id=1;''\<rparr>
     \<lparr>wal_file = \<lparr>fs_bytes = [], fs_pos = 0, fs_eof = False, fs_fail = False\<rparr>, wal_nextLsn = 1\<rparr>))) =
   [\<lparr>lr_lsn = 1, lr_prevLsn = 0, lr_txnId = 9, lr_type = LgInsert,
     lr_table = ''users'', lr_key = ''1'', lr_oldValue = [], lr_newValue = ''id=1;''\<rparr>]"
proof -
  let ?rec = "\<lparr>lr_lsn = 0, lr_prevLsn = 0, lr_txnId = 9, lr_type = LgInsert,
     lr_table = ''users'', lr_key = ''1'', lr_oldValue = [], lr_newValue = ''id=1;''\<rparr>"
  let ?w = "\<lparr>wal_file = \<lparr>fs_bytes = [], fs_pos = 0, fs_eof = False, fs_fail = False\<rparr>, wal_nextLsn = 1\<rparr>"
  have "wal_append ?rec ?w = (1, snd (wal_append ?rec ?w))" by (simp add: wal_append_def Let_def)
  from wal_append_readAll [OF _ _ _ _ this, of "[]"] show ?thesis
    by (simp add: fs_good_def rec_fits_def)
qed

section \<open>The log after its constructor\<close>

text \<open>
  The constructor reads until a read fails, and every later operation leaves the stream as
  failed as it found it: \<open>dead\<close>.
\<close>

definition dead :: "string \<Rightarrow> wal \<Rightarrow> bool" where
  "dead bytes w \<longleftrightarrow> fs_bytes (wal_file w) = bytes \<and> fs_fail (wal_file w) \<and> length bytes \<le> fs_pos (wal_file w)"

lemma read_records_dead:
  assumes "fs_good f"
  shows "fs_bytes (snd (read_records acc f)) = fs_bytes f \<and> fs_fail (snd (read_records acc f)) \<and>
    length (fs_bytes f) \<le> fs_pos (snd (read_records acc f))"
  using assms
proof (induction acc f rule: read_records.induct)
  case (1 acc f)
  obtain r f' where r: "readRecord f = (r, f')" by fastforce
  show ?case
  proof (cases r)
    case None
    then show ?thesis using r 1 rd_ok_None [OF rd_ok_readRecord, of f f']
      by (auto simp: read_records.simps [of acc f])
  next
    case (Some x)
    then show ?thesis using r 1 rd_ok_Some [OF rd_ok_readRecord, of f x f']
      by (simp add: read_records.simps [of acc f])
  qed
qed

lemma read_records_end:
  assumes "fs_good f" "length (fs_bytes f) \<le> fs_pos f"
  shows "fst (read_records acc f) = acc"
proof -
  obtain r f' where r: "readRecord f = (r, f')" by fastforce
  show ?thesis
    using r assms rd_ok_Some [OF rd_ok_readRecord, of f _ f'] by (cases r) (auto simp: read_records.simps [of acc f])
qed

lemma fs_write_failed: "fs_fail f \<Longrightarrow> fs_write bs f = f"
  by (simp add: fs_write_def fs_good_def)

lemma wal_writeRecord_failed: "fs_fail f \<Longrightarrow> wal_writeRecord rec f = f"
  by (simp add: wal_writeRecord_def writeStr_def fs_write_failed Let_def)

lemma WAL_open_dead:
  assumes "WAL_open existing creatable = Some w"
  shows "dead (case existing of None \<Rightarrow> [] | Some bytes \<Rightarrow> bytes) w"
proof -
  obtain f where f: "fs_open existing creatable = Some f"
    using assms by (auto simp: WAL_open_def split: option.splits)
  then have "fs_good f" "fs_bytes f = (case existing of None \<Rightarrow> [] | Some bytes \<Rightarrow> bytes)"
    by (auto simp: fs_open_def fs_good_def split: option.splits if_splits)
  then show ?thesis using assms f read_records_dead [of f "[]"]
    by (auto simp: WAL_open_def dead_def split: prod.splits)
qed

lemma wal_append_dead [inv_intros]: "dead bytes w \<Longrightarrow> dead bytes (snd (wal_append rec w))"
  by (simp add: dead_def wal_append_def fs_seekp_def wal_writeRecord_failed Let_def)

lemma wal_readAll_dead:
  assumes "dead bytes w"
  shows "fst (wal_readAll w) = [] \<and> dead bytes (snd (wal_readAll w))"
proof -
  let ?f = "fs_clear (fs_seekg 0 (wal_file w))"
  have f: "fs_good ?f" "fs_bytes ?f = bytes" "length bytes \<le> fs_pos ?f"
    using assms by (simp_all add: dead_def fs_clear_def fs_seekg_def fs_good_def Let_def)
  then have "fst (read_records [] ?f) = []" by (simp add: read_records_end)
  moreover have "dead bytes (w\<lparr>wal_file := snd (read_records [] ?f)\<rparr>)"
    using read_records_dead [OF f(1), of "[]"] f(2) by (auto simp: dead_def)
  ultimately show ?thesis by (cases "read_records [] ?f") (simp add: wal_readAll_def Let_def)
qed

end
