(* ===== verification/Recovery.thy ===== *)
theory Recovery
  imports Wal Transaction
begin

text \<open>
  Recovery (\<open>WAL::recover\<close>, src/wal.cpp): the committed transactions' records are redone in the
  order of the log, then the records of all the others are undone in the reverse order.
\<close>

section \<open>The code\<close>

text \<open>\<open>storage[t]\<close> creates an absent table empty.\<close>

definition table_of :: "table_storage \<Rightarrow> string \<Rightarrow> row list" where
  "table_of storage t = (case storage t of None \<Rightarrow> [] | Some rows \<Rightarrow> rows)"

definition has_key :: "string \<Rightarrow> row \<Rightarrow> bool" where
  "has_key key r \<longleftrightarrow> fmlookup r ''id'' = Some key"

text \<open>
  The first row with the key is replaced; \<open>row["id"]\<close> is a lookup that inserts an empty \<open>id\<close>
  into each row it looks at and does not find one in. The result says whether one was found.
\<close>

fun replace_first :: "string \<Rightarrow> row \<Rightarrow> row list \<Rightarrow> row list \<times> bool" where
  "replace_first key new [] = ([], False)"
| "replace_first key new (r # rs) =
    (let r' = (case fmlookup r ''id'' of None \<Rightarrow> fmupd ''id'' [] r | Some _ \<Rightarrow> r) in
     if fmlookup r' ''id'' = Some key then (new # rs, True)
     else case replace_first key new rs of (rs', found) \<Rightarrow> (r' # rs', found))"

definition redo :: "logRecord \<Rightarrow> table_storage \<Rightarrow> table_storage" where
  "redo rec storage = (let t = lr_table rec; rows = table_of storage t in
     case lr_type rec of
       LgInsert \<Rightarrow>
         if \<exists>r\<in>set rows. has_key (lr_key rec) r then storage(t \<mapsto> rows)
         else storage(t \<mapsto> rows @ [deserializeRow (lr_newValue rec)])
     | LgUpdate \<Rightarrow>
         (case replace_first (lr_key rec) (deserializeRow (lr_newValue rec)) rows of
            (rows', True) \<Rightarrow> storage(t \<mapsto> rows')
          | (rows', False) \<Rightarrow> storage(t \<mapsto> rows' @ [deserializeRow (lr_newValue rec)]))
     | LgDelete \<Rightarrow> storage(t \<mapsto> filter (\<lambda>r. \<not> has_key (lr_key rec) r) rows)
     | _ \<Rightarrow> storage)"

definition undo :: "logRecord \<Rightarrow> table_storage \<Rightarrow> table_storage" where
  "undo rec storage = (let t = lr_table rec; rows = table_of storage t in
     case lr_type rec of
       LgInsert \<Rightarrow> storage(t \<mapsto> filter (\<lambda>r. \<not> has_key (lr_key rec) r) rows)
     | LgUpdate \<Rightarrow> storage(t \<mapsto> fst (replace_first (lr_key rec) (deserializeRow (lr_oldValue rec)) rows))
     | LgDelete \<Rightarrow> storage(t \<mapsto> fst (replace_first (lr_key rec) (deserializeRow (lr_oldValue rec)) rows))
     | _ \<Rightarrow> storage)"

definition committed_txns :: "logRecord list \<Rightarrow> txn_id set" where
  "committed_txns recs = lr_txnId ` set (filter (\<lambda>rec. lr_type rec = LgCommit) recs)"

definition recover_records :: "logRecord list \<Rightarrow> table_storage \<Rightarrow> table_storage" where
  "recover_records recs storage =
    (let committed = committed_txns recs;
         redone = fold redo (filter (\<lambda>rec. lr_txnId rec \<in> committed) recs) storage
     in fold undo (filter (\<lambda>rec. lr_txnId rec \<notin> committed) (rev recs)) redone)"

definition wal_recover :: "table_storage \<Rightarrow> wal \<Rightarrow> table_storage \<times> wal" where
  "wal_recover storage w = (case wal_readAll w of (recs, w') \<Rightarrow> (recover_records recs storage, w'))"


text \<open>The states a log goes through, from its constructor on, whatever it is asked.\<close>

inductive wal_reach :: "string option \<Rightarrow> bool \<Rightarrow> wal \<Rightarrow> bool" for existing creatable where
  wal_opened: "WAL_open existing creatable = Some w \<Longrightarrow> wal_reach existing creatable w"
| wal_appended: "wal_reach existing creatable w \<Longrightarrow> wal_reach existing creatable (snd (wal_append rec w))"
| wal_read: "wal_reach existing creatable w \<Longrightarrow> wal_reach existing creatable (snd (wal_readAll w))"
| wal_recovered: "wal_reach existing creatable w \<Longrightarrow> wal_reach existing creatable (snd (wal_recover storage w))"

lemma wal_recover_dead:
  "dead bytes w \<Longrightarrow> fst (wal_recover storage w) = recover_records [] storage \<and> dead bytes (snd (wal_recover storage w))"
  using wal_readAll_dead [of bytes w] by (cases "wal_readAll w") (simp add: wal_recover_def)

lemma wal_reach_dead:
  "wal_reach existing creatable w \<Longrightarrow> dead (case existing of None \<Rightarrow> [] | Some bytes \<Rightarrow> bytes) w"
  by (induction rule: wal_reach.induct)
     (auto simp: WAL_open_dead wal_append_dead wal_readAll_dead wal_recover_dead)

lemma recover_nothing [simp]: "recover_records [] storage = storage"
  by (simp add: recover_records_def)

text \<open>
  C18. The log the program opens logs nothing. The constructor's loop ends with a failed read,
  the error state is never reset before a write, and \<open>readAll\<close> seeks before it clears the
  state, so the seek does nothing: after any sequence of operations the file is what it was
  before the program started, \<open>readAll\<close> finds no record in it and \<open>recover\<close> changes nothing.
\<close>

theorem wal_never_writes:
  assumes "wal_reach existing creatable w"
  shows "fs_bytes (wal_file w) = (case existing of None \<Rightarrow> [] | Some bytes \<Rightarrow> bytes) \<and>
    fst (wal_readAll w) = [] \<and> fst (wal_recover storage w) = storage"
  using wal_reach_dead [OF assms] wal_readAll_dead wal_recover_dead by (fastforce simp: dead_def)

theorem wal_never_writes_witness:
  "\<exists>w. fs_bytes (wal_file w) = [] \<and> fst (wal_readAll w) = [] \<and>
    fst (wal_recover [''users'' \<mapsto> []] w) = [''users'' \<mapsto> []]"
proof -
  have "\<exists>w. WAL_open None True = Some w" by (simp add: WAL_open_def fs_open_def split: prod.splits)
  then obtain w where "WAL_open None True = Some w" ..
  then have "wal_reach None True (snd (wal_append \<lparr>lr_lsn = 0, lr_prevLsn = 0, lr_txnId = 9, lr_type = LgBegin,
     lr_table = [], lr_key = [], lr_oldValue = [], lr_newValue = []\<rparr> w))"
    by (intro wal_appended wal_opened)
  from wal_never_writes [OF this] show ?thesis by auto
qed

section \<open>Tables as maps from keys to rows\<close>

text \<open>
  What recovery is meant to do is stated over tables as maps from the value of \<open>id\<close> to the row
  (\<open>view\<close>), for tables whose rows have an \<open>id\<close> of their own each.
\<close>

definition keyed :: "row list \<Rightarrow> bool" where
  "keyed rows \<longleftrightarrow> list_all (\<lambda>r. fmlookup r ''id'' \<noteq> None) rows \<and> distinct (map row_key rows)"

definition rows_view :: "row list \<Rightarrow> string \<rightharpoonup> row" where
  "rows_view rows = map_of (map (\<lambda>r. (row_key r, r)) rows)"

definition view :: "table_storage \<Rightarrow> string \<Rightarrow> string \<rightharpoonup> row" where
  "view storage t = rows_view (table_of storage t)"

definition spec_redo :: "logRecord \<Rightarrow> (string \<Rightarrow> string \<rightharpoonup> row) \<Rightarrow> string \<Rightarrow> string \<rightharpoonup> row" where
  "spec_redo rec v = (let t = lr_table rec; k = lr_key rec; new = deserializeRow (lr_newValue rec) in
     case lr_type rec of
       LgInsert \<Rightarrow> if v t k = None then v(t := (v t)(k \<mapsto> new)) else v
     | LgUpdate \<Rightarrow> v(t := (v t)(k \<mapsto> new))
     | LgDelete \<Rightarrow> v(t := (v t)(k := None))
     | _ \<Rightarrow> v)"

definition spec_undo :: "logRecord \<Rightarrow> (string \<Rightarrow> string \<rightharpoonup> row) \<Rightarrow> string \<Rightarrow> string \<rightharpoonup> row" where
  "spec_undo rec v = (let t = lr_table rec; k = lr_key rec; old = deserializeRow (lr_oldValue rec) in
     case lr_type rec of
       LgInsert \<Rightarrow> v(t := (v t)(k := None))
     | LgUpdate \<Rightarrow> if v t k = None then v else v(t := (v t)(k \<mapsto> old))
     | LgDelete \<Rightarrow> if v t k = None then v else v(t := (v t)(k \<mapsto> old))
     | _ \<Rightarrow> v)"

text \<open>The rows a record holds carry its key.\<close>

definition rec_keyed :: "logRecord \<Rightarrow> bool" where
  "rec_keyed rec \<longleftrightarrow>
    (lr_type rec \<in> {LgInsert, LgUpdate} \<longrightarrow> has_key (lr_key rec) (deserializeRow (lr_newValue rec))) \<and>
    (lr_type rec \<in> {LgUpdate, LgDelete} \<longrightarrow> has_key (lr_key rec) (deserializeRow (lr_oldValue rec)))"

lemma has_key_row_key: "has_key k r \<longleftrightarrow> fmlookup r ''id'' \<noteq> None \<and> row_key r = k"
  by (auto simp: has_key_def row_key_def split: option.splits)

lemma rows_view_None: "rows_view rows k = None \<longleftrightarrow> k \<notin> row_key ` set rows"
  by (simp add: rows_view_def map_of_eq_None_iff image_image)

lemma keyed_ex_key: "keyed rows \<Longrightarrow> (\<exists>r\<in>set rows. has_key k r) \<longleftrightarrow> rows_view rows k \<noteq> None"
  by (auto simp: rows_view_None has_key_row_key keyed_def list_all_iff)

lemma keyed_snoc:
  "keyed rows \<Longrightarrow> has_key k r \<Longrightarrow> rows_view rows k = None \<Longrightarrow>
   keyed (rows @ [r]) \<and> rows_view (rows @ [r]) = (rows_view rows)(k \<mapsto> r)"
  by (cases "row_key r \<in> row_key ` set rows")
     (auto simp: keyed_def rows_view_None has_key_row_key fun_eq_iff rows_view_def map_add_def
        map_of_eq_None_iff image_image eq_commute [of None "map_of _ _"] split: option.splits dest!: map_of_SomeD)

lemma keyed_filter:
  "keyed rows \<Longrightarrow> keyed (filter (\<lambda>r. \<not> has_key k r) rows) \<and>
   rows_view (filter (\<lambda>r. \<not> has_key k r) rows) = (rows_view rows)(k := None)"
  by (induction rows) (auto simp: keyed_def rows_view_def has_key_row_key fun_eq_iff)

lemma keyed_replace:
  assumes "keyed rows" "has_key k new"
  shows "keyed (fst (replace_first k new rows)) \<and>
    rows_view (fst (replace_first k new rows)) =
      (if rows_view rows k = None then rows_view rows else (rows_view rows)(k \<mapsto> new)) \<and>
    row_key ` set (fst (replace_first k new rows)) = row_key ` set rows \<and>
    (snd (replace_first k new rows) \<longleftrightarrow> rows_view rows k \<noteq> None)"
  using assms
proof (induction rows)
  case Nil
  then show ?case by (simp add: rows_view_def)
next
  case (Cons r rs)
  obtain rs' found where r: "replace_first k new rs = (rs', found)" by fastforce
  have k: "fmlookup r ''id'' = Some (row_key r)" "fmlookup new ''id'' = Some k" "row_key new = k"
    using Cons.prems by (auto simp: keyed_def row_key_def has_key_def)
  show ?case
  proof (cases "row_key r = k")
    case True
    then show ?thesis using k Cons.prems by (auto simp: keyed_def rows_view_def fun_eq_iff)
  next
    case False
    then show ?thesis using k r Cons by (auto simp: keyed_def rows_view_def fun_eq_iff)
  qed
qed

definition keyed_storage :: "table_storage \<Rightarrow> bool" where
  "keyed_storage storage \<longleftrightarrow> (\<forall>t. keyed (table_of storage t))"

lemma keyed_upd:
  "keyed_storage storage \<Longrightarrow> keyed rows \<Longrightarrow> keyed_storage (storage(t \<mapsto> rows))"
  by (simp add: keyed_storage_def table_of_def)

lemma view_upd: "view (storage(t \<mapsto> rows)) = (view storage)(t := rows_view rows)"
  by (simp add: fun_eq_iff view_def table_of_def)

lemma redo_refines:
  assumes "keyed_storage storage" "rec_keyed rec"
  shows "keyed_storage (redo rec storage) \<and> view (redo rec storage) = spec_redo rec (view storage)"
proof -
  let ?t = "lr_table rec"
  let ?rows = "table_of storage ?t"
  let ?new = "deserializeRow (lr_newValue rec)"
  have k: "keyed ?rows" using assms(1) by (simp add: keyed_storage_def)
  have v: "view storage ?t = rows_view ?rows" by (simp add: view_def)
  show ?thesis
  proof (cases "lr_type rec")
    case LgInsert
    then have n: "has_key (lr_key rec) ?new" using assms(2) by (simp add: rec_keyed_def)
    show ?thesis
    proof (cases "rows_view ?rows (lr_key rec)")
      case None
      then show ?thesis using LgInsert k v assms(1) keyed_ex_key [OF k] keyed_snoc [OF k n None]
        by (simp add: redo_def spec_redo_def Let_def keyed_upd view_upd)
    next
      case (Some r)
      then show ?thesis using LgInsert k v assms(1) keyed_ex_key [OF k]
        by (simp add: redo_def spec_redo_def Let_def keyed_upd view_upd fun_upd_idem)
    qed
  next
    case LgUpdate
    then have n: "has_key (lr_key rec) ?new" using assms(2) by (simp add: rec_keyed_def)
    obtain rows' found where r: "replace_first (lr_key rec) ?new ?rows = (rows', found)" by fastforce
    note rep = keyed_replace [OF k n, unfolded r fst_conv snd_conv]
    show ?thesis
    proof (cases found)
      case True
      then show ?thesis using LgUpdate rep r v assms(1)
        by (auto simp: redo_def spec_redo_def Let_def keyed_upd view_upd)
    next
      case False
      with rep have none: "rows_view rows' (lr_key rec) = None" by simp
      with False show ?thesis using LgUpdate rep r v assms(1) keyed_snoc [OF _ n none]
        by (simp add: redo_def spec_redo_def Let_def keyed_upd view_upd)
    qed
  next
    case LgDelete
    then show ?thesis using keyed_filter [OF k] assms(1) v
      by (simp add: redo_def spec_redo_def Let_def keyed_upd view_upd)
  qed (use assms in \<open>simp_all add: redo_def spec_redo_def Let_def\<close>)
qed

lemma undo_refines:
  assumes "keyed_storage storage" "rec_keyed rec"
  shows "keyed_storage (undo rec storage) \<and> view (undo rec storage) = spec_undo rec (view storage)"
proof -
  let ?rows = "table_of storage (lr_table rec)"
  have k: "keyed ?rows" using assms(1) by (simp add: keyed_storage_def)
  have v: "view storage (lr_table rec) = rows_view ?rows" by (simp add: view_def)
  have rep: "keyed_storage (storage(lr_table rec \<mapsto> fst (replace_first (lr_key rec) old ?rows))) \<and>
     view (storage(lr_table rec \<mapsto> fst (replace_first (lr_key rec) old ?rows))) =
      (if view storage (lr_table rec) (lr_key rec) = None then view storage
       else (view storage)(lr_table rec := (view storage (lr_table rec))(lr_key rec \<mapsto> old)))"
    if "has_key (lr_key rec) old" for old
    using keyed_replace [OF k that] v assms(1) by (simp add: keyed_upd view_upd fun_upd_idem)
  show ?thesis
    using assms keyed_filter [OF k] v rep [of "deserializeRow (lr_oldValue rec)"]
    by (cases "lr_type rec") (auto simp: undo_def spec_undo_def rec_keyed_def Let_def keyed_upd view_upd)
qed

lemma fold_refines:
  assumes step: "\<And>rec s. keyed_storage s \<Longrightarrow> rec_keyed rec \<Longrightarrow> keyed_storage (f rec s) \<and> view (f rec s) = g rec (view s)"
    and "keyed_storage storage" "list_all rec_keyed recs"
  shows "keyed_storage (fold f recs storage) \<and> view (fold f recs storage) = fold g recs (view storage)"
  using assms(2,3)
proof (induction recs arbitrary: storage)
  case (Cons rec recs)
  then show ?case using step [of storage rec] Cons.IH [of "f rec storage"] by simp
qed simp

definition spec_recover :: "logRecord list \<Rightarrow> (string \<Rightarrow> string \<rightharpoonup> row) \<Rightarrow> string \<Rightarrow> string \<rightharpoonup> row" where
  "spec_recover recs v =
    fold spec_undo (filter (\<lambda>rec. lr_txnId rec \<notin> committed_txns recs) (rev recs))
      (fold spec_redo (filter (\<lambda>rec. lr_txnId rec \<in> committed_txns recs) recs) v)"

lemma recover_view:
  assumes "keyed_storage storage" "list_all rec_keyed recs"
  shows "keyed_storage (recover_records recs storage) \<and>
    view (recover_records recs storage) = spec_recover recs (view storage)"
proof -
  let ?c = "\<lambda>rec. lr_txnId rec \<in> committed_txns recs"
  have f: "list_all rec_keyed (filter ?c recs)" "list_all rec_keyed (filter (\<lambda>r. \<not> ?c r) (rev recs))"
    using assms(2) by (auto simp: list_all_iff)
  note redone = fold_refines [of redo spec_redo, OF redo_refines assms(1) f(1)]
  note undone = fold_refines [of undo spec_undo, OF undo_refines conjunct1 [OF redone] f(2)]
  from redone undone show ?thesis by (simp add: recover_records_def spec_recover_def Let_def)
qed

section \<open>One key at a time\<close>

definition touches :: "string \<Rightarrow> string \<Rightarrow> logRecord \<Rightarrow> bool" where
  "touches t k rec \<longleftrightarrow> lr_table rec = t \<and> lr_key rec = k \<and> lr_type rec \<in> {LgInsert, LgUpdate, LgDelete}"

definition key_redo :: "string \<Rightarrow> string \<Rightarrow> logRecord \<Rightarrow> row option \<Rightarrow> row option" where
  "key_redo t k rec x = (if lr_table rec \<noteq> t \<or> lr_key rec \<noteq> k then x else
     case lr_type rec of
       LgInsert \<Rightarrow> (case x of None \<Rightarrow> Some (deserializeRow (lr_newValue rec)) | Some _ \<Rightarrow> x)
     | LgUpdate \<Rightarrow> Some (deserializeRow (lr_newValue rec))
     | LgDelete \<Rightarrow> None
     | _ \<Rightarrow> x)"

definition key_undo :: "string \<Rightarrow> string \<Rightarrow> logRecord \<Rightarrow> row option \<Rightarrow> row option" where
  "key_undo t k rec x = (if lr_table rec \<noteq> t \<or> lr_key rec \<noteq> k then x else
     case lr_type rec of
       LgInsert \<Rightarrow> None
     | LgUpdate \<Rightarrow> map_option (\<lambda>_. deserializeRow (lr_oldValue rec)) x
     | LgDelete \<Rightarrow> map_option (\<lambda>_. deserializeRow (lr_oldValue rec)) x
     | _ \<Rightarrow> x)"

lemma spec_redo_key: "spec_redo rec v t k = key_redo t k rec (v t k)"
  by (auto simp: spec_redo_def key_redo_def Let_def split: logType.splits option.splits)

lemma spec_undo_key: "spec_undo rec v t k = key_undo t k rec (v t k)"
  by (cases "v (lr_table rec) (lr_key rec)")
     (auto simp: spec_undo_def key_undo_def Let_def split: logType.splits)

lemma fold_spec_redo_key: "fold spec_redo recs v t k = fold (key_redo t k) recs (v t k)"
  by (induction recs arbitrary: v) (simp_all add: spec_redo_key)

lemma fold_spec_undo_key: "fold spec_undo recs v t k = fold (key_undo t k) recs (v t k)"
  by (induction recs arbitrary: v) (simp_all add: spec_undo_key)

lemma untouched:
  "\<not> touches t k rec \<Longrightarrow> key_redo t k rec x = x" "\<not> touches t k rec \<Longrightarrow> key_undo t k rec x = x"
  by (auto simp: touches_def key_redo_def key_undo_def split: logType.splits)

lemma fold_untouched:
  "list_all (\<lambda>rec. \<not> touches t k rec) recs \<Longrightarrow> fold (key_redo t k) recs x = x"
  "list_all (\<lambda>rec. \<not> touches t k rec) recs \<Longrightarrow> fold (key_undo t k) recs x = x"
  by (induction recs) (simp_all add: untouched)

text \<open>
  The outcome for one key, in closed form. \<open>changes\<close> are the records of the key, of the transactions
  in the given set, in the order of the log. \<open>replayed\<close>: the row of the last UPDATE since the last DELETE;
  without one, the row that was there before, unless a DELETE removed it; without one, the row
  of the first INSERT since then. \<open>unwound\<close>: no row if there is none to begin with or an undone
  transaction inserted it; else the row as the first change of an undone transaction found it.
\<close>

definition changes :: "string \<Rightarrow> string \<Rightarrow> txn_id set \<Rightarrow> logRecord list \<Rightarrow> logRecord list" where
  "changes t k txns recs = filter (\<lambda>rec. touches t k rec \<and> lr_txnId rec \<in> txns) recs"

definition since_delete :: "logRecord list \<Rightarrow> logRecord list" where
  "since_delete recs = rev (takeWhile (\<lambda>rec. lr_type rec \<noteq> LgDelete) (rev recs))"

definition replayed :: "logRecord list \<Rightarrow> row option \<Rightarrow> row option" where
  "replayed recs x =
    (let new = map (\<lambda>rec. deserializeRow (lr_newValue rec)); later = since_delete recs;
         updates = filter (\<lambda>rec. lr_type rec = LgUpdate) later;
         found = (if \<exists>rec\<in>set recs. lr_type rec = LgDelete then None else x)
     in if updates \<noteq> [] then Some (last (new updates))
        else case found of Some r \<Rightarrow> Some r | None \<Rightarrow> if later = [] then None else Some (hd (new later)))"

definition unwound :: "logRecord list \<Rightarrow> row option \<Rightarrow> row option" where
  "unwound recs x =
    (if x = None \<or> (\<exists>rec\<in>set recs. lr_type rec = LgInsert) then None
     else case recs of [] \<Rightarrow> x | rec # _ \<Rightarrow> Some (deserializeRow (lr_oldValue rec)))"

lemma since_delete_snoc [simp]:
  "since_delete [] = []"
  "since_delete (recs @ [rec]) = (if lr_type rec = LgDelete then [] else since_delete recs @ [rec])"
  by (simp_all add: since_delete_def)

lemma fold_touches:
  "fold (key_redo t k) recs x = fold (key_redo t k) (filter (touches t k) recs) x"
  "fold (key_undo t k) recs x = fold (key_undo t k) (filter (touches t k) recs) x"
  by (induction recs arbitrary: x) (simp_all add: untouched)

lemma fold_key_redo_replayed:
  "list_all (touches t k) recs \<Longrightarrow> fold (key_redo t k) recs x = replayed recs x"
proof (induction recs rule: rev_induct)
  case Nil
  then show ?case by (simp add: replayed_def split: option.split)
next
  case (snoc rec recs)
  then have IH: "fold (key_redo t k) recs x = replayed recs x" and rec: "touches t k rec" by simp_all
  from rec consider "lr_type rec = LgInsert" | "lr_type rec = LgUpdate" | "lr_type rec = LgDelete"
    by (auto simp: touches_def)
  then have "key_redo t k rec (replayed recs x) = replayed (recs @ [rec]) x"
  proof cases
    case 1
    then have "key_redo t k rec y = (case y of None \<Rightarrow> Some (deserializeRow (lr_newValue rec)) | Some _ \<Rightarrow> y)" for y
      using rec by (auto simp: key_redo_def touches_def)
    then show ?thesis using 1 by (auto simp: replayed_def Let_def hd_append split: option.split)
  qed (use rec in \<open>auto simp: key_redo_def touches_def replayed_def Let_def split: option.split\<close>)
  then show ?case by (simp add: IH)
qed

lemma fold_key_undo_unwound:
  "list_all (touches t k) recs \<Longrightarrow> fold (key_undo t k) (rev recs) x = unwound recs x"
proof (induction recs)
  case Nil
  then show ?case by (simp add: unwound_def)
next
  case (Cons rec recs)
  then have IH: "fold (key_undo t k) (rev recs) x = unwound recs x" and rec: "touches t k rec" by simp_all
  from rec consider "lr_type rec = LgInsert" | "lr_type rec = LgUpdate" | "lr_type rec = LgDelete"
    by (auto simp: touches_def)
  then have "key_undo t k rec (unwound recs x) = unwound (rec # recs) x"
    by cases (use rec in \<open>auto simp: key_undo_def touches_def unwound_def split: list.split\<close>)
  then show ?case by (simp add: IH)
qed

lemma recover_key:
  assumes "keyed_storage storage" "list_all rec_keyed recs"
  shows "view (recover_records recs storage) t k =
    unwound (changes t k (- committed_txns recs) recs) (replayed (changes t k (committed_txns recs) recs) (view storage t k))"
proof -
  let ?c = "\<lambda>rec. lr_txnId rec \<in> committed_txns recs"
  have all: "list_all (touches t k) (changes t k txns recs)" for txns by (simp add: changes_def list_all_iff)
  have "filter (touches t k) (filter ?c recs) = changes t k (committed_txns recs) recs"
    by (simp add: changes_def conj_commute)
  then have won: "fold (key_redo t k) (filter ?c recs) x = replayed (changes t k (committed_txns recs) recs) x" for x
    by (simp only: fold_touches(1) [of t k "filter ?c recs"] fold_key_redo_replayed [OF all])
  have "filter (touches t k) (filter (\<lambda>r. \<not> ?c r) (rev recs)) = rev (changes t k (- committed_txns recs) recs)"
    by (simp add: changes_def rev_filter conj_commute)
  then have lost: "fold (key_undo t k) (filter (\<lambda>r. \<not> ?c r) (rev recs)) x = unwound (changes t k (- committed_txns recs) recs) x" for x
    by (simp only: fold_touches(2) [of t k "filter (\<lambda>r. \<not> ?c r) (rev recs)"] fold_key_undo_unwound [OF all])
  show ?thesis
    by (simp only: recover_view [OF assms, THEN conjunct2] spec_recover_def fold_spec_undo_key fold_spec_redo_key won lost)
qed



text \<open>
  The undo of a transaction that did not commit does not bring back a row it deleted: if no
  committed transaction has changed the key and the tables recovery starts from, the program's own,
  do not have the row any more, it is gone.
\<close>

lemma recover_keeps_uncommitted_delete:
  assumes "keyed_storage storage" "list_all rec_keyed recs" "view storage t k = None"
    "list_all (\<lambda>rec. touches t k rec \<longrightarrow> lr_txnId rec \<notin> committed_txns recs) recs"
  shows "view (recover_records recs storage) t k = None"
proof -
  have "changes t k (committed_txns recs) recs = []"
    using assms(4) by (auto simp: changes_def filter_empty_conv list_all_iff)
  then show ?thesis
    by (simp add: recover_key [OF assms(1,2)] assms(3) unwound_def replayed_def)
qed

text \<open>
  The redo of an INSERT looks for a row with its key: a row without an \<open>id\<close> is never found, and
  each recovery appends it again.
\<close>

lemma recover_appends_again:
  assumes "lr_type ins = LgInsert" "lr_type com = LgCommit" "lr_txnId com = lr_txnId ins"
    "fmlookup (deserializeRow (lr_newValue ins)) ''id'' = None" "list_all (\<lambda>r. \<not> has_key (lr_key ins) r) (table_of storage (lr_table ins))"
  shows "table_of (recover_records [ins, com] (recover_records [ins, com] storage)) (lr_table ins) =
    table_of storage (lr_table ins) @ [deserializeRow (lr_newValue ins), deserializeRow (lr_newValue ins)]"
proof -
  let ?new = "deserializeRow (lr_newValue ins)"
  have redo: "recover_records [ins, com] s = s(lr_table ins \<mapsto> table_of s (lr_table ins) @ [?new])"
    if "list_all (\<lambda>r. \<not> has_key (lr_key ins) r) (table_of s (lr_table ins))" for s
    using that assms(1-3) by (auto simp: recover_records_def committed_txns_def redo_def list_all_iff Let_def)
  have "list_all (\<lambda>r. \<not> has_key (lr_key ins) r) (table_of storage (lr_table ins) @ [?new])"
    using assms(4,5) by (simp add: has_key_def)
  then show ?thesis by (simp add: redo [OF assms(5)] redo table_of_def)
qed








text \<open>
  C32. That proviso is needed, because a rolled back transaction is undone again, after every
  committed one has been redone: transaction 1 changes a row and is rolled back, then
  transaction 2 changes it and commits, and recovery gives the row its first value back.
\<close>

theorem recover_loses_committed_update:
  assumes "has_key k (deserializeRow old)" "has_key k (deserializeRow new)" "t1 \<noteq> t2"
  shows "recover_records
    [\<lparr>lr_lsn = 1, lr_prevLsn = 0, lr_txnId = t1, lr_type = LgUpdate, lr_table = t, lr_key = k, lr_oldValue = old, lr_newValue = tmp\<rparr>,
     \<lparr>lr_lsn = 2, lr_prevLsn = 0, lr_txnId = t1, lr_type = LgAbort, lr_table = [], lr_key = [], lr_oldValue = [], lr_newValue = []\<rparr>,
     \<lparr>lr_lsn = 3, lr_prevLsn = 0, lr_txnId = t2, lr_type = LgUpdate, lr_table = t, lr_key = k, lr_oldValue = old, lr_newValue = new\<rparr>,
     \<lparr>lr_lsn = 4, lr_prevLsn = 0, lr_txnId = t2, lr_type = LgCommit, lr_table = [], lr_key = [], lr_oldValue = [], lr_newValue = []\<rparr>]
    (storage(t \<mapsto> [deserializeRow new])) = storage(t \<mapsto> [deserializeRow old])"
  using assms by (simp add: recover_records_def committed_txns_def redo_def undo_def table_of_def has_key_def Let_def)

theorem recover_loses_committed_update_witness:
  "recover_records
    [\<lparr>lr_lsn = 1, lr_prevLsn = 0, lr_txnId = 1, lr_type = LgUpdate, lr_table = ''t'', lr_key = ''1'', lr_oldValue = ''id=1;v=0;'', lr_newValue = ''id=1;v=5;''\<rparr>,
     \<lparr>lr_lsn = 2, lr_prevLsn = 0, lr_txnId = 1, lr_type = LgAbort, lr_table = [], lr_key = [], lr_oldValue = [], lr_newValue = []\<rparr>,
     \<lparr>lr_lsn = 3, lr_prevLsn = 0, lr_txnId = 2, lr_type = LgUpdate, lr_table = ''t'', lr_key = ''1'', lr_oldValue = ''id=1;v=0;'', lr_newValue = ''id=1;v=7;''\<rparr>,
     \<lparr>lr_lsn = 4, lr_prevLsn = 0, lr_txnId = 2, lr_type = LgCommit, lr_table = [], lr_key = [], lr_oldValue = [], lr_newValue = []\<rparr>]
    [''t'' \<mapsto> [deserializeRow ''id=1;v=7;'']] = [''t'' \<mapsto> [deserializeRow ''id=1;v=0;'']]"
  by (rule recover_loses_committed_update)
     (simp_all add: has_key_def deserializeRow_def deserializeRow_loop.simps row_token_def)

end
