(* ===== verification/Txn_Manager.thy ===== *)
theory Txn_Manager
  imports Locks Recovery
begin

text \<open>
  The transaction manager (include/txn_manager.h): it numbers the transactions, keeps them and
  the lock manager, undoes the writes of a transaction that is rolled back, and logs both ends
  of a transaction when it has a log. \<open>begin\<close> and \<open>get\<close> return a reference into the map: the
  model returns the identifier, and what a client writes through the reference is
  \<open>tm_logWrite\<close>. The fields \<open>lsn\<close> and \<open>prevLsn\<close> of a new \<open>LogRecord\<close> are not
  initialised; \<open>append\<close> sets the first, and \<open>junk\<close> stands for what the second happens to hold.
\<close>

record txn_manager =
  tm_nextId :: txn_id
  tm_transactions :: "txn_id \<rightharpoonup> transaction"
  tm_locks :: lock_table
  tm_wal :: "wal option"

datatype txn_error = Txn_not_active | Txn_not_found

definition TransactionManager_init :: "wal option \<Rightarrow> txn_manager" where
  "TransactionManager_init w = \<lparr>tm_nextId = 1, tm_transactions = Map.empty, tm_locks = Map.empty, tm_wal = w\<rparr>"

definition mark_record :: "logType \<Rightarrow> lsn \<Rightarrow> txn_id \<Rightarrow> logRecord" where
  "mark_record type junk tid = \<lparr>lr_lsn = junk, lr_prevLsn = junk, lr_txnId = tid, lr_type = type,
     lr_table = [], lr_key = [], lr_oldValue = [], lr_newValue = []\<rparr>"

definition write_log_record :: "row_ord \<Rightarrow> lsn \<Rightarrow> txn_id \<Rightarrow> writeRecord \<Rightarrow> logRecord" where
  "write_log_record ord junk tid wr = \<lparr>lr_lsn = junk, lr_prevLsn = junk, lr_txnId = tid,
     lr_type = (case wr_type wr of WrInsert \<Rightarrow> LgInsert | WrUpdate \<Rightarrow> LgUpdate | WrDelete \<Rightarrow> LgDelete),
     lr_table = wr_table wr, lr_key = wr_key wr,
     lr_oldValue = serializeRow ord (wr_oldRow wr), lr_newValue = serializeRow ord (wr_newRow wr)\<rparr>"

definition append_all :: "logRecord list \<Rightarrow> wal \<Rightarrow> wal" where
  "append_all recs w = fold (\<lambda>rec w. snd (wal_append rec w)) recs w"

text \<open>\<open>nextId_++\<close> and \<open>emplace\<close>, which keeps a transaction that has the number already.\<close>

definition tm_begin :: "lsn \<Rightarrow> txn_manager \<Rightarrow> txn_id \<times> txn_manager" where
  "tm_begin junk m =
    (let tid = tm_nextId m;
         txns = (case tm_transactions m tid of None \<Rightarrow> (tm_transactions m)(tid \<mapsto> Transaction_init tid)
                 | Some _ \<Rightarrow> tm_transactions m)
     in (tid, m\<lparr>tm_nextId := tid + 1, tm_transactions := txns,
               tm_wal := map_option (append_all [mark_record LgBegin junk tid]) (tm_wal m)\<rparr>))"

definition tm_get :: "txn_id \<Rightarrow> txn_manager \<Rightarrow> txn_error + transaction" where
  "tm_get tid m = (case tm_transactions m tid of None \<Rightarrow> Inl Txn_not_found | Some t \<Rightarrow> Inr t)"

text \<open>The records of the writes, then the mark: both ends of a transaction log the same way.\<close>

definition end_records :: "logType \<Rightarrow> row_ord \<Rightarrow> lsn \<Rightarrow> transaction \<Rightarrow> txn_id \<Rightarrow> logRecord list" where
  "end_records type ord junk t tid = map (write_log_record ord junk tid) (tx_writeLog t) @ [mark_record type junk tid]"

definition tm_commit :: "row_ord \<Rightarrow> lsn \<Rightarrow> txn_id \<Rightarrow> txn_manager \<Rightarrow> txn_error + txn_manager" where
  "tm_commit ord junk tid m = ebind (tm_get tid m) (\<lambda>t.
     if \<not> tx_active t then Inl Txn_not_active
     else Inr (m\<lparr>tm_wal := map_option (append_all (end_records LgCommit ord junk t tid)) (tm_wal m),
                 tm_transactions := (tm_transactions m)(tid \<mapsto> tx_commit t),
                 tm_locks := releaseAll tid (tm_locks m)\<rparr>))"

text \<open>The rows of the table from the end of the write log: the first row with the key gets its old value.\<close>

fun restore_first :: "string \<Rightarrow> row \<Rightarrow> row list \<Rightarrow> row list" where
  "restore_first key old [] = []"
| "restore_first key old (r # rs) = (if has_key key r then old # rs else r # restore_first key old rs)"

definition rollback_write :: "writeRecord \<Rightarrow> table_storage \<Rightarrow> table_storage" where
  "rollback_write wr storage = (let rows = table_of storage (wr_table wr) in
     storage(wr_table wr \<mapsto> (case wr_type wr of
        WrInsert \<Rightarrow> filter (\<lambda>r. \<not> has_key (wr_key wr) r) rows
      | _ \<Rightarrow> restore_first (wr_key wr) (wr_oldRow wr) rows)))"

definition tm_rollback ::
  "row_ord \<Rightarrow> lsn \<Rightarrow> txn_id \<Rightarrow> table_storage \<Rightarrow> txn_manager \<Rightarrow> txn_error + table_storage \<times> txn_manager" where
  "tm_rollback ord junk tid storage m = ebind (tm_get tid m) (\<lambda>t.
     if \<not> tx_active t then Inl Txn_not_active
     else Inr (fold rollback_write (rev (tx_writeLog t)) storage,
               m\<lparr>tm_wal := map_option (append_all (end_records LgAbort ord junk t tid)) (tm_wal m),
                 tm_transactions := (tm_transactions m)(tid \<mapsto> tx_abort t),
                 tm_locks := releaseAll tid (tm_locks m)\<rparr>))"

text \<open>What a client does with the reference it was given, and with \<open>lockManager()\<close>.\<close>

definition tm_logWrite :: "txn_id \<Rightarrow> writeRecord \<Rightarrow> txn_manager \<Rightarrow> txn_manager" where
  "tm_logWrite tid wr m = (case tm_transactions m tid of None \<Rightarrow> m
     | Some t \<Rightarrow> m\<lparr>tm_transactions := (tm_transactions m)(tid \<mapsto> tx_logWrite wr t)\<rparr>)"

definition tm_acquire :: "txn_id \<Rightarrow> string \<Rightarrow> lockMode \<Rightarrow> txn_manager \<Rightarrow> bool \<times> txn_manager" where
  "tm_acquire tid resource mode m = (case acquireLock tid resource mode (tm_locks m) of
     (b, locks) \<Rightarrow> (b, m\<lparr>tm_locks := locks\<rparr>))"

section \<open>The life of a transaction\<close>

datatype tm_event = TBegin lsn | TWrite txn_id writeRecord | TAcquire txn_id string lockMode
  | TCommit row_ord lsn txn_id | TRollback row_ord lsn txn_id table_storage

text \<open>An operation that throws leaves the manager as it was.\<close>

fun tm_do :: "tm_event \<Rightarrow> txn_manager \<Rightarrow> txn_manager" where
  "tm_do (TBegin junk) m = snd (tm_begin junk m)"
| "tm_do (TWrite tid wr) m = tm_logWrite tid wr m"
| "tm_do (TAcquire tid r mode) m = snd (tm_acquire tid r mode m)"
| "tm_do (TCommit ord junk tid) m = (case tm_commit ord junk tid m of Inl _ \<Rightarrow> m | Inr m' \<Rightarrow> m')"
| "tm_do (TRollback ord junk tid storage) m =
    (case tm_rollback ord junk tid storage m of Inl _ \<Rightarrow> m | Inr (_, m') \<Rightarrow> m')"

fun begins :: "tm_event list \<Rightarrow> nat" where
  "begins [] = 0"
| "begins (TBegin _ # evs) = Suc (begins evs)"
| "begins (_ # evs) = begins evs"

text \<open>The transactions are numbered 1, 2, \<dots>, each under its own number.\<close>

definition tm_wf :: "nat \<Rightarrow> txn_manager \<Rightarrow> bool" where
  "tm_wf n m \<longleftrightarrow> tm_nextId m = of_nat (Suc n) \<and>
    (\<forall>tid. (tm_transactions m tid \<noteq> None) = (0 < unat tid \<and> unat tid \<le> n)) \<and>
    (\<forall>tid t. tm_transactions m tid = Some t \<longrightarrow> tx_id t = tid)"

lemma tm_commit_Inr:
  "tm_commit ord junk tid m = Inr m' \<Longrightarrow> \<exists>t. tm_transactions m tid = Some t \<and> tx_active t \<and>
     tm_transactions m' = (tm_transactions m)(tid \<mapsto> tx_commit t) \<and> tm_locks m' = releaseAll tid (tm_locks m) \<and>
     tm_nextId m' = tm_nextId m \<and>
     tm_wal m' = map_option (append_all (end_records LgCommit ord junk t tid)) (tm_wal m)"
  by (auto simp: tm_commit_def tm_get_def split: option.splits if_splits)

lemma tm_rollback_Inr:
  "tm_rollback ord junk tid storage m = Inr (storage', m') \<Longrightarrow> \<exists>t. tm_transactions m tid = Some t \<and> tx_active t \<and>
     tm_transactions m' = (tm_transactions m)(tid \<mapsto> tx_abort t) \<and> tm_locks m' = releaseAll tid (tm_locks m) \<and>
     tm_nextId m' = tm_nextId m \<and> storage' = fold rollback_write (rev (tx_writeLog t)) storage"
  by (auto simp: tm_rollback_def tm_get_def split: option.splits if_splits)

lemma tm_wf_upd:
  "tm_wf n m \<Longrightarrow> tm_transactions m tid = Some t \<Longrightarrow> tx_id t' = tx_id t \<Longrightarrow> tm_nextId m' = tm_nextId m \<Longrightarrow>
   tm_transactions m' = (tm_transactions m)(tid \<mapsto> t') \<Longrightarrow> tm_wf n m'"
  by (auto simp: tm_wf_def)

lemma tm_begin_wf:
  assumes "tm_wf n m" "Suc n < 2 ^ 64"
  shows "tm_wf (Suc n) (snd (tm_begin junk m)) \<and> tm_transactions m (fst (tm_begin junk m)) = None \<and>
     tm_transactions (snd (tm_begin junk m)) = (tm_transactions m)(fst (tm_begin junk m) \<mapsto> Transaction_init (fst (tm_begin junk m)))"
proof -
  have "unat (of_nat (Suc n) :: 64 word) = Suc n" using assms(2) by (simp only: unat_of_nat) simp
  then have i: "unat (tm_nextId m) = Suc n" using assms(1) by (simp add: tm_wf_def)
  have "(tm_transactions m (tm_nextId m) \<noteq> None) = (0 < unat (tm_nextId m) \<and> unat (tm_nextId m) \<le> n)"
    using assms(1) unfolding tm_wf_def by blast
  then have none: "tm_transactions m (tm_nextId m) = None" by (simp add: i)
  have b: "fst (tm_begin junk m) = tm_nextId m" "tm_nextId (snd (tm_begin junk m)) = tm_nextId m + 1"
    "tm_transactions (snd (tm_begin junk m)) = (tm_transactions m)(tm_nextId m \<mapsto> Transaction_init (tm_nextId m))"
    using none by (simp_all add: tm_begin_def Let_def)
  have "tm_wf (Suc n) (snd (tm_begin junk m))"
    unfolding tm_wf_def b(2,3)
  proof (intro conjI allI impI)
    show "tm_nextId m + 1 = of_nat (Suc (Suc n))" using assms(1) by (simp add: tm_wf_def)
  next
    fix k
    have "(tm_transactions m k \<noteq> None) = (0 < unat k \<and> unat k \<le> n)"
      using assms(1) unfolding tm_wf_def by blast
    then show "(((tm_transactions m)(tm_nextId m \<mapsto> Transaction_init (tm_nextId m))) k \<noteq> None) =
      (0 < unat k \<and> unat k \<le> Suc n)"
      using i by (cases "k = tm_nextId m") (auto simp: le_Suc_eq word_unat_eq_iff)
  next
    fix k t
    assume "((tm_transactions m)(tm_nextId m \<mapsto> Transaction_init (tm_nextId m))) k = Some t"
    then show "tx_id t = k" using assms(1) by (auto simp: tm_wf_def split: if_splits)
  qed
  then show ?thesis using none b by simp
qed

lemma tm_do_wf:
  assumes "tm_wf n m" "n + begins [ev] < 2 ^ 64"
  shows "tm_wf (n + begins [ev]) (tm_do ev m)"
proof (cases ev)
  case (TBegin junk)
  then show ?thesis using tm_begin_wf [of n m junk] assms by simp
next
  case (TWrite tid wr)
  then show ?thesis using assms(1) tm_wf_upd [OF assms(1), of tid _ "tx_logWrite wr _" "tm_do ev m"]
    by (auto simp: tm_logWrite_def split: option.split)
next
  case (TAcquire tid r mode)
  then show ?thesis using assms(1) by (auto simp: tm_acquire_def tm_wf_def split: prod.splits)
next
  case (TCommit ord junk tid)
  show ?thesis
  proof (cases "tm_commit ord junk tid m")
    case (Inr m')
    from tm_commit_Inr [OF this] obtain t where "tm_transactions m tid = Some t"
      "tm_transactions m' = (tm_transactions m)(tid \<mapsto> tx_commit t)" "tm_nextId m' = tm_nextId m" by blast
    then show ?thesis using TCommit Inr tm_wf_upd [OF assms(1), of tid t "tx_commit t" m'] by simp
  qed (use TCommit assms(1) in simp)
next
  case (TRollback ord junk tid storage)
  show ?thesis
  proof (cases "tm_rollback ord junk tid storage m")
    case (Inr r)
    obtain storage' m' where r: "r = (storage', m')" by fastforce
    from tm_rollback_Inr [OF Inr [unfolded r]] obtain t where "tm_transactions m tid = Some t"
      "tm_transactions m' = (tm_transactions m)(tid \<mapsto> tx_abort t)" "tm_nextId m' = tm_nextId m" by blast
    then show ?thesis using TRollback Inr r tm_wf_upd [OF assms(1), of tid t "tx_abort t" m'] by simp
  qed (use TRollback assms(1) in simp)
qed

lemma begins_append [simp]: "begins (evs @ evs') = begins evs + begins evs'"
  by (induction evs rule: begins.induct) simp_all

lemma tm_run_wf:
  assumes "begins evs < 2 ^ 64"
  shows "tm_wf (begins evs) (fold tm_do evs (TransactionManager_init w))"
  using assms
proof (induction evs rule: rev_induct)
  case Nil
  then show ?case by (auto simp: tm_wf_def TransactionManager_init_def)
next
  case (snoc ev evs)
  then show ?case using tm_do_wf [of "begins evs" "fold tm_do evs (TransactionManager_init w)" ev] by simp
qed

text \<open>
  C33. As long as fewer than 2 to the 64 transactions have begun, whatever else happened:
  exactly the numbers handed out are in the map, each transaction carries its own number, and
  the next \<open>begin\<close> gives a new number to a new, active transaction with nothing in its log.
\<close>

theorem txn_ids_fresh:
  assumes "Suc (begins evs) < 2 ^ 64" "tm_begin junk (fold tm_do evs (TransactionManager_init w)) = (tid, m')"
  shows "tm_transactions (fold tm_do evs (TransactionManager_init w)) tid = None \<and>
    tm_get tid m' = Inr (Transaction_init tid) \<and> unat tid = Suc (begins evs) \<and>
    {i. tm_transactions m' i \<noteq> None} = {i. 0 < unat i \<and> unat i \<le> Suc (begins evs)}"
proof -
  let ?m = "fold tm_do evs (TransactionManager_init w)"
  have wf: "tm_wf (begins evs) ?m" using assms(1) by (intro tm_run_wf) simp
  note b = tm_begin_wf [OF wf assms(1), of junk, unfolded assms(2) fst_conv snd_conv]
  have "tid = of_nat (Suc (begins evs))" using wf assms(2) by (simp add: tm_begin_def tm_wf_def Let_def)
  then have "unat tid = Suc (begins evs)" using assms(1) by (simp only: unat_of_nat) simp
  moreover have "tm_transactions m' i \<noteq> None \<longleftrightarrow> 0 < unat i \<and> unat i \<le> Suc (begins evs)" for i
    using b unfolding tm_wf_def by blast
  ultimately show ?thesis using b by (simp only: tm_get_def) simp
qed

theorem txn_ids_fresh_witness:
  "tm_transactions (fold tm_do [TBegin 0, TCommit sorted_ord 0 1] (TransactionManager_init None)) 2 = None \<and>
   tm_get 2 (snd (tm_begin 0 (fold tm_do [TBegin 0, TCommit sorted_ord 0 1] (TransactionManager_init None)))) =
     Inr (Transaction_init 2) \<and> unat (2 :: txn_id) = Suc (begins [TBegin 0, TCommit sorted_ord 0 1]) \<and>
   {i. tm_transactions (snd (tm_begin 0 (fold tm_do [TBegin 0, TCommit sorted_ord 0 1] (TransactionManager_init None)))) i \<noteq> None} =
     {i. 0 < unat i \<and> unat i \<le> Suc (begins [TBegin 0, TCommit sorted_ord 0 1])}"
  by (rule txn_ids_fresh) (simp_all add: tm_begin_def tm_commit_def tm_get_def TransactionManager_init_def)

section \<open>Both ends of a transaction\<close>

text \<open>
  Ending a transaction. An unknown number and a transaction that is not active are
  refused; otherwise the transaction gets its final status with its write log untouched, every
  lock it holds is released and no other, and no other transaction changes. After that neither
  end can be reached again: the same call is refused.
\<close>

theorem txn_end_once:
  "tm_commit ord junk tid m =
    (case tm_transactions m tid of None \<Rightarrow> Inl Txn_not_found
     | Some t \<Rightarrow> if tx_status t \<noteq> Active then Inl Txn_not_active
        else Inr (m\<lparr>tm_transactions := (tm_transactions m)(tid \<mapsto> t\<lparr>tx_status := Committed\<rparr>),
          tm_locks := releaseAll tid (tm_locks m),
          tm_wal := map_option (append_all (end_records LgCommit ord junk t tid)) (tm_wal m)\<rparr>)) \<and>
   (case tm_commit ord junk tid m of Inl _ \<Rightarrow> True | Inr m' \<Rightarrow>
     (\<forall>t r mode. holds (tm_locks m') t r mode = (holds (tm_locks m) t r mode \<and> t \<noteq> tid)) \<and>
     tm_commit ord junk tid m' = Inl Txn_not_active \<and>
     tm_rollback ord junk tid storage m' = Inl Txn_not_active)"
  by (auto simp: tm_commit_def tm_rollback_def tm_get_def tx_active_def tx_commit_def holds_releaseAll split: option.split)

end
