(* ===== verification/Dml.thy ===== *)
theory Dml
  imports Executor
begin

text \<open>
  What INSERT, UPDATE, DELETE and CREATE TABLE do to the storage and to the write log of the
  running transaction.
\<close>

section \<open>The write log\<close>

text \<open>\<open>logs recs txn\<close>: the transaction after the records were logged in it, in order.\<close>

definition logs :: "writeRecord list \<Rightarrow> transaction option \<Rightarrow> transaction option" where
  "logs recs txn = map_option (\<lambda>t. if tx_active t then t\<lparr>tx_writeLog := tx_writeLog t @ recs\<rparr> else t) txn"

lemma logs_Nil [simp]: "logs [] txn = txn"
  by (cases txn) (simp_all add: logs_def)

lemma logs_Cons: "logs recs (log_change rec txn) = logs (rec # recs) txn"
  by (cases txn) (simp_all add: logs_def log_change_def tx_logWrite_def tx_active_def)

lemma log_change_logs: "log_change rec txn = logs [rec] txn"
  using logs_Cons [of "[]" rec txn] by simp

definition update_record :: "updateStatement \<Rightarrow> row \<Rightarrow> writeRecord" where
  "update_record stmt row = (let new = assign (upd_assignments stmt) row in
     \<lparr>wr_type = WrUpdate, wr_table = upd_table stmt, wr_key = row_key new, wr_oldRow = row, wr_newRow = new\<rparr>)"

definition delete_record :: "deleteStatement \<Rightarrow> row \<Rightarrow> writeRecord" where
  "delete_record stmt row =
     \<lparr>wr_type = WrDelete, wr_table = del_table stmt, wr_key = row_key row, wr_oldRow = row, wr_newRow = fmempty\<rparr>"

definition insert_record :: "insertStatement \<Rightarrow> row \<Rightarrow> writeRecord" where
  "insert_record stmt row =
     \<lparr>wr_type = WrInsert, wr_table = ins_table stmt, wr_key = row_key row, wr_oldRow = fmempty, wr_newRow = row\<rparr>"

section \<open>The row loops\<close>

lemma update_rows_eq:
  "update_rows stmt rows txn =
    (map (\<lambda>r. if matches (upd_where stmt) r then assign (upd_assignments stmt) r else r) rows,
     logs (map (update_record stmt) (filter (matches (upd_where stmt)) rows)) txn)"
  by (induction rows arbitrary: txn) (simp_all add: Let_def logs_Cons update_record_def)

lemma delete_rows_eq:
  "delete_rows stmt rows txn =
    (filter (\<lambda>r. \<not> matches (del_where stmt) r) rows,
     logs (map (delete_record stmt) (filter (matches (del_where stmt)) rows)) txn)"
  by (induction rows arbitrary: txn) (simp_all add: Let_def logs_Cons delete_record_def)

lemma insert_row_short: "length vs < length cols \<Longrightarrow> insert_row cols vs row = Inl Exec_undefined"
  by (induction cols vs row rule: insert_row.induct) auto

lemma insert_row_eq:
  "length cols \<le> length vs \<Longrightarrow>
   insert_row cols vs row = Inr (foldl (\<lambda>r (c, v). fmupd c v r) row (zip cols (map extractLiteral vs)))"
  by (induction cols vs row rule: insert_row.induct) auto

lemma foldl_fmupd_lookup:
  "fmlookup (foldl (\<lambda>r (c, v). fmupd c v r) row cvs) c =
   (case map_of (rev cvs) c of Some v \<Rightarrow> Some v | None \<Rightarrow> fmlookup row c)"
  by (induction cvs arbitrary: row) (auto simp: map_add_def split: option.split)

lemma insert_fields: "foldl (\<lambda>r (c, v). fmupd c v r) fmempty cvs = fmap_of_list (rev cvs)"
  by (rule fmap_ext) (simp add: foldl_fmupd_lookup fmlookup_of_list split: option.split)

section \<open>The statements\<close>

text \<open>
  C27. INSERT with a value for every column appends one row to its table: the row maps each
  column to the text of its literal (the last one for a repeated column, the empty string for
  a value that is no literal, such as \<open>-5\<close>) and holds no other column. The active
  transaction logs the new row; no other table changes. With fewer values than columns the
  code reads \<open>stmt.values\<close> out of bounds.
\<close>

theorem executeInsert_spec:
  "executeInsert stmt (storage, txn) =
   (case storage (ins_table stmt) of
      None \<Rightarrow> Inl (Table_not_found (ins_table stmt))
    | Some rows \<Rightarrow>
        if length (ins_values stmt) < length (ins_columns stmt) then Inl Exec_undefined
        else let row = fmap_of_list (rev (zip (ins_columns stmt) (map extractLiteral (ins_values stmt))))
             in Inr (storage(ins_table stmt \<mapsto> rows @ [row]), logs [insert_record stmt row] txn))"
  by (simp add: executeInsert_def insert_row_short insert_row_eq insert_fields Let_def log_change_logs
        insert_record_def not_less split: option.split)

text \<open>
  UPDATE rewrites exactly the rows its condition accepts, each by its assignments in
  turn, keeps the number and the order of the rows and every other table, and logs for each
  rewritten row its old and new value.
\<close>

theorem executeUpdate_spec:
  assumes "storage (upd_table stmt) = Some rows"
  shows "executeUpdate stmt (storage, txn) = Inr
     (storage(upd_table stmt \<mapsto>
        map (\<lambda>r. if matches (upd_where stmt) r then assign (upd_assignments stmt) r else r) rows),
      logs (map (update_record stmt) (filter (matches (upd_where stmt)) rows)) txn)"
  using assms by (simp add: executeUpdate_def update_rows_eq)

theorem executeUpdate_spec_witness:
  "executeUpdate \<lparr>upd_table = ''t'', upd_assignments = [(''a'', LiteralExpr LkInteger ''2'')], upd_where = None\<rparr>
     ([''t'' \<mapsto> [fmempty]], None) = Inr
     ([''t'' \<mapsto> [fmempty]](''t'' \<mapsto> map (\<lambda>r. if matches None r then assign [(''a'', LiteralExpr LkInteger ''2'')] r else r) [fmempty]),
      logs (map (update_record \<lparr>upd_table = ''t'', upd_assignments = [(''a'', LiteralExpr LkInteger ''2'')], upd_where = None\<rparr>)
        (filter (matches None) [fmempty])) None)"
  using executeUpdate_spec [of "[''t'' \<mapsto> [fmempty]]"
      "\<lparr>upd_table = ''t'', upd_assignments = [(''a'', LiteralExpr LkInteger ''2'')], upd_where = None\<rparr>" "[fmempty]" None]
  by simp

text \<open>
  C28. DELETE removes exactly the rows its condition accepts: the others stay in their order,
  no other table changes, the log holds one record with the old row for each row removed, and
  running the query plan the optimizer makes for the same DELETE finds no row any more.
\<close>

theorem executeDelete_spec:
  assumes "executeDelete stmt (storage, txn) = Inr (storage', txn')" "storage (del_table stmt) = Some rows"
    "toPhysical (buildDelete stmt) = Inr plan"
  shows "storage' = storage(del_table stmt \<mapsto> filter (\<lambda>r. \<not> matches (del_where stmt) r) rows) \<and>
         txn' = logs (map (delete_record stmt) (filter (matches (del_where stmt)) rows)) txn \<and>
         execute srt storage' None plan = Some (Inr [])"
proof -
  have s': "storage' = storage(del_table stmt \<mapsto> filter (\<lambda>r. \<not> matches (del_where stmt) r) rows)"
    and "txn' = logs (map (delete_record stmt) (filter (matches (del_where stmt)) rows)) txn"
    using assms by (simp_all add: executeDelete_def delete_rows_eq)
  moreover have "execute srt storage' None plan = Some (Inr [])"
  proof (cases "del_where stmt")
    case None
    then show ?thesis using assms(3) s'
      by (auto simp: toPhysical_def buildDelete_def execute_rows SeqScan_rows_def matches_def)
  next
    case (Some e)
    then show ?thesis using assms(3) s'
      by (auto simp: toPhysical_def buildDelete_def execute_rows SeqScan_rows_def matches_def filter_empty_conv)
  qed
  ultimately show ?thesis by simp
qed

theorem executeDelete_spec_witness:
  "[''t'' \<mapsto> []] = [''t'' \<mapsto> [fmempty]](''t'' \<mapsto> filter (\<lambda>r. \<not> matches None r) [fmempty]) \<and>
   None = logs (map (delete_record \<lparr>del_table = ''t'', del_where = None\<rparr>) (filter (matches None) [fmempty])) None \<and>
   (\<forall>srt. execute srt [''t'' \<mapsto> []] None (PhysicalSeqScan ''t'' []) = Some (Inr []))"
  using executeDelete_spec [of "\<lparr>del_table = ''t'', del_where = None\<rparr>" "[''t'' \<mapsto> [fmempty]]" None
      "[''t'' \<mapsto> []]" None "[fmempty]" "PhysicalSeqScan ''t'' []"]
  by (simp add: executeDelete_def matches_def log_change_def toPhysical_def buildDelete_def)

end
