(* ===== verification/Rollback.thy ===== *)
theory Rollback
  imports Txn_Manager Dml
begin

text \<open>
  The executor and the transaction manager together: what ROLLBACK gives back of the changes
  the executor logged, and what the log gives back after COMMIT. Both rest on the tables being
  \<open>keyed\<close>, every row with an \<open>id\<close> of its own, which neither component checks.
\<close>

section \<open>A transaction's statements\<close>

datatype dml = Ins insertStatement | Upd updateStatement | Del deleteStatement

fun run_dml :: "dml \<Rightarrow> table_storage \<times> transaction option \<Rightarrow> exec_error + table_storage \<times> transaction option" where
  "run_dml (Ins stmt) s = executeInsert stmt s"
| "run_dml (Upd stmt) s = executeUpdate stmt s"
| "run_dml (Del stmt) s = executeDelete stmt s"

text \<open>Statements that \<open>ok\<close> allows, each leaving the tables keyed.\<close>

inductive dml_run :: "(dml \<Rightarrow> bool) \<Rightarrow> table_storage \<times> transaction \<Rightarrow> table_storage \<times> transaction \<Rightarrow> bool"
  for ok where
  dml_none: "keyed_storage storage \<Longrightarrow> dml_run ok (storage, t) (storage, t)"
| dml_step: "dml_run ok s (storage, t) \<Longrightarrow> ok d \<Longrightarrow> run_dml d (storage, Some t) = Inr (storage', Some t') \<Longrightarrow>
    keyed_storage storage' \<Longrightarrow> dml_run ok s (storage', t')"

text \<open>The records a statement logs.\<close>

fun dml_records :: "dml \<Rightarrow> table_storage \<Rightarrow> writeRecord list" where
  "dml_records (Ins stmt) storage =
     [insert_record stmt (fmap_of_list (rev (zip (ins_columns stmt) (map extractLiteral (ins_values stmt)))))]"
| "dml_records (Upd stmt) storage =
     map (update_record stmt) (filter (matches (upd_where stmt)) (table_of storage (upd_table stmt)))"
| "dml_records (Del stmt) storage =
     map (delete_record stmt) (filter (matches (del_where stmt)) (table_of storage (del_table stmt)))"

text \<open>What a statement that returns did, in one form for the three of them.\<close>

fun dml_table :: "dml \<Rightarrow> string" where
  "dml_table (Ins stmt) = ins_table stmt"
| "dml_table (Upd stmt) = upd_table stmt"
| "dml_table (Del stmt) = del_table stmt"

fun dml_rows :: "dml \<Rightarrow> row list \<Rightarrow> row list" where
  "dml_rows (Ins stmt) rows =
     rows @ [fmap_of_list (rev (zip (ins_columns stmt) (map extractLiteral (ins_values stmt))))]"
| "dml_rows (Upd stmt) rows =
     map (\<lambda>r. if matches (upd_where stmt) r then assign (upd_assignments stmt) r else r) rows"
| "dml_rows (Del stmt) rows = filter (\<lambda>r. \<not> matches (del_where stmt) r) rows"

lemma run_dml_Inr:
  assumes "run_dml d (storage, txn) = Inr (storage', txn')"
  obtains rows where "storage (dml_table d) = Some rows" "storage' = storage(dml_table d \<mapsto> dml_rows d rows)"
    "txn' = logs (dml_records d storage) txn"
proof (cases d)
  case (Ins stmt)
  then show ?thesis using assms that
    by (cases "length (ins_columns stmt) \<le> length (ins_values stmt)")
      (auto simp: executeInsert_def insert_row_short insert_row_eq insert_fields Let_def log_change_logs
        insert_record_def not_le split: option.splits)
next
  case (Upd stmt)
  then show ?thesis using assms that
    by (auto simp: executeUpdate_def update_rows_eq table_of_def split: option.splits)
next
  case (Del stmt)
  then show ?thesis using assms that
    by (auto simp: executeDelete_def delete_rows_eq table_of_def split: option.splits)
qed

lemma logs_active: "tx_active t \<Longrightarrow> logs recs (Some t) = Some (t\<lparr>tx_writeLog := tx_writeLog t @ recs\<rparr>)"
  by (simp add: logs_def)

section \<open>Undoing one statement\<close>

lemma has_key_key [simp]: "fmlookup r ''id'' \<noteq> None \<Longrightarrow> has_key (row_key r) r"
  by (simp add: has_key_row_key)

lemma restore_first_at:
  "list_all (\<lambda>r. \<not> has_key k r) before \<Longrightarrow> has_key k r \<Longrightarrow>
   restore_first k old (before @ r # after) = before @ old # after"
  by (induction before) simp_all

lemma replace_first_at:
  "list_all (\<lambda>r. fmlookup r ''id'' \<noteq> None \<and> row_key r \<noteq> k) before \<Longrightarrow> has_key k r \<Longrightarrow>
   replace_first k new (before @ r # after) = (before @ new # after, True)"
  by (induction before) (auto simp: has_key_row_key row_key_def split: option.splits)

lemma restore_first_none: "list_all (\<lambda>r. \<not> has_key k r) rows \<Longrightarrow> restore_first k old rows = rows"
  by (induction rows) simp_all

lemma table_of_upd [simp]: "table_of (storage(t \<mapsto> rows)) t = rows"
  by (simp add: table_of_def)

lemma key_notin: "row_key r \<notin> row_key ` A \<longleftrightarrow> (\<forall>x\<in>A. row_key x \<noteq> row_key r)"
  by (auto simp: image_iff)

lemma keyed_snocD:
  "keyed (rows @ [r]) \<Longrightarrow> keyed rows \<and> list_all (\<lambda>r'. \<not> has_key (row_key r) r') rows \<and> has_key (row_key r) r"
  by (auto simp: keyed_def list_all_iff has_key_row_key key_notin)

lemma undo_insert:
  assumes "keyed (rows @ [row])"
  shows "rollback_write (insert_record stmt row) (storage(ins_table stmt \<mapsto> rows @ [row])) = storage(ins_table stmt \<mapsto> rows)"
proof -
  note k = keyed_snocD [OF assms]
  then have "filter (\<lambda>r. \<not> has_key (row_key row) r) rows = rows" by (simp add: filter_id_conv list_all_iff)
  then show ?thesis using k by (simp add: rollback_write_def insert_record_def Let_def)
qed

lemma undo_update:
  fixes stmt
  defines "f \<equiv> \<lambda>r. if matches (upd_where stmt) r then assign (upd_assignments stmt) r else r"
  assumes "keyed (map f rows)"
  shows "fold rollback_write (rev (map (update_record stmt) (filter (matches (upd_where stmt)) rows)))
      (storage(upd_table stmt \<mapsto> map f rows @ rest)) = storage(upd_table stmt \<mapsto> rows @ rest)"
  using assms(2)
proof (induction rows arbitrary: rest rule: rev_induct)
  case (snoc r rows)
  from snoc.prems have k: "keyed (map f rows)" "list_all (\<lambda>r'. \<not> has_key (row_key (f r)) r') (map f rows)"
    "has_key (row_key (f r)) (f r)" using keyed_snocD [of "map f rows" "f r"] by simp_all
  have "rollback_write (update_record stmt r) (storage(upd_table stmt \<mapsto> map f rows @ f r # rest)) =
      storage(upd_table stmt \<mapsto> map f rows @ r # rest)" if "matches (upd_where stmt) r"
    using restore_first_at [OF k(2,3), of r rest] that
    by (simp add: rollback_write_def update_record_def f_def Let_def)
  moreover have "f r = r" if "\<not> matches (upd_where stmt) r" using that by (simp add: f_def)
  ultimately show ?case using snoc.IH [OF k(1), of "r # rest"] by (cases "matches (upd_where stmt) r") (simp_all del: fun_upd_apply)
qed simp

lemma undo_dml:
  assumes "run_dml d (storage, txn) = Inr (storage', txn')" "keyed_storage storage'" "\<not> (\<exists>stmt. d = Del stmt)"
  shows "fold rollback_write (rev (dml_records d storage)) storage' = storage"
proof -
  obtain rows where rows: "storage (dml_table d) = Some rows" "storage' = storage(dml_table d \<mapsto> dml_rows d rows)"
    by (rule run_dml_Inr [OF assms(1)])
  have k: "keyed (dml_rows d rows)" using assms(2) rows(2) by (auto simp: keyed_storage_def dest: spec [of _ "dml_table d"])
  have same: "storage(dml_table d \<mapsto> rows) = storage" using rows(1) by (simp add: fun_upd_idem)
  have rows': "table_of storage (dml_table d) = rows" using rows(1) by (simp add: table_of_def)
  show ?thesis
  proof (cases d)
    case (Ins stmt)
    then show ?thesis using undo_insert [of rows] k same rows(2) by simp
  next
    case (Upd stmt)
    then show ?thesis using undo_update [of stmt rows storage "[]"] k same rows(2) rows' by simp
  qed (use assms(3) in auto)
qed

section \<open>Rollback\<close>

lemma rollback_run:
  assumes "dml_run ok s (storage', t')" "\<And>d. ok d \<Longrightarrow> \<not> (\<exists>stmt. d = Del stmt)" "tx_active (snd s)"
  shows "\<exists>new. t' = (snd s)\<lparr>tx_writeLog := tx_writeLog (snd s) @ new\<rparr> \<and> fold rollback_write (rev new) storage' = fst s"
  using assms(1,3)
proof (induction s "(storage', t')" arbitrary: storage' t' rule: dml_run.induct)
  case (dml_none storage t)
  then show ?case by (intro exI [of _ "[]"]) simp
next
  case (dml_step s storage t d storage' t')
  then obtain new where new: "t = (snd s)\<lparr>tx_writeLog := tx_writeLog (snd s) @ new\<rparr>"
    "fold rollback_write (rev new) storage = fst s" by auto
  then have act: "tx_active t" using dml_step.prems by (simp add: tx_active_def)
  from dml_step(4) have "t' = t\<lparr>tx_writeLog := tx_writeLog t @ dml_records d storage\<rparr>"
    by (rule run_dml_Inr) (simp add: logs_active [OF act])
  moreover have "fold rollback_write (rev (dml_records d storage)) storage' = storage"
    by (rule undo_dml [OF dml_step(4,5) assms(2) [OF dml_step(3)]])
  ultimately show ?case using new by (intro exI [of _ "new @ dml_records d storage"]) simp
qed

lemma rollback_keeps_row_without_id:
  assumes "fmlookup row ''id'' = None" "list_all (\<lambda>r. \<not> has_key [] r) rows"
  shows "rollback_write (insert_record stmt row) (storage(ins_table stmt \<mapsto> rows @ [row])) =
    storage(ins_table stmt \<mapsto> rows @ [row])"
proof -
  have "filter (\<lambda>r. \<not> has_key [] r) rows = rows" using assms(2) by (simp add: filter_id_conv list_all_iff)
  then show ?thesis using assms(1)
    by (simp add: rollback_write_def insert_record_def row_key_def has_key_def Let_def)
qed

lemma rollback_removes_namesakes:
  assumes "has_key k row"
  shows "rollback_write (insert_record stmt row) (storage(ins_table stmt \<mapsto> rows @ [row])) =
    storage(ins_table stmt \<mapsto> filter (\<lambda>r. \<not> has_key k r) rows)"
proof -
  have "row_key row = k" using assms by (simp add: has_key_row_key)
  then show ?thesis using assms by (simp add: rollback_write_def insert_record_def Let_def)
qed

text \<open>
  C8. When ROLLBACK is exact. A transaction of INSERTs and UPDATEs after each of which every row of
  every table had an \<open>id\<close> and no two rows of a table the same one, as at its beginning, is undone: every table
  has the rows it had when the transaction began, in the same order, the transaction is aborted
  and holds no lock. Without that it is not: a row inserted without an \<open>id\<close> stays, and one with
  the \<open>id\<close> of another takes the other with it (\<open>rollback_keeps_row_without_id\<close>, \<open>rollback_removes_namesakes\<close>).
\<close>

theorem rollback_restores:
  assumes "dml_run (\<lambda>d. \<not> (\<exists>stmt. d = Del stmt)) (storage, Transaction_init tid) (storage', t)"
    "tm_transactions m tid = Some t"
  shows "case tm_rollback ord junk tid storage' m of Inl _ \<Rightarrow> False
    | Inr (restored, m') \<Rightarrow> restored = storage \<and> tm_get tid m' = Inr (tx_abort t) \<and>
        \<not> (\<exists>r mode. holds (tm_locks m') tid r mode)"
proof -
  obtain new where new: "t = (Transaction_init tid)\<lparr>tx_writeLog := new\<rparr>" "fold rollback_write (rev new) storage' = storage"
    using rollback_run [OF assms(1)] by auto
  then have "tx_active t" "tx_writeLog t = new" by (simp_all add: tx_active_def)
  then show ?thesis using assms(2) new(2) by (simp add: tm_rollback_def tm_get_def holds_releaseAll)
qed

theorem rollback_restores_witness:
  "\<exists>storage' t. (case tm_rollback sorted_ord 0 1 storage'
      (tm_logWrite 1 (insert_record \<lparr>ins_table = ''t'', ins_columns = [''id''], ins_values = [LiteralExpr LkInteger ''7'']\<rparr>
          (fmap_of_list [(''id'', ''7'')])) (snd (tm_begin 0 (TransactionManager_init None)))) of
     Inl _ \<Rightarrow> False
   | Inr (restored, m') \<Rightarrow> restored = [''t'' \<mapsto> []] \<and> tm_get 1 m' = Inr (tx_abort t) \<and>
       \<not> (\<exists>r mode. holds (tm_locks m') 1 r mode))"
proof -
  let ?stmt = "\<lparr>ins_table = ''t'', ins_columns = [''id''], ins_values = [LiteralExpr LkInteger ''7'']\<rparr>"
  let ?row = "fmap_of_list [(''id'', ''7'')]"
  let ?t = "tx_logWrite (insert_record ?stmt ?row) (Transaction_init 1)"
  have run: "run_dml (Ins ?stmt) ([''t'' \<mapsto> []], Some (Transaction_init 1)) = Inr ([''t'' \<mapsto> [?row]], Some ?t)"
    by (simp add: executeInsert_def log_change_def insert_record_def extractLiteral_def)
  have k: "keyed_storage [''t'' \<mapsto> []]" "keyed_storage [''t'' \<mapsto> [?row]]"
    by (simp_all add: keyed_storage_def table_of_def keyed_def fmlookup_of_list)
  have "dml_run (\<lambda>d. \<not> (\<exists>stmt. d = Del stmt)) ([''t'' \<mapsto> []], Transaction_init 1) ([''t'' \<mapsto> [?row]], ?t)"
    by (rule dml_step [OF dml_none [OF k(1)] _ run k(2)]) simp
  note this [THEN rollback_restores]
  then have "case tm_rollback sorted_ord 0 1 [''t'' \<mapsto> [?row]]
      (tm_logWrite 1 (insert_record ?stmt ?row) (snd (tm_begin 0 (TransactionManager_init None)))) of
     Inl _ \<Rightarrow> False
   | Inr (restored, m') \<Rightarrow> restored = [''t'' \<mapsto> []] \<and> tm_get 1 m' = Inr (tx_abort ?t) \<and>
       \<not> (\<exists>r mode. holds (tm_locks m') 1 r mode)"
    by (simp add: tm_logWrite_def tm_begin_def TransactionManager_init_def)
  then show ?thesis by (intro exI)
qed

lemma undo_delete_nothing:
  assumes "list_all (\<lambda>wr. wr_type wr = WrDelete \<and> wr_table wr = t \<and> list_all (\<lambda>r. \<not> has_key (wr_key wr) r) rows) wrs"
    "storage t = Some rows"
  shows "fold rollback_write wrs storage = storage"
  using assms
  by (induction wrs) (simp_all add: rollback_write_def restore_first_none table_of_def fun_upd_idem Let_def)

text \<open>
  ROLLBACK does not undo a DELETE: the old rows are put back only into rows that still
  have their keys, and a deleted row is no more there. The transaction is aborted and the
  table stays without the rows it deleted.
\<close>

theorem rollback_delete_restores_nothing:
  assumes "run_dml (Del stmt) (storage, Some (Transaction_init tid)) = Inr (storage', Some t)"
    "keyed_storage storage" "tm_transactions m tid = Some t"
  shows "case tm_rollback ord junk tid storage' m of Inl _ \<Rightarrow> False
    | Inr (rolled_back, m') \<Rightarrow> rolled_back = storage' \<and> tm_get tid m' = Inr (tx_abort t)"
proof -
  obtain rows where rows: "storage (del_table stmt) = Some rows"
    "storage' = storage(del_table stmt \<mapsto> dml_rows (Del stmt) rows)"
    "Some t = logs (dml_records (Del stmt) storage) (Some (Transaction_init tid))"
    by (rule run_dml_Inr [OF assms(1)]) simp
  have "keyed (table_of storage (del_table stmt))" using assms(2) unfolding keyed_storage_def by (rule spec)
  then have k: "keyed rows" using rows(1) by (simp add: table_of_def)
  have "inj_on row_key (set rows)" using k by (simp add: keyed_def distinct_map)
  then have "row_key r' \<noteq> row_key r" if "r \<in> set rows" "matches (del_where stmt) r"
    "r' \<in> set rows" "\<not> matches (del_where stmt) r'" for r r'
    using that by (auto dest: inj_onD)
  then have "fold rollback_write (rev (dml_records (Del stmt) storage)) storage' = storage'"
    using rows(1,2) by (intro undo_delete_nothing [where t = "del_table stmt"])
      (auto simp: list_all_iff delete_record_def table_of_def has_key_row_key)
  then show ?thesis using assms(3) rows(3)
    by (simp add: tm_rollback_def tm_get_def logs_active) (simp add: tx_active_def)
qed

theorem rollback_delete_restores_nothing_witness:
  "\<exists>t. case tm_rollback sorted_ord 0 1 [''t'' \<mapsto> []]
      ((TransactionManager_init None)\<lparr>tm_transactions := [1 \<mapsto> t]\<rparr>) of Inl _ \<Rightarrow> False
    | Inr (rolled_back, m') \<Rightarrow> rolled_back = [''t'' \<mapsto> []] \<and> tm_get 1 m' = Inr (tx_abort t)"
proof -
  let ?stmt = "\<lparr>del_table = ''t'', del_where = None\<rparr>"
  let ?row = "fmap_of_list [(''id'', ''7'')]"
  have "run_dml (Del ?stmt) ([''t'' \<mapsto> [?row]], Some (Transaction_init 1)) =
      Inr ([''t'' \<mapsto> []], Some (tx_logWrite (delete_record ?stmt ?row) (Transaction_init 1)))"
    by (simp add: executeDelete_def matches_def log_change_def delete_record_def tx_logWrite_def)
  note this [THEN rollback_delete_restores_nothing]
  then have "case tm_rollback sorted_ord 0 1 [''t'' \<mapsto> []]
      ((TransactionManager_init None)\<lparr>tm_transactions := [1 \<mapsto> tx_logWrite (delete_record ?stmt ?row) (Transaction_init 1)]\<rparr>) of
      Inl _ \<Rightarrow> False
    | Inr (rolled_back, m') \<Rightarrow> rolled_back = [''t'' \<mapsto> []] \<and>
        tm_get 1 m' = Inr (tx_abort (tx_logWrite (delete_record ?stmt ?row) (Transaction_init 1)))"
    by (simp add: keyed_storage_def table_of_def keyed_def fmlookup_of_list)
  then show ?thesis by (rule exI)
qed

section \<open>Commit and recovery\<close>

text \<open>No column a statement writes is the key, so that the log's keys name the rows they change.\<close>

fun keeps_ids :: "dml \<Rightarrow> bool" where
  "keeps_ids (Upd stmt) = (''id'' \<notin> fst ` set (upd_assignments stmt))"
| "keeps_ids d = True"

lemma assign_key: "''id'' \<notin> fst ` set as \<Longrightarrow> fmlookup (assign as row) ''id'' = fmlookup row ''id''"
proof (induction as arbitrary: row)
  case (Cons a as)
  obtain c e where a: "a = (c, e)" by fastforce
  have "assign (a # as) row = assign as (fmupd c (resolveExpr e row) row)" by (simp add: assign_def a)
  then show ?case using Cons a by auto
qed (simp add: assign_def)

definition log_redo :: "row_ord \<Rightarrow> lsn \<Rightarrow> txn_id \<Rightarrow> writeRecord \<Rightarrow> table_storage \<Rightarrow> table_storage" where
  "log_redo ord junk tid wr = redo (write_log_record ord junk tid wr)"

lemma redo_insert:
  assumes "row_order ord" "row_safe row" "keyed (rows @ [row])" "storage (ins_table stmt) = Some rows"
  shows "log_redo ord junk tid (insert_record stmt row) storage = storage(ins_table stmt \<mapsto> rows @ [row])"
  using keyed_snocD [OF assms(3)] assms
  by (auto simp: log_redo_def redo_def write_log_record_def insert_record_def table_of_def
        deserialize_serialize list_all_iff Let_def)

lemma redo_update:
  fixes stmt
  defines "f \<equiv> \<lambda>r. if matches (upd_where stmt) r then assign (upd_assignments stmt) r else r"
  assumes ord: "row_order ord" and ids: "''id'' \<notin> fst ` set (upd_assignments stmt)"
    and "keyed (before @ rows)" "storage (upd_table stmt) = Some (before @ rows)"
    and "list_all (\<lambda>r. matches (upd_where stmt) r \<longrightarrow> row_safe (f r)) rows"
  shows "fold (log_redo ord junk tid) (map (update_record stmt) (filter (matches (upd_where stmt)) rows)) storage =
    storage(upd_table stmt \<mapsto> before @ map f rows)"
  using assms(4-)
proof (induction rows arbitrary: before storage)
  case Nil
  then show ?case by (simp add: fun_upd_idem)
next
  case (Cons r rows)
  have key: "fmlookup (f r) ''id'' = fmlookup r ''id''" using assign_key [OF ids] by (simp add: f_def)
  then have rk: "row_key (f r) = row_key r" by (simp add: row_key_def)
  have k: "list_all (\<lambda>b. fmlookup b ''id'' \<noteq> None \<and> row_key b \<noteq> row_key r) before" "has_key (row_key r) r"
    using Cons.prems(1) by (auto simp: keyed_def list_all_iff has_key_row_key key_notin)
  have k': "keyed ((before @ [f r]) @ rows)" using Cons.prems(1) key rk by (simp add: keyed_def)
  show ?case
  proof (cases "matches (upd_where stmt) r")
    case True
    then have "deserializeRow (serializeRow ord (f r)) = f r" using Cons.prems(3) by (simp add: deserialize_serialize [OF ord])
    then have "log_redo ord junk tid (update_record stmt r) storage = storage(upd_table stmt \<mapsto> (before @ [f r]) @ rows)"
      using True rk Cons.prems(2) replace_first_at [OF k, of "f r" rows]
      by (simp add: log_redo_def redo_def write_log_record_def update_record_def table_of_def Let_def f_def)
    then show ?thesis using True Cons.IH [OF k', of "storage(upd_table stmt \<mapsto> (before @ [f r]) @ rows)"] Cons.prems(3)
      by (simp del: fun_upd_apply add: fun_upd_same)
  next
    case False
    then show ?thesis using Cons.IH [of "before @ [r]" storage] Cons.prems by (simp add: f_def)
  qed
qed

lemma redo_delete:
  assumes "storage (del_table stmt) = Some rows" "list_all (\<lambda>r. fmlookup r ''id'' \<noteq> None) rows"
  shows "fold (log_redo ord junk tid) (map (delete_record stmt) del) storage =
    storage(del_table stmt \<mapsto> filter (\<lambda>r. row_key r \<notin> row_key ` set del) rows)"
  using assms
proof (induction del arbitrary: rows storage)
  case Nil
  then show ?case by (simp add: fun_upd_idem)
next
  case (Cons r del)
  let ?rows = "filter (\<lambda>r'. row_key r' \<noteq> row_key r) rows"
  have "filter (\<lambda>r'. \<not> has_key (row_key r) r') rows = ?rows"
    using Cons.prems(2) by (auto simp: has_key_row_key list_all_iff intro!: filter_cong)
  then have "log_redo ord junk tid (delete_record stmt r) storage = storage(del_table stmt \<mapsto> ?rows)"
    using Cons.prems(1) by (simp add: log_redo_def redo_def write_log_record_def delete_record_def table_of_def Let_def)
  moreover have "list_all (\<lambda>r. fmlookup r ''id'' \<noteq> None) ?rows" using Cons.prems(2) by (simp add: list_all_iff)
  ultimately show ?case using Cons.IH [of "storage(del_table stmt \<mapsto> ?rows)" ?rows]
    by (simp del: fun_upd_apply add: fun_upd_same conj_commute)
qed

text \<open>Redoing what a statement logged, on the storage it started from.\<close>

lemma redo_dml:
  assumes "run_dml d (storage, txn) = Inr (storage', txn')" "keyed_storage storage" "keyed_storage storage'"
    "keeps_ids d" "row_order ord" "list_all (\<lambda>wr. row_safe (wr_newRow wr)) (dml_records d storage)"
  shows "fold (log_redo ord junk tid) (dml_records d storage) storage = storage'"
proof -
  obtain rows where rows: "storage (dml_table d) = Some rows" "storage' = storage(dml_table d \<mapsto> dml_rows d rows)"
    by (rule run_dml_Inr [OF assms(1)])
  have "keyed (table_of s t)" if "keyed_storage s" for s t using that unfolding keyed_storage_def by (rule spec)
  from this [OF assms(2), of "dml_table d"] this [OF assms(3), of "dml_table d"]
  have k: "keyed rows" "keyed (dml_rows d rows)" using rows by (simp_all add: table_of_def)
  have rows': "table_of storage (dml_table d) = rows" using rows(1) by (simp add: table_of_def)
  show ?thesis
  proof (cases d)
    case (Ins stmt)
    then show ?thesis using redo_insert [OF assms(5), of _ rows storage stmt] assms(6) k rows
      by (simp add: insert_record_def)
  next
    case (Upd stmt)
    have "list_all (\<lambda>r. matches (upd_where stmt) r \<longrightarrow> row_safe
        (if matches (upd_where stmt) r then assign (upd_assignments stmt) r else r)) rows"
      using assms(6) rows' Upd by (auto simp: list_all_iff update_record_def Let_def)
    then show ?thesis using redo_update [OF assms(5), of stmt "[]" rows storage] assms(4) k rows rows' Upd by simp
  next
    case (Del stmt)
    have "inj_on row_key (set rows)" using k by (simp add: keyed_def distinct_map)
    then have "filter (\<lambda>r. row_key r \<notin> row_key ` set (filter (matches (del_where stmt)) rows)) rows =
        filter (\<lambda>r. \<not> matches (del_where stmt) r) rows"
      by (intro filter_cong) (auto dest: inj_onD)
    then show ?thesis using redo_delete [of storage stmt rows] k rows rows' Del by (simp add: keyed_def)
  qed
qed

lemma redo_run:
  assumes "dml_run keeps_ids s (storage', t')" "tx_active (snd s)" "row_order ord"
    "list_all (\<lambda>wr. row_safe (wr_newRow wr)) (tx_writeLog t')"
  shows "keyed_storage storage' \<and> (\<exists>new. t' = (snd s)\<lparr>tx_writeLog := tx_writeLog (snd s) @ new\<rparr> \<and>
    fold (log_redo ord junk tid) new (fst s) = storage')"
  using assms(1,2,4)
proof (induction s "(storage', t')" arbitrary: storage' t' rule: dml_run.induct)
  case (dml_none storage t)
  then show ?case by (auto intro!: exI [of _ "[]"])
next
  case (dml_step s storage t d storage' t')
  have t': "Some t' = logs (dml_records d storage) (Some t)" by (rule run_dml_Inr [OF dml_step(4)]) simp
  then have "list_all (\<lambda>wr. row_safe (wr_newRow wr)) (tx_writeLog t)"
    using dml_step.prems(2) by (simp add: logs_def split: if_splits)
  then obtain new where new: "t = (snd s)\<lparr>tx_writeLog := tx_writeLog (snd s) @ new\<rparr>"
    "fold (log_redo ord junk tid) new (fst s) = storage" "keyed_storage storage"
    using dml_step(2) dml_step.prems(1) by auto
  then have act: "tx_active t" using dml_step.prems by (simp add: tx_active_def)
  have t'': "t' = t\<lparr>tx_writeLog := tx_writeLog t @ dml_records d storage\<rparr>" using t' by (simp add: logs_active [OF act])
  have "fold (log_redo ord junk tid) (dml_records d storage) storage = storage'"
    using dml_step(3,5) dml_step.prems(2) t'' by (intro redo_dml [OF dml_step(4) new(3) _ _ assms(3)]) simp_all
  then show ?case using new t'' dml_step(5) by (intro conjI exI [of _ "new @ dml_records d storage"]) simp_all
qed

section \<open>The log of a commit\<close>

definition log_holds :: "logRecord list \<Rightarrow> wal \<Rightarrow> bool" where
  "log_holds recs w \<longleftrightarrow> fs_good (wal_file w) \<and> fs_bytes (wal_file w) = concat (map rec_bytes recs) \<and> list_all rec_fits recs"

lemma wal_append_holds:
  "log_holds recs w \<Longrightarrow> rec_fits rec \<Longrightarrow> log_holds (recs @ [rec\<lparr>lr_lsn := wal_nextLsn w\<rparr>]) (snd (wal_append rec w))"
  by (auto simp: log_holds_def wal_append_def wal_writeRecord_bytes rec_fits_def fs_write_def fs_seekp_def fs_good_def Let_def)

lemma append_all_holds:
  "log_holds recs w \<Longrightarrow> list_all rec_fits new \<Longrightarrow>
   \<exists>new'. log_holds (recs @ new') (append_all new w) \<and> list_all2 (\<lambda>a b. \<exists>n. b = a\<lparr>lr_lsn := n\<rparr>) new new'"
proof (induction new arbitrary: recs w)
  case Nil
  then show ?case by (auto simp: append_all_def)
next
  case (Cons rec new)
  let ?rec = "rec\<lparr>lr_lsn := wal_nextLsn w\<rparr>"
  have "log_holds (recs @ [?rec]) (snd (wal_append rec w))" using Cons.prems by (simp add: wal_append_holds)
  then obtain new' where "log_holds ((recs @ [?rec]) @ new') (append_all new (snd (wal_append rec w)))"
    "list_all2 (\<lambda>a b. \<exists>n. b = a\<lparr>lr_lsn := n\<rparr>) new new'" using Cons.IH Cons.prems(2) by fastforce
  then have "log_holds (recs @ ?rec # new') (append_all (rec # new) w)"
    "list_all2 (\<lambda>a b. \<exists>n. b = a\<lparr>lr_lsn := n\<rparr>) (rec # new) (?rec # new')"
    by (auto simp: append_all_def)
  then show ?case by blast
qed

lemma log_holds_readAll: "log_holds recs w \<Longrightarrow> fst (wal_readAll w) = recs"
  using read_records_feed [of recs "fs_clear (fs_seekg 0 (wal_file w))" "[]"]
  by (auto simp: log_holds_def wal_readAll_def fs_clear_def fs_seekg_def fs_good_def Let_def)

lemma redo_lsn: "redo (rec\<lparr>lr_lsn := n\<rparr>) = redo rec"
  by (rule ext, cases "lr_type rec") (simp_all add: redo_def Let_def)

lemma redo_relabelled:
  "list_all2 (\<lambda>a b. \<exists>n. b = a\<lparr>lr_lsn := n\<rparr>) new new' \<Longrightarrow> fold redo new' storage = fold redo new storage"
  by (induction new new' arbitrary: storage rule: list_all2_induct) (auto simp: redo_lsn)

lemma relabelled_fields:
  assumes "list_all2 (\<lambda>a b. \<exists>n. b = a\<lparr>lr_lsn := n\<rparr>) new new'"
  shows "lr_txnId ` set new' = lr_txnId ` set new" "lr_type ` set new' = lr_type ` set new"
  using assms by (induction new new' rule: list_all2_induct) auto

lemma marks_do_nothing:
  "lr_type rec = LgBegin \<Longrightarrow> redo rec storage = storage" "lr_type rec = LgCommit \<Longrightarrow> redo rec storage = storage"
  "lr_type rec = LgBegin \<Longrightarrow> undo rec storage = storage"
  by (simp_all add: redo_def undo_def Let_def)

lemma only_begins:
  "list_all (\<lambda>rec. lr_type rec = LgBegin) recs \<Longrightarrow> fold redo recs storage = storage"
  "list_all (\<lambda>rec. lr_type rec = LgBegin) recs \<Longrightarrow> fold undo recs storage = storage"
  by (induction recs) (simp_all add: marks_do_nothing)

lemma recover_one_commit:
  assumes "list_all (\<lambda>rec. lr_type rec = LgBegin) begun"
    and "list_all2 (\<lambda>a b. \<exists>n. b = a\<lparr>lr_lsn := n\<rparr>) (map (write_log_record ord junk tid) wrs @ [mark_record LgCommit junk tid]) new"
  shows "recover_records (begun @ new) storage = fold (log_redo ord junk tid) wrs storage"
proof -
  have "lr_txnId ` set new \<subseteq> {tid}" "LgCommit \<in> lr_type ` set new"
    unfolding relabelled_fields [OF assms(2)] by (auto simp: mark_record_def write_log_record_def)
  then have ids: "list_all (\<lambda>rec. lr_txnId rec = tid) new" and "tid \<in> lr_txnId ` {rec \<in> set new. lr_type rec = LgCommit}"
    by (auto simp: list_all_iff)
  then have c: "tid \<in> committed_txns (begun @ new)" by (auto simp: committed_txns_def)
  let ?in = "\<lambda>rec. lr_txnId rec \<in> committed_txns (begun @ new)"
  have begun: "fold redo (filter P begun) s = s" "fold undo (filter P (rev begun)) s = s" for P s
    using assms(1) by (simp_all add: only_begins list_all_iff)
  have "filter ?in new = new" "filter (\<lambda>rec. \<not> ?in rec) (rev new) = []"
    using ids c by (auto simp: list_all_iff filter_id_conv filter_empty_conv)
  then have "recover_records (begun @ new) storage = fold redo new storage"
    by (simp add: recover_records_def begun Let_def)
  also have "\<dots> = fold redo (map (write_log_record ord junk tid) wrs @ [mark_record LgCommit junk tid]) storage"
    by (rule redo_relabelled [OF assms(2)])
  also have "\<dots> = fold (log_redo ord junk tid) wrs storage"
    by (simp add: marks_do_nothing mark_record_def log_redo_def [abs_def] fold_map comp_def)
  finally show ?thesis .
qed

text \<open>
  C9. What COMMIT logs would be enough. Given a log whose stream works, which the stream of a \<open>WAL\<close>
  object does not (\<open>wal_never_writes\<close>), and which holds only beginnings of transactions; a transaction of
  INSERTs, UPDATEs and DELETEs that assign no \<open>id\<close> in an UPDATE and leave every row with an \<open>id\<close> of its
  own; and logged rows that the text format can hold (no empty column name, no \<open>=\<close> or \<open>;\<close> in one, no
  \<open>;\<close> in a value): recovery from the log after COMMIT, of the tables as the transaction found them, gives the
  tables as it left them, row by row and in order.
\<close>

theorem commit_durable:
  assumes "dml_run keeps_ids (storage, Transaction_init tid) (storage', t)" "row_order ord"
    and "list_all (\<lambda>wr. row_safe (wr_newRow wr) \<and> rec_fits (write_log_record ord junk tid wr)) (tx_writeLog t)"
    and "tm_transactions m tid = Some t" "tm_wal m = Some w"
    and "log_holds begun w" "list_all (\<lambda>rec. lr_type rec = LgBegin) begun"
  shows "case tm_commit ord junk tid m of Inl _ \<Rightarrow> False
    | Inr m' \<Rightarrow> (case tm_wal m' of None \<Rightarrow> False | Some w' \<Rightarrow> fst (wal_recover storage w') = storage')"
proof -
  have safe: "list_all (\<lambda>wr. row_safe (wr_newRow wr)) (tx_writeLog t)"
    "list_all rec_fits (map (write_log_record ord junk tid) (tx_writeLog t))"
    using assms(3) by (simp_all add: list_all_iff)
  obtain new where t: "t = (Transaction_init tid)\<lparr>tx_writeLog := new\<rparr>"
    "fold (log_redo ord junk tid) new storage = storage'"
    using redo_run [OF assms(1) _ assms(2) safe(1), of junk tid] by auto
  then have act: "tx_active t" "tx_writeLog t = new" by (simp_all add: tx_active_def)
  let ?new = "end_records LgCommit ord junk t tid"
  have "list_all rec_fits ?new" using safe(2) by (simp add: end_records_def mark_record_def rec_fits_def)
  from append_all_holds [OF assms(6) this] obtain new' where new': "log_holds (begun @ new') (append_all ?new w)"
    "list_all2 (\<lambda>a b. \<exists>n. b = a\<lparr>lr_lsn := n\<rparr>) ?new new'" by blast
  have "fst (wal_recover storage (append_all ?new w)) = recover_records (begun @ new') storage"
    using log_holds_readAll [OF new'(1)]
    by (cases "wal_readAll (append_all ?new w)") (simp add: wal_recover_def)
  also have "\<dots> = storage'"
    using recover_one_commit [OF assms(7), of ord junk tid new new'] new'(2) act(2) t(2) by (simp add: end_records_def)
  finally show ?thesis using act assms(4,5) by (simp add: tm_commit_def tm_get_def)
qed

theorem commit_durable_witness:
  "\<exists>t. case tm_commit sorted_ord 0 1 ((TransactionManager_init
        (Some \<lparr>wal_file = \<lparr>fs_bytes = [], fs_pos = 0, fs_eof = False, fs_fail = False\<rparr>, wal_nextLsn = 1\<rparr>))
        \<lparr>tm_transactions := [1 \<mapsto> t]\<rparr>) of Inl _ \<Rightarrow> False
    | Inr m' \<Rightarrow> (case tm_wal m' of None \<Rightarrow> False
        | Some w' \<Rightarrow> fst (wal_recover [''t'' \<mapsto> []] w') = [''t'' \<mapsto> [fmap_of_list [(''id'', ''7'')]]])"
proof -
  let ?stmt = "\<lparr>ins_table = ''t'', ins_columns = [''id''], ins_values = [LiteralExpr LkInteger ''7'']\<rparr>"
  let ?row = "fmap_of_list [(''id'', ''7'')]"
  let ?t = "tx_logWrite (insert_record ?stmt ?row) (Transaction_init 1)"
  let ?w = "\<lparr>wal_file = \<lparr>fs_bytes = [], fs_pos = 0, fs_eof = False, fs_fail = False\<rparr>, wal_nextLsn = 1\<rparr>"
  let ?m = "(TransactionManager_init (Some ?w))\<lparr>tm_transactions := [1 \<mapsto> ?t]\<rparr>"
  have run: "run_dml (Ins ?stmt) ([''t'' \<mapsto> []], Some (Transaction_init 1)) = Inr ([''t'' \<mapsto> [?row]], Some ?t)"
    by (simp add: executeInsert_def log_change_def insert_record_def extractLiteral_def)
  have k: "keyed_storage [''t'' \<mapsto> []]" "keyed_storage [''t'' \<mapsto> [?row]]"
    by (simp_all add: keyed_storage_def table_of_def keyed_def fmlookup_of_list)
  have r: "dml_run keeps_ids ([''t'' \<mapsto> []], Transaction_init 1) ([''t'' \<mapsto> [?row]], ?t)"
    by (rule dml_step [OF dml_none [OF k(1)] _ run k(2)]) simp
  have "row_safe ?row" by (auto simp: row_safe_def fmpred_iff field_safe_def split: if_splits)
  moreover have "serializeRow sorted_ord ?row = ''id=7;''" "serializeRow sorted_ord fmempty = []"
    by (simp_all add: serializeRow_def sorted_ord_def sorted_list_of_fset.rep_eq)
  ultimately have "list_all (\<lambda>wr. row_safe (wr_newRow wr) \<and> rec_fits (write_log_record sorted_ord 0 1 wr)) (tx_writeLog ?t)"
    by (simp add: insert_record_def write_log_record_def rec_fits_def row_key_def)
  from commit_durable [OF r sorted_ord_order this, of ?m ?w "[]"]
  have "case tm_commit sorted_ord 0 1 ?m of Inl _ \<Rightarrow> False
    | Inr m' \<Rightarrow> (case tm_wal m' of None \<Rightarrow> False | Some w' \<Rightarrow> fst (wal_recover [''t'' \<mapsto> []] w') = [''t'' \<mapsto> [?row]])"
    by (simp add: TransactionManager_init_def log_holds_def fs_good_def)
  then show ?thesis by (rule exI [where x = ?t])
qed

end
