(* ===== verification/Session.thy ===== *)
theory Session
  imports Rollback
begin

text \<open>
  Transactions that run at the same time: the executor, the transaction manager and its lock
  manager together. A session is a sequence of whole calls, whatever clients they come from. The
  code leaves it to the clients to lock what they write; \<open>careful\<close> is the rule under which they
  do not disturb each other, and the last section shows what happens without it.
\<close>

section \<open>Calls\<close>

record session =
  ss_storage :: table_storage
  ss_mgr :: txn_manager

definition session_init :: "wal option \<Rightarrow> table_storage \<Rightarrow> session" where
  "session_init w storage = \<lparr>ss_storage = storage, ss_mgr = TransactionManager_init w\<rparr>"

datatype session_event =
    SBegin lsn
  | SLock txn_id string lockMode
  | SCreate createTableStatement
  | SExec txn_id dml
  | SCommit row_ord lsn txn_id
  | SRollback row_ord lsn txn_id

text \<open>A statement runs with the pointer to its transaction in the manager's map.\<close>

definition put_txn :: "txn_id \<Rightarrow> transaction option \<Rightarrow> txn_manager \<Rightarrow> txn_manager" where
  "put_txn tid txn m = (case txn of None \<Rightarrow> m | Some t \<Rightarrow> m\<lparr>tm_transactions := (tm_transactions m)(tid \<mapsto> t)\<rparr>)"

text \<open>A call that throws changes nothing.\<close>

fun session_do :: "session_event \<Rightarrow> session \<Rightarrow> session" where
  "session_do (SBegin junk) s = s\<lparr>ss_mgr := snd (tm_begin junk (ss_mgr s))\<rparr>"
| "session_do (SLock tid r mode) s = s\<lparr>ss_mgr := snd (tm_acquire tid r mode (ss_mgr s))\<rparr>"
| "session_do (SCreate stmt) s =
    (case executeCreateTable stmt (ss_storage s) of Inl _ \<Rightarrow> s | Inr storage \<Rightarrow> s\<lparr>ss_storage := storage\<rparr>)"
| "session_do (SExec tid d) s =
    (case run_dml d (ss_storage s, tm_transactions (ss_mgr s) tid) of Inl _ \<Rightarrow> s
     | Inr (storage, txn) \<Rightarrow> \<lparr>ss_storage = storage, ss_mgr = put_txn tid txn (ss_mgr s)\<rparr>)"
| "session_do (SCommit ord junk tid) s =
    (case tm_commit ord junk tid (ss_mgr s) of Inl _ \<Rightarrow> s | Inr m \<Rightarrow> s\<lparr>ss_mgr := m\<rparr>)"
| "session_do (SRollback ord junk tid) s =
    (case tm_rollback ord junk tid (ss_storage s) (ss_mgr s) of Inl _ \<Rightarrow> s
     | Inr (storage, m) \<Rightarrow> \<lparr>ss_storage = storage, ss_mgr = m\<rparr>)"

section \<open>The rule for clients\<close>

text \<open>
  A row is named by its table and key, and \<open>lname\<close> gives the lock that guards it; several rows may
  share one. A statement is run by an active transaction that holds the exclusive lock of every
  row it writes; it assigns no \<open>id\<close>, has a value for every column it inserts, and leaves the tables
  keyed. It may be an INSERT, an UPDATE or a DELETE, and it may throw.
\<close>

type_synonym row_name = "string \<times> string"

definition written :: "writeRecord \<Rightarrow> row_name" where
  "written wr = (wr_table wr, wr_key wr)"

definition locked_writes :: "(row_name \<Rightarrow> string) \<Rightarrow> lock_table \<Rightarrow> txn_id \<Rightarrow> writeRecord list \<Rightarrow> bool" where
  "locked_writes lname locks tid recs \<longleftrightarrow> list_all (\<lambda>wr. holds locks tid (lname (written wr)) Exclusive) recs"

definition statement_ok :: "dml \<Rightarrow> bool" where
  "statement_ok d \<longleftrightarrow> keeps_ids d \<and>
    (case d of Ins stmt \<Rightarrow> length (ins_columns stmt) \<le> length (ins_values stmt) | _ \<Rightarrow> True)"

fun careful :: "(row_name \<Rightarrow> string) \<Rightarrow> session_event \<Rightarrow> session \<Rightarrow> bool" where
  "careful lname (SExec tid d) s \<longleftrightarrow>
    (case tm_transactions (ss_mgr s) tid of None \<Rightarrow> False | Some t \<Rightarrow> tx_active t) \<and>
    statement_ok d \<and>
    (case run_dml d (ss_storage s, tm_transactions (ss_mgr s) tid) of Inl _ \<Rightarrow> True
     | Inr (storage, _) \<Rightarrow> keyed_storage storage \<and>
         locked_writes lname (tm_locks (ss_mgr s)) tid (dml_records d (ss_storage s)))"
| "careful lname _ s \<longleftrightarrow> True"

fun careful_run :: "(row_name \<Rightarrow> string) \<Rightarrow> session_event list \<Rightarrow> session \<Rightarrow> bool" where
  "careful_run lname [] s \<longleftrightarrow> True"
| "careful_run lname (ev # evs) s \<longleftrightarrow> careful lname ev s \<and> careful_run lname evs (session_do ev s)"

section \<open>The ledger\<close>

text \<open>
  The abstract state: the tables there are, the committed rows, what each running transaction has
  inserted or updated, and what a reader of the tables sees. Commit moves a transaction's rows
  to the committed ones, rollback shows the committed rows again. A row that is deleted is gone
  at once and for good, from the committed rows too: ROLLBACK does not bring it back.
\<close>

type_synonym rows_map = "row_name \<rightharpoonup> row"

record ledger =
  lg_tables :: "string set"
  lg_committed :: rows_map
  lg_pending :: "txn_id \<Rightarrow> rows_map"
  lg_seen :: rows_map

definition rows_of :: "table_storage \<Rightarrow> rows_map" where
  "rows_of storage = (\<lambda>(t, k). view storage t k)"

definition ledger_init :: "table_storage \<Rightarrow> ledger" where
  "ledger_init storage = \<lparr>lg_tables = dom storage, lg_committed = rows_of storage, lg_pending = (\<lambda>_. Map.empty), lg_seen = rows_of storage\<rparr>"

text \<open>What a statement writes and what it deletes, given the rows that are seen.\<close>

fun spec_writes :: "dml \<Rightarrow> rows_map \<Rightarrow> rows_map" where
  "spec_writes (Ins stmt) seen =
    (let row = fmap_of_list (rev (zip (ins_columns stmt) (map extractLiteral (ins_values stmt))))
     in [(ins_table stmt, row_key row) \<mapsto> row])"
| "spec_writes (Upd stmt) seen = (\<lambda>(t, k). if t \<noteq> upd_table stmt then None
     else case seen (t, k) of None \<Rightarrow> None
       | Some r \<Rightarrow> if matches (upd_where stmt) r then Some (assign (upd_assignments stmt) r) else None)"
| "spec_writes (Del stmt) seen = Map.empty"

fun spec_deletes :: "dml \<Rightarrow> rows_map \<Rightarrow> row_name set" where
  "spec_deletes (Del stmt) seen = {(t, k). t = del_table stmt \<and>
     (case seen (t, k) of None \<Rightarrow> False | Some r \<Rightarrow> matches (del_where stmt) r)}"
| "spec_deletes d seen = {}"

fun ledger_do :: "session_event \<Rightarrow> ledger \<Rightarrow> ledger" where
  "ledger_do (SCreate stmt) g = g\<lparr>lg_tables := insert (ct_table stmt) (lg_tables g)\<rparr>"
| "ledger_do (SExec tid d) g = (if dml_table d \<notin> lg_tables g then g else
     let w = spec_writes d (lg_seen g); kept = - spec_deletes d (lg_seen g) in
     g\<lparr>lg_committed := lg_committed g |` kept,
       lg_pending := (lg_pending g)(tid := (lg_pending g tid ++ w) |` kept),
       lg_seen := (lg_seen g ++ w) |` kept\<rparr>)"
| "ledger_do (SCommit ord junk tid) g =
     g\<lparr>lg_committed := lg_committed g ++ lg_pending g tid, lg_pending := (lg_pending g)(tid := Map.empty)\<rparr>"
| "ledger_do (SRollback ord junk tid) g =
     g\<lparr>lg_pending := (lg_pending g)(tid := Map.empty),
       lg_seen := (\<lambda>x. if lg_pending g tid x = None then lg_seen g x else lg_committed g x)\<rparr>"
| "ledger_do _ g = g"

section \<open>Undoing, row by row\<close>

definition key_rollback :: "row_name \<Rightarrow> writeRecord \<Rightarrow> row option \<Rightarrow> row option" where
  "key_rollback x wr v = (if written wr \<noteq> x then v
     else case wr_type wr of WrInsert \<Rightarrow> None | _ \<Rightarrow> map_option (\<lambda>_. wr_oldRow wr) v)"

definition undoable :: "writeRecord \<Rightarrow> bool" where
  "undoable wr \<longleftrightarrow> wr_type wr = WrInsert \<or> has_key (wr_key wr) (wr_oldRow wr)"

lemma restore_first_eq: "keyed rows \<Longrightarrow> restore_first k old rows = fst (replace_first k old rows)"
  by (induction rows) (auto simp: keyed_def has_key_def split: prod.split)

lemma rollback_write_rows:
  assumes "keyed_storage storage" "undoable wr"
  shows "keyed_storage (rollback_write wr storage) \<and>
    rows_of (rollback_write wr storage) x = key_rollback x wr (rows_of storage x)"
proof -
  let ?rows = "table_of storage (wr_table wr)"
  obtain t k where x: "x = (t, k)" by (cases x)
  have keyed: "keyed ?rows" using assms(1) by (simp add: keyed_storage_def)
  show ?thesis
  proof (cases "wr_type wr = WrInsert")
    case True
    then show ?thesis using keyed_filter [OF keyed, of "wr_key wr"] assms(1) x
      by (auto simp: rollback_write_def key_rollback_def written_def rows_of_def view_upd keyed_upd Let_def)
        (simp_all add: view_def)
  next
    case False
    then have old: "has_key (wr_key wr) (wr_oldRow wr)" using assms(2) by (simp add: undoable_def)
    have eq: "rollback_write wr storage = storage(wr_table wr \<mapsto> fst (replace_first (wr_key wr) (wr_oldRow wr) ?rows))"
      using False by (cases "wr_type wr") (simp_all add: rollback_write_def restore_first_eq [OF keyed] Let_def)
    have kr: "key_rollback (t, k) wr v = (if written wr \<noteq> (t, k) then v else map_option (\<lambda>_. wr_oldRow wr) v)" for v
      using False by (cases "wr_type wr") (simp_all add: key_rollback_def)
    note rep = keyed_replace [OF keyed old]
    show ?thesis using rep assms(1)
      by (cases "rows_view ?rows (wr_key wr)")
        (auto simp: eq kr x written_def rows_of_def view_upd keyed_upd view_def)
  qed
qed

lemma fold_rollback_rows:
  "keyed_storage storage \<Longrightarrow> list_all undoable wrs \<Longrightarrow> keyed_storage (fold rollback_write wrs storage) \<and>
    rows_of (fold rollback_write wrs storage) x = fold (key_rollback x) wrs (rows_of storage x)"
  by (induction wrs arbitrary: storage) (simp_all add: rollback_write_rows)

lemma fold_key_rollback_None: "fold (key_rollback x) wrs None = None"
  by (induction wrs) (auto simp: key_rollback_def split: writeType.split)

lemma fold_key_rollback_other: "x \<notin> written ` set wrs \<Longrightarrow> fold (key_rollback x) wrs v = v"
  by (induction wrs arbitrary: v) (auto simp: key_rollback_def)

section \<open>One statement\<close>

lemma rows_view_Some: "keyed rows \<Longrightarrow> rows_view rows k = Some r \<longleftrightarrow> r \<in> set rows \<and> row_key r = k"
proof -
  assume "keyed rows"
  then have "distinct (map fst (map (\<lambda>r. (row_key r, r)) rows))" by (simp add: keyed_def comp_def)
  from map_of_eq_Some_iff [OF this] show ?thesis unfolding rows_view_def by auto
qed

lemma rows_view_map: "(\<And>r. row_key (f r) = row_key r) \<Longrightarrow> rows_view (map f rows) k = map_option f (rows_view rows k)"
  by (induction rows) (simp_all add: rows_view_def)

lemma rows_of_upd: "rows_of (storage(t \<mapsto> rows)) = (\<lambda>(t', k). if t' = t then rows_view rows k else rows_of storage (t', k))"
  by (auto simp: rows_of_def view_upd)

lemma rows_of_table: "storage t = Some rows \<Longrightarrow> rows_of storage (t, k) = rows_view rows k"
  by (simp add: rows_of_def view_def table_of_def)

lemma keyed_tableD: "keyed_storage storage \<Longrightarrow> storage t = Some rows \<Longrightarrow> keyed rows"
  unfolding keyed_storage_def table_of_def by (drule spec [of _ t]) simp

lemma rows_view_filter:
  "keyed rows \<Longrightarrow> rows_view (filter P rows) k =
    (case rows_view rows k of None \<Rightarrow> None | Some r \<Rightarrow> if P r then Some r else None)"
proof (induction rows)
  case (Cons r rows)
  then have "rows_view rows (row_key r) = None" by (auto simp: rows_view_None keyed_def)
  moreover have "rows_view (r # rows) k = (if k = row_key r then Some r else rows_view rows k)" for rows
    by (simp add: rows_view_def)
  ultimately show ?case using Cons by (auto simp: keyed_def split: option.split)
qed (simp add: rows_view_def)

lemma restrict_UNIV [simp]: "m |` UNIV = m"
  by (simp add: restrict_map_def)

lemma run_dml_Inl: "statement_ok d \<Longrightarrow> run_dml d (storage, txn) = Inl e \<Longrightarrow> storage (dml_table d) = None"
  by (cases d) (auto simp: statement_ok_def executeInsert_def executeUpdate_def executeDelete_def insert_row_eq
      split: option.splits prod.splits)

lemma run_dml_rows:
  assumes run: "run_dml d (storage, txn) = Inr (storage', txn')"
    and k: "keyed_storage storage" "keyed_storage storage'" and ok: "statement_ok d"
  shows "rows_of storage' = (rows_of storage ++ spec_writes d (rows_of storage)) |` (- spec_deletes d (rows_of storage)) \<and>
    dom (spec_writes d (rows_of storage)) \<union> spec_deletes d (rows_of storage) = written ` set (dml_records d storage) \<and>
    list_all undoable (dml_records d storage)"
proof -
  obtain rows where rows: "storage (dml_table d) = Some rows" "storage' = storage(dml_table d \<mapsto> dml_rows d rows)"
    by (rule run_dml_Inr [OF run])
  note keyed = keyed_tableD [OF k(1) rows(1)] keyed_tableD [OF k(2), of "dml_table d" "dml_rows d rows", unfolded rows(2)]
  note seen = rows_of_table [of storage, OF rows(1)]
  show ?thesis
  proof (cases d)
    case (Ins stmt)
    let ?row = "fmap_of_list (rev (zip (ins_columns stmt) (map extractLiteral (ins_values stmt))))"
    have k': "keyed (rows @ [?row])" using keyed(2) Ins by simp
    then have key: "has_key (row_key ?row) ?row" "rows_view rows (row_key ?row) = None"
      using keyed_snocD [OF k'] by (auto simp: rows_view_None list_all_iff keyed_def)
    from keyed_snoc [OF keyed(1) key] have v: "rows_view (rows @ [?row]) = (rows_view rows)(row_key ?row \<mapsto> ?row)" by simp
    have "rows_of storage' = rows_of storage ++ spec_writes d (rows_of storage)"
      unfolding rows(2) rows_of_upd using Ins seen by (intro ext) (auto simp: v Let_def split: if_splits)
    then show ?thesis using Ins by (simp add: Let_def insert_record_def written_def undoable_def)
  next
    case (Upd stmt)
    let ?f = "\<lambda>r. if matches (upd_where stmt) r then assign (upd_assignments stmt) r else r"
    have ids: "''id'' \<notin> fst ` set (upd_assignments stmt)" using ok Upd by (simp add: statement_ok_def)
    have key: "row_key (assign (upd_assignments stmt) r) = row_key r" for r
      using assign_key [OF ids, of r] by (simp add: row_key_def)
    then have v: "rows_view (map ?f rows) k = map_option ?f (rows_view rows k)" for k
      by (intro rows_view_map) simp
    have "rows_of storage' = rows_of storage ++ spec_writes d (rows_of storage)"
      unfolding rows(2) rows_of_upd using Upd seen by (intro ext) (auto simp: v map_add_def split: option.splits if_splits)
    moreover have "dom (spec_writes d (rows_of storage)) = written ` set (dml_records d storage)"
    proof -
      have at: "\<And>r. r \<in> set rows \<Longrightarrow> rows_view rows (row_key r) = Some r"
        "\<And>k r. rows_view rows k = Some r \<Longrightarrow> r \<in> set rows \<and> row_key r = k"
        by (simp_all add: rows_view_Some [OF keyed(1)])
      then have "dom (spec_writes d (rows_of storage)) = (\<lambda>k. (upd_table stmt, k)) ` row_key ` set (filter (matches (upd_where stmt)) rows)"
        using Upd seen at(1) by (auto simp: dom_def split: option.splits if_splits dest!: at(2) intro!: imageI)
      then show ?thesis using Upd rows(1) key by (simp add: image_image update_record_def written_def table_of_def Let_def)
    qed
    moreover have "list_all undoable (dml_records d storage)"
      using Upd rows(1) keyed(1) key
      by (auto simp: list_all_iff undoable_def update_record_def table_of_def keyed_def has_key_row_key Let_def)
    ultimately show ?thesis using Upd by simp
  next
    case (Del stmt)
    have "rows_of storage' = rows_of storage |` (- spec_deletes d (rows_of storage))"
      unfolding rows(2) rows_of_upd using Del seen
      by (intro ext) (auto simp: rows_view_filter [OF keyed(1)] restrict_map_def split: option.splits if_splits)
    moreover have "spec_deletes d (rows_of storage) = written ` set (dml_records d storage)"
    proof -
      have at: "\<And>r. r \<in> set rows \<Longrightarrow> rows_view rows (row_key r) = Some r"
        "\<And>k r. rows_view rows k = Some r \<Longrightarrow> r \<in> set rows \<and> row_key r = k"
        by (simp_all add: rows_view_Some [OF keyed(1)])
      then have "spec_deletes d (rows_of storage) = (\<lambda>k. (del_table stmt, k)) ` row_key ` set (filter (matches (del_where stmt)) rows)"
        using Del seen at(1) by (auto split: option.splits if_splits dest!: at(2) intro!: imageI)
      then show ?thesis using Del rows(1) by (simp add: image_image delete_record_def written_def table_of_def)
    qed
    moreover have "list_all undoable (dml_records d storage)"
      using Del rows(1) keyed(1)
      by (auto simp: list_all_iff undoable_def delete_record_def table_of_def keyed_def has_key_row_key)
    ultimately show ?thesis using Del by simp
  qed
qed

section \<open>The invariant\<close>

declare split_paired_All [simp del] split_paired_Ex [simp del]

text \<open>The locks guard the pending rows, and undoing a running transaction would show the committed rows.\<close>

definition pending_ok :: "(row_name \<Rightarrow> string) \<Rightarrow> ledger \<Rightarrow> lock_table \<Rightarrow> txn_id \<Rightarrow> writeRecord list \<Rightarrow> row_name \<Rightarrow> bool" where
  "pending_ok lname g locks tid log x \<longleftrightarrow>
     fst x \<in> lg_tables g \<and> holds locks tid (lname x) Exclusive \<and> lg_seen g x = lg_pending g tid x \<and>
     fold (key_rollback x) (rev log) (lg_seen g x) = lg_committed g x"

definition wrote :: "txn_manager \<Rightarrow> txn_id \<Rightarrow> row_name \<Rightarrow> bool" where
  "wrote m tid x \<longleftrightarrow> (case tm_transactions m tid of None \<Rightarrow> False
     | Some t \<Rightarrow> tx_active t \<and> x \<in> written ` set (tx_writeLog t))"

definition txn_ok :: "(row_name \<Rightarrow> string) \<Rightarrow> ledger \<Rightarrow> txn_manager \<Rightarrow> txn_id \<Rightarrow> bool" where
  "txn_ok lname g m tid \<longleftrightarrow> (\<forall>x. lg_pending g tid x \<noteq> None \<longrightarrow> wrote m tid x) \<and>
    (\<forall>t. tm_transactions m tid = Some t \<longrightarrow> tx_active t \<longrightarrow> list_all undoable (tx_writeLog t) \<and>
      (\<forall>x\<in>written ` set (tx_writeLog t). pending_ok lname g (tm_locks m) tid (tx_writeLog t) x))"

definition session_inv :: "(row_name \<Rightarrow> string) \<Rightarrow> session \<Rightarrow> ledger \<Rightarrow> bool" where
  "session_inv lname s g \<longleftrightarrow>
    keyed_storage (ss_storage s) \<and> rows_of (ss_storage s) = lg_seen g \<and> dom (ss_storage s) = lg_tables g \<and>
    locks_exclusive (tm_locks (ss_mgr s)) \<and> (\<forall>tid. txn_ok lname g (ss_mgr s) tid) \<and>
    (\<forall>x. (\<forall>tid. lg_pending g tid x = None) \<longrightarrow> lg_seen g x = lg_committed g x)"

lemma wroteE:
  assumes "txn_ok lname g m tid" "wrote m tid x"
  obtains t where "tm_transactions m tid = Some t" "tx_active t" "x \<in> written ` set (tx_writeLog t)"
    "pending_ok lname g (tm_locks m) tid (tx_writeLog t) x"
  using assms by (auto simp: wrote_def txn_ok_def split: option.splits)

lemma pending_wrote: "txn_ok lname g m tid \<Longrightarrow> lg_pending g tid x \<noteq> None \<Longrightarrow> wrote m tid x"
  by (simp add: txn_ok_def)

text \<open>At most one transaction has written a row, and no other holds a lock on it.\<close>

lemma wrote_alone:
  assumes "\<forall>tid. txn_ok lname g m tid" "locks_exclusive (tm_locks m)" "wrote m tid x"
    "holds (tm_locks m) tid' (lname x) mode"
  shows "tid' = tid"
proof -
  have "txn_ok lname g m tid" using assms(1) by simp
  then have "holds (tm_locks m) tid (lname x) Exclusive" by (rule wroteE [OF _ assms(3)]) (simp add: pending_ok_def)
  then show ?thesis using assms(2,4) unfolding locks_exclusive_def by blast
qed

lemma wrote_unique:
  assumes "\<forall>tid. txn_ok lname g m tid" "locks_exclusive (tm_locks m)" "wrote m tid x" "wrote m tid' x"
  shows "tid' = tid"
proof -
  have "txn_ok lname g m tid'" using assms(1) by simp
  then have "holds (tm_locks m) tid' (lname x) Exclusive" by (rule wroteE [OF _ assms(4)]) (simp add: pending_ok_def)
  then show ?thesis by (rule wrote_alone [OF assms(1-3)])
qed

text \<open>Another transaction is untouched when its own rows look as before and its locks stay.\<close>

lemma txn_ok_other:
  assumes "txn_ok lname g m tid" "tm_transactions m' tid = tm_transactions m tid" "lg_tables g \<subseteq> lg_tables g'"
    and "\<And>x. wrote m tid x \<Longrightarrow> holds (tm_locks m) tid (lname x) Exclusive \<Longrightarrow>
      holds (tm_locks m') tid (lname x) Exclusive \<and> lg_seen g' x = lg_seen g x \<and> lg_committed g' x = lg_committed g x"
    and "\<And>x. wrote m tid x \<or> lg_pending g' tid x \<noteq> None \<Longrightarrow> lg_pending g' tid x = lg_pending g tid x"
  shows "txn_ok lname g' m' tid"
proof -
  have w: "wrote m' tid x = wrote m tid x" for x using assms(2) by (simp add: wrote_def)
  have "wrote m' tid x" if "lg_pending g' tid x \<noteq> None" for x
    using that assms(5) [of x] pending_wrote [OF assms(1), of x] unfolding w by simp
  moreover have "list_all undoable (tx_writeLog t)" if "tm_transactions m' tid = Some t" "tx_active t" for t
    using assms(1,2) that by (simp add: txn_ok_def)
  moreover have "pending_ok lname g' (tm_locks m') tid (tx_writeLog t) x"
    if "tm_transactions m' tid = Some t" "tx_active t" "x \<in> written ` set (tx_writeLog t)" for t x
  proof -
    have "tm_transactions m tid = Some t" using assms(2) that(1) by simp
    then have x: "wrote m tid x" "pending_ok lname g (tm_locks m) tid (tx_writeLog t) x"
      using assms(1) that(2,3) unfolding wrote_def txn_ok_def by (simp, blast)
    then show ?thesis using assms(3) assms(4) [OF x(1)] assms(5) [of x] by (auto simp: pending_ok_def)
  qed
  ultimately show ?thesis unfolding txn_ok_def by blast
qed

lemma session_invD:
  assumes "session_inv lname s g"
  shows "keyed_storage (ss_storage s)" "rows_of (ss_storage s) = lg_seen g" "locks_exclusive (tm_locks (ss_mgr s))"
    "\<forall>tid. txn_ok lname g (ss_mgr s) tid"
    "(\<forall>tid. lg_pending g tid x = None) \<Longrightarrow> lg_seen g x = lg_committed g x"
    "dom (ss_storage s) = lg_tables g"
  using assms by (simp_all add: session_inv_def)

lemma exec_inv:
  assumes inv: "session_inv lname s g" and careful: "careful lname (SExec tid d) s"
  shows "session_inv lname (session_do (SExec tid d) s) (ledger_do (SExec tid d) g)"
proof (cases "ss_storage s (dml_table d)")
  case None
  then have "dml_table d \<notin> lg_tables g" using session_invD(6) [OF inv] by auto
  moreover have "run_dml d (ss_storage s, txn) \<noteq> Inr r" for txn r
    using None by (cases r) (auto elim: run_dml_Inr)
  then have "session_do (SExec tid d) s = s" by (auto split: sum.split)
  ultimately show ?thesis using inv by (simp only: ledger_do.simps if_True simp_thms)
next
  case (Some rows)
  let ?m = "ss_mgr s" and ?recs = "dml_records d (ss_storage s)"
  let ?w = "spec_writes d (lg_seen g)" and ?gone = "spec_deletes d (lg_seen g)"
  obtain t where t: "tm_transactions ?m tid = Some t" "tx_active t" and ok: "statement_ok d"
    using careful by (auto split: option.splits)
  obtain storage' txn' where run: "run_dml d (ss_storage s, Some t) = Inr (storage', txn')"
    using run_dml_Inl [OF ok, of "ss_storage s" "Some t"] Some by (cases "run_dml d (ss_storage s, Some t)") auto
  then have keyed': "keyed_storage storage'" and locked: "locked_writes lname (tm_locks ?m) tid ?recs"
    using careful t(1) by simp_all
  note keyed = session_invD(1) [OF inv] and seen = session_invD(2) [OF inv] and excl = session_invD(3) [OF inv]
    and txns = session_invD(4) [OF inv] and rest = session_invD(5) [OF inv]
  note eff = run_dml_rows [OF run keyed keyed' ok, unfolded seen]
  let ?t = "t\<lparr>tx_writeLog := tx_writeLog t @ ?recs\<rparr>"
  let ?m' = "?m\<lparr>tm_transactions := (tm_transactions ?m)(tid \<mapsto> ?t)\<rparr>" and ?g' = "ledger_do (SExec tid d) g"
  obtain rows' where storage': "storage' = (ss_storage s)(dml_table d \<mapsto> rows')" and txn': "txn' = Some ?t"
    by (rule run_dml_Inr [OF run]) (simp add: logs_active [OF t(2)])
  have do_eq: "session_do (SExec tid d) s = \<lparr>ss_storage = storage', ss_mgr = ?m'\<rparr>"
    using run t(1) by (simp add: put_txn_def txn')
  have tables: "dml_table d \<in> lg_tables g" using session_invD(6) [OF inv] Some by auto
  then have g': "lg_tables ?g' = lg_tables g" "lg_committed ?g' = lg_committed g |` (- ?gone)"
    "lg_pending ?g' = (lg_pending g)(tid := (lg_pending g tid ++ ?w) |` (- ?gone))"
    "lg_seen ?g' = (lg_seen g ++ ?w) |` (- ?gone)" by (simp_all add: Let_def)
  have recs: "x \<in> written ` set ?recs \<longleftrightarrow> ?w x \<noteq> None \<or> x \<in> ?gone" for x using eff by blast
  have lock: "holds (tm_locks ?m) tid (lname x) Exclusive" if "x \<in> written ` set ?recs" for x
    using locked that by (auto simp: locked_writes_def list_all_iff)
  have table: "fst x = dml_table d" if "x \<in> written ` set ?recs" for x
    using that by (cases d) (auto simp: written_def insert_record_def update_record_def delete_record_def Let_def)
  have apart: "x \<notin> written ` set ?recs" if "wrote ?m tid' x" "tid' \<noteq> tid" for x tid'
    using wrote_alone [OF txns excl that(1), of tid Exclusive] lock [of x] that(2) by blast
  have others: "txn_ok lname ?g' ?m' tid'" if "tid' \<noteq> tid" for tid'
  proof (rule txn_ok_other [of lname g ?m])
    fix x assume x: "wrote ?m tid' x"
    then have "?w x = None" "x \<notin> ?gone" using apart [OF x that] recs by auto
    then show "holds (tm_locks ?m') tid' (lname x) Exclusive \<and> lg_seen ?g' x = lg_seen g x \<and> lg_committed ?g' x = lg_committed g x"
      if "holds (tm_locks ?m) tid' (lname x) Exclusive"
      using that unfolding g' by (simp add: map_add_def)
  qed (use that txns in \<open>simp_all add: g' del: ledger_do.simps\<close>)
  have undo: "fold (key_rollback x) (rev ?recs) (lg_seen ?g' x) = (lg_seen g |` (- ?gone)) x" for x
  proof (cases "\<exists>stmt. d = Del stmt")
    case True
    then have w: "?w = Map.empty" by auto
    show ?thesis using recs [of x] unfolding g' w
      by (cases "x \<in> ?gone") (simp_all add: fold_key_rollback_None fold_key_rollback_other)
  next
    case False
    then have "?gone = {}" by (cases d) auto
    then show ?thesis using fold_rollback_rows [OF keyed', of "rev ?recs" x] eff undo_dml [OF run keyed' False] seen
      unfolding g' by simp
  qed
  have "txn_ok lname ?g' ?m' tid"
  proof -
    have old: "txn_ok lname g ?m tid" using txns by simp
    have "pending_ok lname ?g' (tm_locks ?m') tid (tx_writeLog ?t) x" if "x \<in> written ` set (tx_writeLog t @ ?recs)" for x
    proof (cases "x \<in> written ` set (tx_writeLog t)")
      case True
      then have "wrote ?m tid x" using t by (simp add: wrote_def)
      then have p: "pending_ok lname g (tm_locks ?m) tid (tx_writeLog t) x" using wroteE [OF old] t by fastforce
      then show ?thesis using undo [of x]
        by (cases "x \<in> ?gone"; cases "?w x") (simp_all add: pending_ok_def g' fold_key_rollback_None map_add_def del: ledger_do.simps)
    next
      case False
      then have x: "x \<in> written ` set ?recs" using that by auto
      have "\<not> wrote ?m tid x" using False t by (simp add: wrote_def)
      then have "lg_pending g tid' x = None" for tid'
        using apart [of tid' x] x pending_wrote txns by blast
      then have "lg_seen g x = lg_committed g x" using rest by blast
      then show ?thesis using undo [of x] lock [OF x] recs [of x] table [OF x] tables x False
        by (cases "x \<in> ?gone"; cases "?w x")
          (simp_all add: pending_ok_def g' fold_key_rollback_None fold_key_rollback_other map_add_def del: ledger_do.simps)
    qed
    moreover have "wrote ?m' tid x" if "lg_pending ?g' tid x \<noteq> None" for x
    proof -
      have "lg_pending g tid x \<noteq> None \<or> ?w x \<noteq> None" using that unfolding g'(3) by (auto simp: restrict_map_def split: if_splits)
      then have "x \<in> written ` set (tx_writeLog t) \<union> written ` set ?recs"
        using pending_wrote [OF old, of x] t recs [of x] by (auto simp: wrote_def)
      then show ?thesis using t by (auto simp: wrote_def tx_active_def)
    qed
    ultimately show ?thesis using old t eff unfolding txn_ok_def by (simp add: tx_active_def del: ledger_do.simps)
  qed
  with others have "txn_ok lname ?g' ?m' tid'" for tid' by (cases "tid' = tid") blast+
  moreover have "lg_seen ?g' x = lg_committed ?g' x" if "\<forall>tid. lg_pending ?g' tid x = None" for x
  proof (cases "x \<in> ?gone")
    case False
    have w: "?w x = None" "lg_pending g tid' x = None" for tid'
      using that [THEN spec, of tid] that [THEN spec, of tid'] False unfolding g'(3) by (auto split: if_splits)
    from rest [OF allI, OF w(2)] w(1) False show ?thesis unfolding g' by (simp add: map_add_def)
  qed (unfold g', simp)
  moreover have "dom storage' = lg_tables ?g'" using session_invD(6) [OF inv] Some unfolding storage' g' by auto
  moreover have "rows_of storage' = lg_seen ?g'" using eff unfolding g' by simp
  ultimately show ?thesis using keyed' excl unfolding session_inv_def do_eq
    by (intro conjI allI impI) (simp_all del: ledger_do.simps)
qed

text \<open>Calls that write no row.\<close>

lemma begin_inv:
  assumes inv: "session_inv lname s g"
  shows "session_inv lname (session_do (SBegin junk) s) (ledger_do (SBegin junk) g)"
proof -
  let ?m = "ss_mgr s" and ?m' = "snd (tm_begin junk (ss_mgr s))"
  have locks: "tm_locks ?m' = tm_locks ?m" by (simp add: tm_begin_def Let_def)
  have "txn_ok lname g ?m' tid" for tid
  proof -
    have ok: "txn_ok lname g ?m tid" using session_invD(4) [OF inv] by simp
    show ?thesis
    proof (cases "tm_transactions ?m' tid = tm_transactions ?m tid")
      case True
      then show ?thesis by (intro txn_ok_other [OF ok]) (simp_all add: locks)
    next
      case False
      then have "tm_transactions ?m tid = None" "tm_transactions ?m' tid = Some (Transaction_init tid)"
        by (auto simp: tm_begin_def Let_def split: option.splits if_splits)
      with ok show ?thesis by (simp add: txn_ok_def wrote_def)
    qed
  qed
  moreover note locks
  ultimately show ?thesis using inv by (simp add: session_inv_def)
qed

lemma lock_inv:
  assumes inv: "session_inv lname s g"
  shows "session_inv lname (session_do (SLock tid r mode) s) (ledger_do (SLock tid r mode) g)"
proof -
  let ?m = "ss_mgr s" and ?m' = "snd (tm_acquire tid r mode (ss_mgr s))"
  obtain b locks where acq: "acquireLock tid r mode (tm_locks ?m) = (b, locks)" by fastforce
  then have m': "?m' = ?m\<lparr>tm_locks := locks\<rparr>" by (simp add: tm_acquire_def)
  have "txn_ok lname g ?m' tid'" for tid'
    by (rule txn_ok_other [of lname g ?m]) (use session_invD(4) [OF inv] holds_acquire [OF acq] in \<open>simp_all add: m'\<close>)
  moreover have "locks_exclusive locks"
    by (rule lock_step_exclusive [OF lock_step.acquire [OF acq] session_invD(3) [OF inv]])
  ultimately show ?thesis using inv by (simp add: session_inv_def m')
qed

lemma create_inv:
  assumes inv: "session_inv lname s g"
  shows "session_inv lname (session_do (SCreate stmt) s) (ledger_do (SCreate stmt) g)"
proof (cases "ss_storage s (ct_table stmt)")
  case None
  have "txn_ok lname (g\<lparr>lg_tables := insert (ct_table stmt) (lg_tables g)\<rparr>) (ss_mgr s) tid" for tid
    by (rule txn_ok_other [of lname g "ss_mgr s"]) (use session_invD(4) [OF inv] in auto)
  moreover  have "rows_of ((ss_storage s)(ct_table stmt \<mapsto> [])) = rows_of (ss_storage s)"
    using None by (auto simp: rows_of_upd fun_eq_iff rows_view_def rows_of_def view_def table_of_def)
  moreover have "keyed_storage ((ss_storage s)(ct_table stmt \<mapsto> []))"
    using session_invD(1) [OF inv] by (rule keyed_upd) (simp add: keyed_def)
  moreover have "dom ((ss_storage s)(ct_table stmt \<mapsto> [])) = insert (ct_table stmt) (lg_tables g)"
    using session_invD(6) [OF inv] by simp
  ultimately show ?thesis using inv None by (simp add: session_inv_def executeCreateTable_def)
next
  case (Some rows)
  then have "ledger_do (SCreate stmt) g = g" using session_invD(6) [OF inv] by (cases g) auto
  then show ?thesis using inv Some by (simp add: executeCreateTable_def del: ledger_do.simps)
qed

section \<open>Both ends of a transaction\<close>

lemma no_pending:
  assumes "txn_ok lname g m tid" "\<not> (\<exists>t. tm_transactions m tid = Some t \<and> tx_active t)"
  shows "lg_pending g tid = Map.empty"
  using assms by (auto simp: txn_ok_def wrote_def fun_eq_iff split: option.splits)

lemma ledger_no_end:
  assumes "lg_pending g tid = Map.empty"
  shows "ledger_do (SCommit ord junk tid) g = g" "ledger_do (SRollback ord junk tid) g = g"
  using assms by (simp_all add: fun_upd_idem)

text \<open>
  What both ends have in common: the transaction is over and its locks are gone; the rows it
  wrote are shown as the committed ones, all others as before.
\<close>

lemma end_inv:
  assumes inv: "session_inv lname s g" and t: "tm_transactions (ss_mgr s) tid = Some t" "\<not> tx_active t'"
    and m': "tm_transactions m' = (tm_transactions (ss_mgr s))(tid \<mapsto> t')" "tm_locks m' = releaseAll tid (tm_locks (ss_mgr s))"
    and g': "lg_pending g' = (lg_pending g)(tid := Map.empty)" "lg_tables g' = lg_tables g"
    and storage': "keyed_storage storage'" "rows_of storage' = lg_seen g'" "dom storage' = dom (ss_storage s)"
    and mine: "\<And>x. wrote (ss_mgr s) tid x \<Longrightarrow> lg_seen g' x = lg_committed g' x"
    and other: "\<And>x. \<not> wrote (ss_mgr s) tid x \<Longrightarrow> lg_seen g' x = lg_seen g x \<and> lg_committed g' x = lg_committed g x"
  shows "session_inv lname \<lparr>ss_storage = storage', ss_mgr = m'\<rparr> g'"
proof -
  have "txn_ok lname g' m' tid'" for tid'
  proof (cases "tid' = tid")
    case True
    then show ?thesis using t(2) by (simp add: txn_ok_def m' g')
  next
    case False
    have "\<not> wrote (ss_mgr s) tid x" if "wrote (ss_mgr s) tid' x" for x
      using wrote_unique [OF session_invD(4,3) [OF inv] that, of tid] False by blast
    note apart = this
    have "txn_ok lname g (ss_mgr s) tid'" using session_invD(4) [OF inv] by simp
    then show ?thesis by (rule txn_ok_other) (simp_all add: m' g' holds_releaseAll False other apart)
  qed
  moreover have "lg_seen g' x = lg_committed g' x" if "\<forall>tid. lg_pending g' tid x = None" for x
  proof (cases "wrote (ss_mgr s) tid x")
    case False
    then have "lg_pending g tid x = None" using session_invD(4) [OF inv] pending_wrote by blast
    then have "\<forall>tid. lg_pending g tid x = None" using that by (auto simp: g' split: if_splits)
    from session_invD(5) [OF inv this] show ?thesis using other [OF False] by simp
  qed (rule mine)
  moreover have "locks_exclusive (tm_locks m')"
    using lock_step_exclusive [OF lock_step.release session_invD(3) [OF inv]] by (simp add: m')
  ultimately show ?thesis using storage' session_invD(6) [OF inv] g'(2) by (simp add: session_inv_def)
qed

lemma fold_rollback_dom:
  "wr_table ` set wrs \<subseteq> dom storage \<Longrightarrow> dom (fold rollback_write wrs storage) = dom storage"
proof (induction wrs arbitrary: storage)
  case (Cons wr wrs)
  then have "dom (rollback_write wr storage) = dom storage" by (auto simp: rollback_write_def Let_def)
  then show ?case using Cons by simp
qed simp

lemma commit_inv:
  assumes inv: "session_inv lname s g"
  shows "session_inv lname (session_do (SCommit ord junk tid) s) (ledger_do (SCommit ord junk tid) g)"
proof (cases "\<exists>t. tm_transactions (ss_mgr s) tid = Some t \<and> tx_active t")
  case False
  then have "lg_pending g tid = Map.empty" using session_invD(4) [OF inv] no_pending by blast
  note same = ledger_no_end(1) [OF this]
  have "session_do (SCommit ord junk tid) s = s"
    using False by (auto simp: tm_commit_def tm_get_def split: option.splits)
  then show ?thesis using inv by (simp only: same)
next
  case True
  then obtain t where t: "tm_transactions (ss_mgr s) tid = Some t" "tx_active t" by blast
  then obtain m' where m': "tm_commit ord junk tid (ss_mgr s) = Inr m'" by (auto simp: tm_commit_def tm_get_def)
  from tm_commit_Inr [OF m'] t have "tm_transactions m' = (tm_transactions (ss_mgr s))(tid \<mapsto> tx_commit t)"
    "tm_locks m' = releaseAll tid (tm_locks (ss_mgr s))" by auto
  moreover have ok: "txn_ok lname g (ss_mgr s) tid" using session_invD(4) [OF inv] by simp
  have "lg_seen g x = (lg_committed g ++ lg_pending g tid) x" if "wrote (ss_mgr s) tid x" for x
  proof (rule wroteE [OF ok that])
    fix t assume "pending_ok lname g (tm_locks (ss_mgr s)) tid (tx_writeLog t) x"
    then show ?thesis by (cases "lg_pending g tid x") (auto simp: pending_ok_def map_add_def fold_key_rollback_None)
  qed
  moreover have "lg_pending g tid x = None" if "\<not> wrote (ss_mgr s) tid x" for x using pending_wrote [OF ok] that by blast
  ultimately have "session_inv lname \<lparr>ss_storage = ss_storage s, ss_mgr = m'\<rparr> (ledger_do (SCommit ord junk tid) g)"
    by (intro end_inv [OF inv t(1)]) (auto simp: session_invD(1,2) [OF inv] map_add_def)
  then show ?thesis using m' by (cases s) simp
qed

lemma rollback_inv:
  assumes inv: "session_inv lname s g"
  shows "session_inv lname (session_do (SRollback ord junk tid) s) (ledger_do (SRollback ord junk tid) g)"
proof (cases "\<exists>t. tm_transactions (ss_mgr s) tid = Some t \<and> tx_active t")
  case False
  then have "lg_pending g tid = Map.empty" using session_invD(4) [OF inv] no_pending by blast
  note same = ledger_no_end(2) [OF this]
  have "session_do (SRollback ord junk tid) s = s"
    using False by (auto simp: tm_rollback_def tm_get_def split: option.splits)
  then show ?thesis using inv by (simp only: same)
next
  case True
  then obtain t where t: "tm_transactions (ss_mgr s) tid = Some t" "tx_active t" by blast
  then obtain storage' m' where m': "tm_rollback ord junk tid (ss_storage s) (ss_mgr s) = Inr (storage', m')"
    by (auto simp: tm_rollback_def tm_get_def)
  from tm_rollback_Inr [OF m'] t have e: "tm_transactions m' = (tm_transactions (ss_mgr s))(tid \<mapsto> tx_abort t)"
    "tm_locks m' = releaseAll tid (tm_locks (ss_mgr s))" "storage' = fold rollback_write (rev (tx_writeLog t)) (ss_storage s)"
    by auto
  have ok: "txn_ok lname g (ss_mgr s) tid" using session_invD(4) [OF inv] by simp
  then have log: "list_all undoable (rev (tx_writeLog t))"
    "x \<in> written ` set (tx_writeLog t) \<Longrightarrow> pending_ok lname g (tm_locks (ss_mgr s)) tid (tx_writeLog t) x" for x
    using t unfolding txn_ok_def by auto
  note undone = fold_rollback_rows [OF session_invD(1) [OF inv] log(1), folded e(3), unfolded session_invD(2) [OF inv]]
  let ?g = "ledger_do (SRollback ord junk tid) g"
  have shown: "rows_of storage' x = lg_seen ?g x \<and> (wrote (ss_mgr s) tid x \<longrightarrow> lg_seen ?g x = lg_committed g x) \<and>
      (\<not> wrote (ss_mgr s) tid x \<longrightarrow> lg_seen ?g x = lg_seen g x)" for x
  proof (cases "wrote (ss_mgr s) tid x")
    case False
    then have "x \<notin> written ` set (rev (tx_writeLog t))" using t by (simp add: wrote_def)
    moreover have "lg_pending g tid x = None" using pending_wrote [OF ok, of x] False by blast
    ultimately show ?thesis using undone [THEN conjunct2] False by (simp add: fold_key_rollback_other)
  next
    case True
    then have "pending_ok lname g (tm_locks (ss_mgr s)) tid (tx_writeLog t) x" using t log(2) by (simp add: wrote_def)
    then show ?thesis using undone [THEN conjunct2] True
      by (cases "lg_pending g tid x") (auto simp: pending_ok_def fold_key_rollback_None)
  qed
  have "wr_table ` set (rev (tx_writeLog t)) \<subseteq> dom (ss_storage s)"
    using log(2) session_invD(6) [OF inv] by (force simp: pending_ok_def written_def)
  then have "dom storage' = dom (ss_storage s)" unfolding e(3) by (rule fold_rollback_dom)
  moreover have "rows_of storage' = lg_seen ?g" using shown by blast
  ultimately have "session_inv lname \<lparr>ss_storage = storage', ss_mgr = m'\<rparr> ?g"
    using undone [THEN conjunct1] shown by (intro end_inv [OF inv t(1) _ e(1,2)]) simp_all
  then show ?thesis using m' by simp
qed

lemma session_step_inv:
  "session_inv lname s g \<Longrightarrow> careful lname ev s \<Longrightarrow> session_inv lname (session_do ev s) (ledger_do ev g)"
  by (cases ev) (simp_all only: begin_inv lock_inv create_inv exec_inv commit_inv rollback_inv)

lemma session_run_inv:
  "session_inv lname s g \<Longrightarrow> careful_run lname evs s \<Longrightarrow> session_inv lname (fold session_do evs s) (fold ledger_do evs g)"
  by (induction evs arbitrary: s g) (simp_all add: session_step_inv)

lemma session_init_inv: "keyed_storage storage \<Longrightarrow> session_inv lname (session_init w storage) (ledger_init storage)"
  by (simp add: session_inv_def session_init_def ledger_init_def TransactionManager_init_def txn_ok_def
      locks_exclusive_def holds_def entries_def)

section \<open>What a careful session guarantees\<close>

text \<open>
  C2. Transactions whose clients follow one rule do not disturb each other. The rule (\<open>careful\<close>): a
  statement runs in a running transaction that holds the exclusive lock of every row it inserts,
  updates or deletes; it leaves every row of the tables with an \<open>id\<close> of its own; an UPDATE assigns no
  \<open>id\<close>, and an INSERT has a value for each column. Then, however the calls of the transactions
  interleave, lock requests that fail and statements that throw included, the tables show for
  each key the row of the ledger. COMMIT makes exactly the rows permanent that the transaction
  inserted and updated; ROLLBACK shows the committed rows in their place and leaves what all others
  wrote, committed or not. A DELETE takes effect for good at once: ROLLBACK does not bring its rows
  back. What no running transaction has inserted or updated is committed.
\<close>

theorem session_refines:
  assumes "keyed_storage storage" "careful_run lname evs (session_init w storage)"
  shows "let s = fold session_do evs (session_init w storage); g = fold ledger_do evs (ledger_init storage) in
    keyed_storage (ss_storage s) \<and> rows_of (ss_storage s) = lg_seen g \<and>
    (\<forall>x. (\<forall>tid. lg_pending g tid x = None) \<longrightarrow> lg_seen g x = lg_committed g x) \<and>
    (\<forall>tid. lg_pending g tid \<noteq> Map.empty \<longrightarrow> (\<exists>t. tm_transactions (ss_mgr s) tid = Some t \<and> tx_active t))"
proof -
  note inv = session_run_inv [OF session_init_inv [OF assms(1)] assms(2)]
  have "\<exists>t. tm_transactions (ss_mgr (fold session_do evs (session_init w storage))) tid = Some t \<and> tx_active t"
    if "lg_pending (fold ledger_do evs (ledger_init storage)) tid \<noteq> Map.empty" for tid
    using that no_pending session_invD(4) [OF inv] by blast
  then show ?thesis using session_invD(1,2,5) [OF inv] by (simp add: Let_def)
qed

abbreviation demo_lock :: "row_name \<Rightarrow> string" where
  "demo_lock \<equiv> \<lambda>(t, k). t @ '':'' @ k"

abbreviation one_row :: "string \<Rightarrow> table_storage" where
  "one_row a \<equiv> [''t'' \<mapsto> [fmap_of_list [(''id'', ''1''), (''a'', a)]]]"

abbreviation set_a :: "string \<Rightarrow> updateStatement" where
  "set_a a \<equiv> \<lparr>upd_table = ''t'', upd_assignments = [(''a'', LiteralExpr LkInteger a)], upd_where = None\<rparr>"

lemma one_row_keyed: "keyed_storage (one_row a)"
  by (simp add: keyed_storage_def table_of_def keyed_def fmlookup_of_list)

lemma set_a_run:
  assumes "tx_active txn"
  shows "run_dml (Upd (set_a b)) (one_row a, Some txn) =
    Inr (one_row b, Some (tx_logWrite \<lparr>wr_type = WrUpdate, wr_table = ''t'', wr_key = ''1'',
      wr_oldRow = fmap_of_list [(''id'', ''1''), (''a'', a)], wr_newRow = fmap_of_list [(''id'', ''1''), (''a'', b)]\<rparr> txn))"
proof -
  have "assign (upd_assignments (set_a b)) (fmap_of_list [(''id'', ''1''), (''a'', a)]) = fmap_of_list [(''id'', ''1''), (''a'', b)]"
    by (rule fmap_ext) (auto simp: assign_def resolveExpr_def)
  moreover have "row_key (fmap_of_list [(''id'', ''1''), (''a'', b)]) = ''1''" by (simp add: row_key_def)
  ultimately show ?thesis using assms
    by (simp add: executeUpdate_def matches_def log_change_def Let_def del: fmap_of_list_simps)
qed

lemma careful_example:
  "careful_run demo_lock [SBegin 0, SLock 1 ''t:1'' Exclusive, SExec 1 (Upd (set_a ''2'')), SRollback sorted_ord 0 1]
    (session_init None (one_row ''1''))"
proof -
  let ?s0 = "session_init None (one_row ''1'')"
  let ?s1 = "session_do (SBegin 0) ?s0"
  let ?s2 = "session_do (SLock 1 ''t:1'' Exclusive) ?s1"
  have s2: "ss_storage ?s2 = one_row ''1''" "tm_transactions (ss_mgr ?s2) 1 = Some (Transaction_init 1)"
    "holds (tm_locks (ss_mgr ?s2)) 1 ''t:1'' Exclusive"
    by (simp_all add: session_init_def TransactionManager_init_def tm_begin_def tm_acquire_def acquireLock_def entries_def holds_def)
  have recs: "dml_records (Upd (set_a ''2'')) (one_row ''1'') = [update_record (set_a ''2'') (fmap_of_list [(''id'', ''1''), (''a'', ''1'')])]"
    by (simp add: table_of_def matches_def)
  have "row_key (assign (upd_assignments (set_a ''2'')) (fmap_of_list [(''id'', ''1''), (''a'', ''1'')])) = ''1''"
    by (simp add: row_key_def assign_def)
  then have "locked_writes demo_lock (tm_locks (ss_mgr ?s2)) 1 (dml_records (Upd (set_a ''2'')) (one_row ''1''))"
    using s2(3) unfolding recs by (simp add: locked_writes_def written_def update_record_def Let_def del: fmap_of_list_simps)
  then have "careful demo_lock (SExec 1 (Upd (set_a ''2''))) ?s2"
    using s2(1,2) set_a_run [of "Transaction_init 1" "''2''" "''1''"] one_row_keyed [of "''2''"]
    by (simp add: statement_ok_def del: session_do.simps run_dml.simps dml_records.simps fmap_of_list_simps)
  then show ?thesis by (simp del: session_do.simps careful.simps add: careful.simps(2-))
qed

theorem session_refines_witness:
  "let s = fold session_do [SBegin 0, SLock 1 ''t:1'' Exclusive, SExec 1 (Upd (set_a ''2'')), SRollback sorted_ord 0 1]
       (session_init None (one_row ''1''));
     g = fold ledger_do [SBegin 0, SLock 1 ''t:1'' Exclusive, SExec 1 (Upd (set_a ''2'')), SRollback sorted_ord 0 1]
       (ledger_init (one_row ''1'')) in
    keyed_storage (ss_storage s) \<and> rows_of (ss_storage s) = lg_seen g \<and>
    (\<forall>x. (\<forall>tid. lg_pending g tid x = None) \<longrightarrow> lg_seen g x = lg_committed g x) \<and>
    (\<forall>tid. lg_pending g tid \<noteq> Map.empty \<longrightarrow> (\<exists>t. tm_transactions (ss_mgr s) tid = Some t \<and> tx_active t))"
  by (rule session_refines [OF one_row_keyed careful_example])

text \<open>
  C13. In a session whose clients all follow the rule of \<open>careful\<close> (writers hold the exclusive locks of the
  rows they write, every row keeps an \<open>id\<close> of its own, no UPDATE assigns one), which nothing in
  the engine enforces, a transaction that holds a lock on a row, shared or exclusive, reads no
  uncommitted INSERT or UPDATE of another: it sees the row it has written itself, and
  otherwise the committed one. A DELETE counts as committed at once.
\<close>

theorem locked_read_committed:
  assumes "keyed_storage storage" "careful_run lname evs (session_init w storage)"
    and "holds (tm_locks (ss_mgr (fold session_do evs (session_init w storage)))) tid (lname x) mode"
  shows "rows_of (ss_storage (fold session_do evs (session_init w storage))) x =
    (let g = fold ledger_do evs (ledger_init storage) in
     case lg_pending g tid x of Some row \<Rightarrow> Some row | None \<Rightarrow> lg_committed g x)"
proof -
  let ?g = "fold ledger_do evs (ledger_init storage)"
  note inv = session_run_inv [OF session_init_inv [OF assms(1)] assms(2)]
  have ok: "txn_ok lname ?g (ss_mgr (fold session_do evs (session_init w storage))) tid" using session_invD(4) [OF inv] by simp
  show ?thesis
  proof (cases "lg_pending ?g tid x")
    case (Some row)
    then have "wrote (ss_mgr (fold session_do evs (session_init w storage))) tid x" using pending_wrote [OF ok] by simp
    then show ?thesis using session_invD(2) [OF inv] Some by (rule_tac wroteE [OF ok]) (auto simp: pending_ok_def)
  next
    case None
    have "lg_pending ?g tid' x = None" for tid'
    proof (rule ccontr)
      assume p: "lg_pending ?g tid' x \<noteq> None"
      then have "wrote (ss_mgr (fold session_do evs (session_init w storage))) tid' x"
        using session_invD(4) [OF inv] pending_wrote by blast
      from wrote_alone [OF session_invD(4,3) [OF inv] this assms(3)] p None show False by simp
    qed
    from session_invD(5) [OF inv allI, OF this] show ?thesis using session_invD(2) [OF inv] None by simp
  qed
qed

theorem locked_read_committed_witness:
  "rows_of (ss_storage (fold session_do [SLock 5 ''t:1'' Shared] (session_init None (one_row ''1'')))) (''t'', ''1'') =
    (let g = fold ledger_do [SLock 5 ''t:1'' Shared] (ledger_init (one_row ''1'')) in
     case lg_pending g 5 (''t'', ''1'') of Some row \<Rightarrow> Some row | None \<Rightarrow> lg_committed g (''t'', ''1''))"
  by (rule locked_read_committed [OF one_row_keyed, where lname = demo_lock and mode = Shared])
    (simp_all add: session_init_def TransactionManager_init_def tm_acquire_def acquireLock_def entries_def holds_def)

section \<open>Without locks\<close>

lemma update_keyed:
  assumes "run_dml (Upd stmt) (storage, txn) = Inr (storage', txn')" "keyed_storage storage" "keeps_ids (Upd stmt)"
  shows "keyed_storage storage'"
proof -
  obtain rows where rows: "storage (upd_table stmt) = Some rows" "storage' = storage(upd_table stmt \<mapsto> dml_rows (Upd stmt) rows)"
    by (rule run_dml_Inr [OF assms(1)]) simp
  have key: "fmlookup (assign (upd_assignments stmt) r) ''id'' = fmlookup r ''id''" for r
    using assms(3) by (intro assign_key) simp
  then have "row_key (assign (upd_assignments stmt) r) = row_key r" for r by (simp add: row_key_def)
  then have "keyed (dml_rows (Upd stmt) rows)" using keyed_tableD [OF assms(2) rows(1)] key
    by (auto simp: keyed_def list_all_iff comp_def if_distrib cong: if_cong)
  then show ?thesis unfolding rows(2) by (rule keyed_upd [OF assms(2)])
qed

lemma fold_key_rollback_updates:
  assumes "list_all (\<lambda>wr. wr_type wr \<noteq> WrInsert) wrs" "x \<in> written ` set wrs"
  shows "fold (key_rollback x) wrs (Some a) = fold (key_rollback x) wrs (Some b)"
proof -
  have step: "key_rollback x wr (Some c) = Some (if written wr = x then wr_oldRow wr else c)" if "wr_type wr \<noteq> WrInsert" for wr c
    using that by (cases "wr_type wr") (simp_all add: key_rollback_def)
  show ?thesis using assms by (induction wrs arbitrary: a b) (auto simp: step)
qed

text \<open>
  C14. Nothing in the engine takes those locks, and without them ROLLBACK destroys committed work:
  let two transactions run an UPDATE each, the second commit and the first roll back. Every
  row the first one wrote gets the value back that it had before both, also where the second
  one's committed value stood; the second transaction stays committed.
\<close>

theorem rollback_overwrites_commit:
  assumes "keyed_storage storage" "keeps_ids (Upd stmt1)" "keeps_ids (Upd stmt2)" "i \<noteq> j"
    and "tm_transactions m i = Some (Transaction_init i)" "tm_transactions m j = Some (Transaction_init j)"
    and "run_dml (Upd stmt1) (storage, Some (Transaction_init i)) = Inr (storage1, Some t1)"
    and "run_dml (Upd stmt2) (storage1, Some (Transaction_init j)) = Inr (storage2, Some t2)"
  shows "let s = fold session_do [SExec i (Upd stmt1), SExec j (Upd stmt2), SCommit ord junk j, SRollback ord' junk' i]
      \<lparr>ss_storage = storage, ss_mgr = m\<rparr> in
    tm_get j (ss_mgr s) = Inr (tx_commit t2) \<and>
    (\<forall>x. rows_of (ss_storage s) x =
      (if spec_writes (Upd stmt1) (rows_of storage) x = None then rows_of storage2 x else rows_of storage x))"
proof -
  let ?recs = "dml_records (Upd stmt1) storage"
  note k1 = update_keyed [OF assms(7,1,2)]
  note k2 = update_keyed [OF assms(8) k1 assms(3)]
  have ok: "statement_ok (Upd stmt1)" "statement_ok (Upd stmt2)" using assms(2,3) by (simp_all add: statement_ok_def)
  note eff1 = run_dml_rows [OF assms(7,1) k1 ok(1)] and eff2 = run_dml_rows [OF assms(8) k1 k2 ok(2)]
  have t1: "t1 = (Transaction_init i)\<lparr>tx_writeLog := ?recs\<rparr>"
    by (rule run_dml_Inr [OF assms(7)]) (simp add: logs_active)
  have t2: "tx_active t2" by (rule run_dml_Inr [OF assms(8)]) (simp add: logs_active, simp add: tx_active_def)
  have undo1: "fold (key_rollback x) (rev ?recs) (rows_of storage1 x) = rows_of storage x" for x
    using fold_rollback_rows [OF k1, of "rev ?recs" x] eff1 undo_dml [OF assms(7) k1] by simp
  have "rows_of (fold rollback_write (rev ?recs) storage2) x =
      (if spec_writes (Upd stmt1) (rows_of storage) x = None then rows_of storage2 x else rows_of storage x)" for x
  proof -
    have "rows_of (fold rollback_write (rev ?recs) storage2) x = fold (key_rollback x) (rev ?recs) (rows_of storage2 x)"
      using fold_rollback_rows [OF k2, of "rev ?recs" x] eff1 by simp
    also have "\<dots> = (if spec_writes (Upd stmt1) (rows_of storage) x = None then rows_of storage2 x else rows_of storage x)"
    proof (cases "spec_writes (Upd stmt1) (rows_of storage) x")
      case None
      then have "x \<notin> written ` set (rev ?recs)" using eff1 by auto
      then show ?thesis using None by (simp add: fold_key_rollback_other)
    next
      case (Some r)
      then have x: "x \<in> written ` set (rev ?recs)" using eff1 by auto
      obtain r1 where "rows_of storage1 x = Some r1" using eff1 Some by simp
      moreover obtain r2 where "rows_of storage2 x = Some r2"
        using eff2 calculation by (cases "spec_writes (Upd stmt2) (rows_of storage1) x") (auto simp: map_add_def)
      moreover have "list_all (\<lambda>wr. wr_type wr \<noteq> WrInsert) (rev ?recs)"
        by (simp add: list_all_iff update_record_def Let_def)
      ultimately show ?thesis using fold_key_rollback_updates [OF _ x, of r2 r1] undo1 [of x] Some by simp
    qed
    finally show ?thesis .
  qed
  moreover have "tx_active t1" "tx_writeLog t1 = ?recs" by (simp_all add: t1 tx_active_def)
  ultimately show ?thesis using assms(4-8) t2
    by (simp add: put_txn_def tm_commit_def tm_rollback_def tm_get_def Let_def del: run_dml.simps)
qed

theorem rollback_overwrites_commit_witness:
  "\<exists>m t2. let s = fold session_do [SExec 1 (Upd (set_a ''2'')), SExec 2 (Upd (set_a ''3'')), SCommit sorted_ord 0 2, SRollback sorted_ord 0 1]
      \<lparr>ss_storage = one_row ''1'', ss_mgr = m\<rparr> in
    tm_get 2 (ss_mgr s) = Inr (tx_commit t2) \<and>
    (\<forall>x. rows_of (ss_storage s) x =
      (if spec_writes (Upd (set_a ''2'')) (rows_of (one_row ''1'')) x = None then rows_of (one_row ''3'') x
       else rows_of (one_row ''1'') x))"
proof -
  let ?m = "snd (tm_begin 0 (snd (tm_begin 0 (TransactionManager_init None))))"
  have "tm_transactions ?m 1 = Some (Transaction_init 1)" "tm_transactions ?m 2 = Some (Transaction_init 2)"
    by (simp_all add: tm_begin_def TransactionManager_init_def)
  note hyps = one_row_keyed _ _ _ this set_a_run set_a_run
  show ?thesis by (intro exI) (rule rollback_overwrites_commit [OF hyps], simp_all)
qed

end
