(* ===== verification/Disk.thy ===== *)
theory Disk
  imports Stream
begin

text \<open>
  Pages (include/page.h) and the disk manager (include/disk_manager.h, src/disk_manager.cpp).
  A page is its 4096 bytes with a dirty flag and a pin count; the header is the first twelve
  bytes. The disk manager reads and writes whole pages of one file. Its operations may throw
  after they changed the stream, so an operation returns its result or error and the new state.
\<close>

section \<open>Operations that may throw\<close>

datatype store_error = Page_does_not_exist page_id | Read_failed page_id | Write_failed page_id
  | Cannot_open | Pool_full | Undefined_behaviour

type_synonym ('s, 'a) eff = "'s \<Rightarrow> (store_error + 'a) \<times> 's"

definition eff_return :: "'a \<Rightarrow> ('s, 'a) eff" where
  "eff_return x s = (Inr x, s)"

definition eff_throw :: "store_error \<Rightarrow> ('s, 'a) eff" where
  "eff_throw e s = (Inl e, s)"

definition eff_bind :: "('s, 'a) eff \<Rightarrow> ('a \<Rightarrow> ('s, 'b) eff) \<Rightarrow> ('s, 'b) eff" where
  "eff_bind m k s = (case m s of (Inl e, s') \<Rightarrow> (Inl e, s') | (Inr x, s') \<Rightarrow> k x s')"

lemma eff_simps [simp]:
  "eff_bind (eff_return x) k = k x" "eff_bind (eff_throw e) k = eff_throw e"
  "eff_return x s = (Inr x, s)" "eff_throw e s = (Inl e, s)"
  by (simp_all add: fun_eq_iff eff_bind_def eff_return_def eff_throw_def)

lemma eff_bind_Inr [simp]: "m s = (Inr x, s') \<Longrightarrow> eff_bind m k s = k x s'"
  by (simp add: eff_bind_def)

lemma eff_bind_Inl [simp]: "m s = (Inl e, s') \<Longrightarrow> eff_bind m k s = (Inl e, s')"
  by (simp add: eff_bind_def)

section \<open>Bytes of a page\<close>

abbreviation PAGE_SIZE :: nat where "PAGE_SIZE \<equiv> 4096"
abbreviation HEADER_SIZE :: nat where "HEADER_SIZE \<equiv> 12"
abbreviation INVALID_PAGE_ID :: page_id where "INVALID_PAGE_ID \<equiv> 0xFFFFFFFF"

definition peek :: "nat \<Rightarrow> nat \<Rightarrow> string \<Rightarrow> string" where
  "peek off n data = take n (drop off data)"

definition get_field :: "nat \<Rightarrow> nat \<Rightarrow> string \<Rightarrow> nat" where
  "get_field off n data = le_val (peek off n data)"

definition set_field :: "nat \<Rightarrow> nat \<Rightarrow> nat \<Rightarrow> string \<Rightarrow> string" where
  "set_field off n v data = overwrite off (le_bytes n v) data"

lemma peek_overwrite: "peek off (length bs) (overwrite off bs data) = bs"
  by (simp add: peek_def read_overwrite)

lemma peek_overwrite_other:
  assumes "off + n \<le> length data" "off + n \<le> pos \<or> pos + length bs \<le> off"
  shows "peek off n (overwrite pos bs data) = peek off n data"
proof (rule nth_equalityI)
  show "length (peek off n (overwrite pos bs data)) = length (peek off n data)"
    using assms(1) by (simp add: peek_def)
next
  fix i assume "i < length (peek off n (overwrite pos bs data))"
  then have "i < n" by (simp add: peek_def)
  then show "peek off n (overwrite pos bs data) ! i = peek off n data ! i"
    using assms by (auto simp: peek_def nth_overwrite)
qed

lemma get_set_field [simp]: "get_field off n (set_field off n v data) = v mod 256 ^ n"
  using peek_overwrite [of off "le_bytes n v" data] by (simp add: get_field_def set_field_def le_val_bytes)

lemma get_set_other:
  "off + n \<le> length data \<Longrightarrow> off + n \<le> off' \<or> off' + n' \<le> off \<Longrightarrow>
   get_field off n (set_field off' n' v data) = get_field off n data"
  by (simp add: get_field_def set_field_def peek_overwrite_other)

lemma length_set_field [simp]: "off + n \<le> length data \<Longrightarrow> length (set_field off n v data) = length data"
  by (simp add: set_field_def)

section \<open>Pages\<close>

record page =
  pg_data :: string
  pg_dirty :: bool
  pg_pins :: nat

definition page_bytes :: "page_id \<Rightarrow> string" where
  "page_bytes pid = set_field 8 4 0 (set_field 6 2 0 (set_field 4 2 (PAGE_SIZE - HEADER_SIZE)
     (set_field 0 4 (unat pid) (replicate PAGE_SIZE (CHR 0x00)))))"

definition Page_init :: "page_id \<Rightarrow> page" where
  "Page_init pid = \<lparr>pg_data = page_bytes pid, pg_dirty = False, pg_pins = 0\<rparr>"

definition pg_id :: "string \<Rightarrow> page_id" where
  "pg_id data = of_nat (get_field 0 4 data)"

definition pg_freeSpace :: "string \<Rightarrow> 16 word" where
  "pg_freeSpace data = of_nat (get_field 4 2 data)"

definition pg_recordCount :: "string \<Rightarrow> 16 word" where
  "pg_recordCount data = of_nat (get_field 6 2 data)"

definition pg_pin :: "page \<Rightarrow> page" where
  "pg_pin p = p\<lparr>pg_pins := pg_pins p + 1\<rparr>"

definition pg_unpin :: "page \<Rightarrow> page" where
  "pg_unpin p = (if 0 < pg_pins p then p\<lparr>pg_pins := pg_pins p - 1\<rparr> else p)"

definition pg_setDirty :: "bool \<Rightarrow> page \<Rightarrow> page" where
  "pg_setDirty d p = p\<lparr>pg_dirty := d\<rparr>"

lemma length_page_bytes [simp]: "length (page_bytes pid) = PAGE_SIZE"
  by (simp add: page_bytes_def)

lemma page_bytes_header:
  "pg_id (page_bytes pid) = pid" "pg_recordCount (page_bytes pid) = 0" "pg_freeSpace (page_bytes pid) = 4084"
proof -
  have "unat pid < 2 ^ LENGTH(32)" by (rule unsigned_less)
  then show "pg_id (page_bytes pid) = pid" by (simp add: pg_id_def page_bytes_def get_set_other)
qed (simp_all add: pg_recordCount_def pg_freeSpace_def page_bytes_def get_set_other)

section \<open>The disk manager\<close>

record disk =
  dk_file :: fstream
  dk_pageCount :: page_id

definition pageOffset :: "page_id \<Rightarrow> nat" where
  "pageOffset pid = unat pid * PAGE_SIZE"

definition DiskManager_open :: "string option \<Rightarrow> bool \<Rightarrow> store_error + disk" where
  "DiskManager_open existing creatable = (case fs_open existing creatable of None \<Rightarrow> Inl Cannot_open
     | Some f \<Rightarrow> let size = length (fs_bytes f); f' = fs_seekg size f
         in Inr \<lparr>dk_file = f', dk_pageCount = of_nat (size div PAGE_SIZE)\<rparr>)"

definition readPage :: "page_id \<Rightarrow> (disk, string) eff" where
  "readPage pid d =
    (if dk_pageCount d \<le> pid then (Inl (Page_does_not_exist pid), d)
     else case fs_read PAGE_SIZE (fs_seekg (pageOffset pid) (dk_file d)) of (bytes, f) \<Rightarrow>
       (if fs_fail f then Inl (Read_failed pid) else Inr bytes, d\<lparr>dk_file := f\<rparr>))"

definition writePage :: "page_id \<Rightarrow> string \<Rightarrow> (disk, unit) eff" where
  "writePage pid data d =
    (let f = fs_write data (fs_seekp (pageOffset pid) (dk_file d)) in
     if fs_fail f then (Inl (Write_failed pid), d\<lparr>dk_file := f\<rparr>)
     else (Inr (), d\<lparr>dk_file := f,
             dk_pageCount := if dk_pageCount d \<le> pid then pid + 1 else dk_pageCount d\<rparr>))"

definition allocatePage :: "(disk, page_id) eff" where
  "allocatePage d = (let newId = dk_pageCount d in
     eff_bind (writePage newId (pg_data (Page_init newId))) (\<lambda>_. eff_return newId) d)"

section \<open>The file as a map of pages\<close>

definition disk_ok :: "disk \<Rightarrow> bool" where
  "disk_ok d \<longleftrightarrow> fs_good (dk_file d) \<and> length (fs_bytes (dk_file d)) div PAGE_SIZE = unat (dk_pageCount d)"

definition disk_view :: "disk \<Rightarrow> page_id \<rightharpoonup> string" where
  "disk_view d pid = (if pid < dk_pageCount d then Some (peek (pageOffset pid) PAGE_SIZE (fs_bytes (dk_file d))) else None)"

lemma DiskManager_open_ok:
  assumes "DiskManager_open existing creatable = Inr d"
    and "length (case existing of None \<Rightarrow> [] | Some bytes \<Rightarrow> bytes) div PAGE_SIZE < 2 ^ 32"
  shows "disk_ok d \<and> fs_bytes (dk_file d) = (case existing of None \<Rightarrow> [] | Some bytes \<Rightarrow> bytes) \<and>
    unat (dk_pageCount d) = length (fs_bytes (dk_file d)) div PAGE_SIZE"
proof -
  obtain f where f: "fs_open existing creatable = Some f" using assms(1)
    by (auto simp: DiskManager_open_def split: option.splits)
  then have good: "fs_good f" "fs_bytes f = (case existing of None \<Rightarrow> [] | Some bytes \<Rightarrow> bytes)"
    by (auto simp: fs_open_def fs_good_def split: option.splits if_splits)
  have d: "d = \<lparr>dk_file = fs_seekg (length (fs_bytes f)) f, dk_pageCount = of_nat (length (fs_bytes f) div PAGE_SIZE)\<rparr>"
    using assms f by (simp add: DiskManager_open_def Let_def)
  have "unat (of_nat (length (fs_bytes f) div PAGE_SIZE) :: page_id) = length (fs_bytes f) div PAGE_SIZE"
    using assms(2) by (simp add: good unat_of_nat)
  then show ?thesis using good by (simp add: d disk_ok_def fs_seekg_def fs_good_def Let_def)
qed

lemma page_room:
  assumes "disk_ok d" "pid < dk_pageCount d"
  shows "pageOffset pid + PAGE_SIZE \<le> length (fs_bytes (dk_file d))"
proof -
  have "unat pid < unat (dk_pageCount d)" using assms(2) by (simp add: word_less_nat_alt)
  moreover have "unat (dk_pageCount d) * PAGE_SIZE \<le> length (fs_bytes (dk_file d))"
    using assms(1) div_times_less_eq_dividend [of "length (fs_bytes (dk_file d))" PAGE_SIZE] by (simp add: disk_ok_def)
  ultimately show ?thesis by (simp add: pageOffset_def)
qed

lemma disk_view_Some:
  assumes "disk_ok d" "disk_view d pid = Some data"
  shows "length data = PAGE_SIZE \<and> pid < dk_pageCount d"
  using assms page_room [OF assms(1), of pid] by (auto simp: disk_view_def peek_def split: if_splits)

lemma readPage_ok:
  assumes "disk_ok d" "disk_view d pid = Some data"
  shows "\<exists>d'. readPage pid d = (Inr data, d') \<and> disk_ok d' \<and> disk_view d' = disk_view d \<and> dk_pageCount d' = dk_pageCount d"
proof -
  have pid: "pid < dk_pageCount d" "data = peek (pageOffset pid) PAGE_SIZE (fs_bytes (dk_file d))"
    using assms(2) by (auto simp: disk_view_def split: if_splits)
  have "length (take PAGE_SIZE (drop (pageOffset pid) (fs_bytes (dk_file d)))) = PAGE_SIZE"
    using page_room [OF assms(1) pid(1)] by simp
  then show ?thesis using assms(1) pid
    by (auto simp: readPage_def fs_read_def fs_seekg_def disk_ok_def fs_good_def peek_def disk_view_def
        fun_eq_iff Let_def not_le)
qed

lemma readPage_missing: "disk_view d pid = None \<Longrightarrow> readPage pid d = (Inl (Page_does_not_exist pid), d)"
  by (simp add: disk_view_def readPage_def not_less split: if_splits)

lemma unat_next_page: "pid \<noteq> INVALID_PAGE_ID \<Longrightarrow> unat (pid + 1) = unat pid + 1"
proof -
  assume a: "pid \<noteq> INVALID_PAGE_ID"
  have "1 + pid \<noteq> 0"
  proof
    assume "1 + pid = 0"
    then have "pid = - 1" by (simp add: eq_neg_iff_add_eq_0 add.commute)
    then show False using a by simp
  qed
  then show ?thesis using unatSuc [of pid] by (simp add: add.commute)
qed

lemma less_not_invalid: "pid < n \<Longrightarrow> pid \<noteq> INVALID_PAGE_ID"
proof
  assume "pid < n" "pid = INVALID_PAGE_ID"
  moreover have "unat n < 2 ^ LENGTH(32)" by (rule unsigned_less)
  ultimately show False by (simp add: word_less_nat_alt)
qed

lemma max_div: "(max a b :: nat) div c = max (a div c) (b div c)"
  by (simp add: max_def div_le_mono) (metis div_le_mono le_antisym linorder_not_le order_less_imp_le)

lemma writePage_ok:
  assumes "disk_ok d" "pid \<le> dk_pageCount d" "pid \<noteq> INVALID_PAGE_ID" "length data = PAGE_SIZE"
  shows "\<exists>d'. writePage pid data d = (Inr (), d') \<and> disk_ok d' \<and> disk_view d' = (disk_view d)(pid \<mapsto> data) \<and>
    dk_pageCount d' = (if pid = dk_pageCount d then pid + 1 else dk_pageCount d)"
proof -
  let ?f = "fs_write data (fs_seekp (pageOffset pid) (dk_file d))"
  let ?n = "if dk_pageCount d \<le> pid then pid + 1 else dk_pageCount d"
  let ?d = "d\<lparr>dk_file := ?f, dk_pageCount := ?n\<rparr>"
  have f: "fs_good ?f" "\<not> fs_fail ?f" "fs_bytes ?f = overwrite (pageOffset pid) data (fs_bytes (dk_file d))"
    using assms(1) by (simp_all add: disk_ok_def fs_write_def fs_seekp_def fs_good_def)
  have le: "unat pid \<le> unat (dk_pageCount d)" using assms(2) by (simp add: word_le_nat_alt)
  have n: "?n = (if pid = dk_pageCount d then pid + 1 else dk_pageCount d)" using assms(2) by auto
  have n': "unat ?n = max (unat (dk_pageCount d)) (unat pid + 1)"
    using le unat_next_page [OF assms(3)] by (auto simp: n max_def word_unat_eq_iff)
  have "length (fs_bytes ?f) = max (length (fs_bytes (dk_file d))) ((unat pid + 1) * PAGE_SIZE)"
    unfolding f(3) length_overwrite by (simp add: assms(4) pageOffset_def add.commute)
  then have "length (fs_bytes ?f) div PAGE_SIZE = max (length (fs_bytes (dk_file d)) div PAGE_SIZE) (unat pid + 1)"
    by (simp add: max_div)
  then have ok: "disk_ok ?d" using f(1) assms(1) n' by (simp add: disk_ok_def)
  have "disk_view ?d q = ((disk_view d)(pid \<mapsto> data)) q" for q
  proof (cases "q = pid")
    case True
    have "pid < ?n" using n' by (simp add: word_less_nat_alt)
    then show ?thesis using True f(3) assms(4) peek_overwrite [of "pageOffset pid" data "fs_bytes (dk_file d)"]
      by (simp add: disk_view_def)
  next
    case False
    then have neq: "unat q \<noteq> unat pid" by (simp add: word_unat_eq_iff)
    then have same: "q < ?n \<longleftrightarrow> q < dk_pageCount d"
      using le unfolding word_less_nat_alt n' by auto
    have "pageOffset q + PAGE_SIZE \<le> pageOffset pid \<or> pageOffset pid + length data \<le> pageOffset q"
      using neq by (auto simp: pageOffset_def assms(4))
    then have "peek (pageOffset q) PAGE_SIZE (fs_bytes ?f) = peek (pageOffset q) PAGE_SIZE (fs_bytes (dk_file d))"
      if "q < dk_pageCount d" using page_room [OF assms(1) that] by (simp add: f(3) peek_overwrite_other)
    then show ?thesis using False same by (auto simp: disk_view_def)
  qed
  then have "disk_view ?d = (disk_view d)(pid \<mapsto> data)" by (rule ext)
  then show ?thesis using f(2) ok n by (intro exI [of _ ?d]) (simp add: writePage_def Let_def)
qed

lemma allocatePage_ok:
  assumes "disk_ok d" "dk_pageCount d \<noteq> INVALID_PAGE_ID"
  shows "\<exists>d'. allocatePage d = (Inr (dk_pageCount d), d') \<and> disk_ok d' \<and> dk_pageCount d' = dk_pageCount d + 1 \<and>
    disk_view d (dk_pageCount d) = None \<and> disk_view d' = (disk_view d)(dk_pageCount d \<mapsto> page_bytes (dk_pageCount d))"
  using writePage_ok [OF assms(1) order_refl assms(2) length_page_bytes, of "dk_pageCount d"]
  by (auto simp: allocatePage_def Page_init_def disk_view_def Let_def)

text \<open>Opening the file again finds the pages that were written.\<close>

lemma reopen_view:
  assumes "disk_ok d"
  shows "\<exists>d'. DiskManager_open (Some (fs_bytes (dk_file d))) creatable = Inr d' \<and> disk_view d' = disk_view d"
proof -
  have "(of_nat (length (fs_bytes (dk_file d)) div PAGE_SIZE) :: page_id) = dk_pageCount d"
    using assms by (simp add: disk_ok_def)
  then show ?thesis
    by (auto simp: DiskManager_open_def fs_open_def disk_view_def fs_seekg_def fun_eq_iff Let_def)
qed

end
