(* ===== verification/Buffer_Pool.thy ===== *)
theory Buffer_Pool
  imports Disk
begin

text \<open>
  The buffer pool (include/buffer_pool.h, src/buffer_pool.cpp): the pages in memory, the list of
  them from the most to the least recently used, and the iterators into that list, one for each
  page. A page is in the list once (\<open>pool_lists\<close> below), so an iterator is named by its page:
  \<open>bp_iters\<close> is the set of the keys of \<open>lruMap_\<close>. Clients hold pointers to pages: a client
  reads and writes the bytes of a page with \<open>page_data\<close> and \<open>poke\<close> between its calls.
\<close>

record pool =
  bp_size :: nat
  bp_disk :: disk
  bp_pages :: "(page_id, page) fmap"
  bp_lru :: "page_id list"
  bp_iters :: "page_id fset"

definition BufferPool_init :: "nat \<Rightarrow> disk \<Rightarrow> pool" where
  "BufferPool_init poolSize d = \<lparr>bp_size = poolSize, bp_disk = d, bp_pages = fmempty, bp_lru = [], bp_iters = {||}\<rparr>"

definition pagesInPool :: "pool \<Rightarrow> nat" where
  "pagesInPool bp = fcard (fmdom (bp_pages bp))"

definition on_disk :: "(disk, 'a) eff \<Rightarrow> (pool, 'a) eff" where
  "on_disk m bp = (case m (bp_disk bp) of (r, d) \<Rightarrow> (r, bp\<lparr>bp_disk := d\<rparr>))"

definition touchPage :: "page_id \<Rightarrow> pool \<Rightarrow> pool" where
  "touchPage pid bp = (let lru = (if pid |\<in>| bp_iters bp then remove1 pid (bp_lru bp) else bp_lru bp) in
     bp\<lparr>bp_lru := pid # lru, bp_iters := finsert pid (bp_iters bp)\<rparr>)"

text \<open>
  The walk from the back of the list: \<open>passed\<close> are the pages already skipped, the last one
  first. \<open>pages_[candidate]\<close> of a page that is not there would be a null pointer.
\<close>

fun evict_walk :: "page_id list \<Rightarrow> page_id list \<Rightarrow> (pool, bool) eff" where
  "evict_walk passed [] bp = (Inr False, bp)"
| "evict_walk passed (candidate # rest) bp = (case fmlookup (bp_pages bp) candidate of
     None \<Rightarrow> (Inl Undefined_behaviour, bp)
   | Some page \<Rightarrow>
       if 0 < pg_pins page then evict_walk (candidate # passed) rest bp
       else eff_bind (if pg_dirty page then on_disk (writePage candidate (pg_data page)) else eff_return ())
         (\<lambda>_ bp. (Inr True, bp\<lparr>bp_pages := fmdrop candidate (bp_pages bp),
            bp_iters := bp_iters bp |-| {|candidate|}, bp_lru := rev rest @ passed\<rparr>)) bp)"

definition evict :: "(pool, bool) eff" where
  "evict bp = evict_walk [] (rev (bp_lru bp)) bp"

text \<open>\<open>fetchPage\<close> and \<open>newPage\<close> both evict a page when the pool is full.\<close>

definition make_room :: "(pool, unit) eff" where
  "make_room bp = (if bp_size bp \<le> pagesInPool bp
     then eff_bind evict (\<lambda>ok. if ok then eff_return () else eff_throw Pool_full) bp
     else eff_return () bp)"

definition add_page :: "page_id \<Rightarrow> page \<Rightarrow> pool \<Rightarrow> pool" where
  "add_page pid page bp = bp\<lparr>bp_pages := fmupd pid page (bp_pages bp), bp_lru := pid # bp_lru bp,
     bp_iters := finsert pid (bp_iters bp)\<rparr>"

lemma pool_sel [simp]:
  "pagesInPool (bp\<lparr>bp_disk := d\<rparr>) = pagesInPool bp" "bp_disk (add_page pid page bp) = bp_disk bp"
  "bp_size (add_page pid page bp) = bp_size bp" "bp_pages (add_page pid page bp) = fmupd pid page (bp_pages bp)"
  by (simp_all add: pagesInPool_def add_page_def)

definition fetchPage :: "page_id \<Rightarrow> (pool, unit) eff" where
  "fetchPage pid bp = (case fmlookup (bp_pages bp) pid of
     Some page \<Rightarrow> let bp' = touchPage pid bp in (Inr (), bp'\<lparr>bp_pages := fmupd pid (pg_pin page) (bp_pages bp')\<rparr>)
   | None \<Rightarrow> eff_bind make_room (\<lambda>_. eff_bind (on_disk (readPage pid)) (\<lambda>data bp.
       (Inr (), add_page pid (pg_pin ((Page_init pid)\<lparr>pg_data := data\<rparr>)) bp))) bp)"

definition newPage :: "(pool, page_id) eff" where
  "newPage = eff_bind make_room (\<lambda>_. eff_bind (on_disk allocatePage) (\<lambda>newId bp.
     (Inr newId, add_page newId (pg_setDirty True (pg_pin (Page_init newId))) bp)))"

definition unpin :: "page_id \<Rightarrow> bool \<Rightarrow> pool \<Rightarrow> pool" where
  "unpin pid isDirty bp = (case fmlookup (bp_pages bp) pid of None \<Rightarrow> bp
     | Some page \<Rightarrow> let p = pg_unpin page; p' = (if isDirty then pg_setDirty True p else p)
         in bp\<lparr>bp_pages := fmupd pid p' (bp_pages bp)\<rparr>)"

definition flushPage :: "page_id \<Rightarrow> (pool, unit) eff" where
  "flushPage pid bp = (case fmlookup (bp_pages bp) pid of None \<Rightarrow> (Inr (), bp)
     | Some page \<Rightarrow> if pg_dirty page
         then eff_bind (on_disk (writePage pid (pg_data page)))
           (\<lambda>_ bp. (Inr (), bp\<lparr>bp_pages := fmupd pid (pg_setDirty False page) (bp_pages bp)\<rparr>)) bp
         else (Inr (), bp))"

text \<open>The loop over \<open>pages_\<close>, whose order is not specified: \<open>order\<close> lists the pages.\<close>

fun flushAll :: "page_id list \<Rightarrow> (pool, unit) eff" where
  "flushAll [] bp = (Inr (), bp)"
| "flushAll (pid # order) bp = eff_bind (flushPage pid) (\<lambda>_. flushAll order) bp"

text \<open>What a client does through the pointer it was given.\<close>

definition page_data :: "page_id \<Rightarrow> pool \<Rightarrow> string" where
  "page_data pid bp = (case fmlookup (bp_pages bp) pid of None \<Rightarrow> [] | Some page \<Rightarrow> pg_data page)"

definition poke :: "page_id \<Rightarrow> string \<Rightarrow> pool \<Rightarrow> pool" where
  "poke pid data bp = (case fmlookup (bp_pages bp) pid of None \<Rightarrow> bp
     | Some page \<Rightarrow> bp\<lparr>bp_pages := fmupd pid (page\<lparr>pg_data := data\<rparr>) (bp_pages bp)\<rparr>)"

section \<open>The lists agree\<close>

definition pool_lists :: "pool \<Rightarrow> bool" where
  "pool_lists bp \<longleftrightarrow> distinct (bp_lru bp) \<and> set (bp_lru bp) = fset (fmdom (bp_pages bp)) \<and>
     bp_iters bp = fmdom (bp_pages bp) \<and> pagesInPool bp \<le> bp_size bp"

lemma pool_lists_length: "pool_lists bp \<Longrightarrow> length (bp_lru bp) = pagesInPool bp"
  by (metis pool_lists_def distinct_card fcard.rep_eq pagesInPool_def)

lemma on_disk_lists [simp]:
  "on_disk m bp = (r, bp') \<Longrightarrow> bp_pages bp' = bp_pages bp \<and> bp_lru bp' = bp_lru bp \<and>
     bp_iters bp' = bp_iters bp \<and> bp_size bp' = bp_size bp"
  by (auto simp: on_disk_def split: prod.splits)

lemma pool_lists_cong:
  "bp_pages bp' = bp_pages bp \<Longrightarrow> bp_lru bp' = bp_lru bp \<Longrightarrow> bp_iters bp' = bp_iters bp \<Longrightarrow>
   bp_size bp' = bp_size bp \<Longrightarrow> pool_lists bp' = pool_lists bp"
  by (simp add: pool_lists_def pagesInPool_def)

lemma pool_lists_upd:
  "pool_lists bp \<Longrightarrow> fmlookup (bp_pages bp) pid = Some page \<Longrightarrow> pool_lists (bp\<lparr>bp_pages := fmupd pid page' (bp_pages bp)\<rparr>)"
  by (simp add: pool_lists_def pagesInPool_def finsert_absorb fmdomI)

lemma pool_lists_touch:
  "pool_lists bp \<Longrightarrow> fmlookup (bp_pages bp) pid = Some page \<Longrightarrow> pool_lists (touchPage pid bp)"
  by (auto simp: pool_lists_def pagesInPool_def touchPage_def fmdomI finsert_absorb Let_def dest: fmdomI)

lemma pool_lists_add:
  assumes "pool_lists bp" "fmlookup (bp_pages bp) pid = None" "pagesInPool bp < bp_size bp"
  shows "pool_lists (add_page pid page bp)"
proof -
  have "pid |\<notin>| fmdom (bp_pages bp)" using assms(2) by (simp add: fmdom_notI)
  then show ?thesis using assms by (simp add: pool_lists_def add_page_def pagesInPool_def fcard_finsert_disjoint)
qed

text \<open>A page that an operation drops was pinned by nobody; the others stay as they are.\<close>

definition pins :: "page_id \<Rightarrow> pool \<Rightarrow> nat" where
  "pins pid bp = (case fmlookup (bp_pages bp) pid of None \<Rightarrow> 0 | Some page \<Rightarrow> pg_pins page)"

definition same_pages :: "pool \<Rightarrow> pool \<Rightarrow> bool" where
  "same_pages bp bp' \<longleftrightarrow> (\<forall>pid. fmlookup (bp_pages bp') pid = fmlookup (bp_pages bp) pid \<or>
     fmlookup (bp_pages bp') pid = None \<and> pins pid bp = 0)"

lemma same_pages_refl [simp]: "bp_pages bp' = bp_pages bp \<Longrightarrow> same_pages bp bp'"
  by (simp add: same_pages_def)

lemma same_pages_pins: "same_pages bp bp' \<Longrightarrow> pins pid bp' = pins pid bp"
  by (auto simp: same_pages_def pins_def dest: spec [of _ pid] split: option.splits)

lemma same_pages_absent: "same_pages bp bp' \<Longrightarrow> fmlookup (bp_pages bp) pid = None \<Longrightarrow> fmlookup (bp_pages bp') pid = None"
  by (auto simp: same_pages_def dest: spec [of _ pid])

text \<open>The walk either finds every page pinned, or takes the first page from the back that is not.\<close>

lemma evict_walk_lists:
  assumes "evict_walk passed rest bp = (r, bp')" "pool_lists bp" "bp_lru bp = rev rest @ passed"
  shows "pool_lists bp' \<and> bp_size bp' = bp_size bp \<and> (r = Inr True \<longrightarrow> pagesInPool bp' < pagesInPool bp) \<and>
    same_pages bp bp'"
  using assms
proof (induction rest arbitrary: passed)
  case Nil
  then show ?case by auto
next
  case (Cons c rest)
  have "c |\<in>| fmdom (bp_pages bp)" using Cons.prems(2,3) by (auto simp: pool_lists_def)
  then obtain page where page: "fmlookup (bp_pages bp) c = Some page" by blast
  show ?case
  proof (cases "0 < pg_pins page")
    case True
    then show ?thesis using Cons.IH [of "c # passed"] Cons.prems page by simp
  next
    case False
    let ?m = "if pg_dirty page then on_disk (writePage c (pg_data page)) else eff_return ()"
    obtain r1 bp1 where m: "?m bp = (r1, bp1)" by fastforce
    then have same: "bp_pages bp1 = bp_pages bp" "bp_lru bp1 = bp_lru bp" "bp_iters bp1 = bp_iters bp" "bp_size bp1 = bp_size bp"
      by (auto split: if_splits)
    show ?thesis
    proof (cases r1)
      case (Inl e)
      then show ?thesis using Cons.prems page False m same pool_lists_cong [of bp1 bp] by auto
    next
      case (Inr u)
      let ?bp = "bp1\<lparr>bp_pages := fmdrop c (bp_pages bp), bp_iters := bp_iters bp |-| {|c|}, bp_lru := rev rest @ passed\<rparr>"
      have "fcard (fmdom (bp_pages bp) |-| {|c|}) < fcard (fmdom (bp_pages bp))"
        by (rule fcard_fminus1_less) fact
      then have less: "pagesInPool ?bp < pagesInPool bp" by (simp add: pagesInPool_def)
      have "pool_lists ?bp" using Cons.prems(2,3) less same by (auto simp: pool_lists_def)
      moreover have "same_pages bp ?bp" using page False by (simp add: same_pages_def pins_def)
      ultimately show ?thesis using Cons.prems(1) page False m same Inr less by auto
    qed
  qed
qed

section \<open>The pool as a map of pages\<close>

text \<open>
  The content of a page is what the pool holds, or else what the disk holds. In the invariant
  a page of the pool is dirty or equal to the page on disk, unless it is one of \<open>writing\<close>,
  which a client has pinned and is writing to.
\<close>

definition bp_view :: "pool \<Rightarrow> page_id \<rightharpoonup> string" where
  "bp_view bp pid = (case fmlookup (bp_pages bp) pid of Some page \<Rightarrow> Some (pg_data page)
     | None \<Rightarrow> disk_view (bp_disk bp) pid)"

definition page_ok :: "page_id set \<Rightarrow> disk \<Rightarrow> page_id \<Rightarrow> page \<Rightarrow> bool" where
  "page_ok writing d pid page \<longleftrightarrow> length (pg_data page) = PAGE_SIZE \<and> pid < dk_pageCount d \<and>
     (pg_dirty page \<or> disk_view d pid = Some (pg_data page) \<or> pid \<in> writing \<and> 0 < pg_pins page)"

definition pool_ok :: "page_id set \<Rightarrow> pool \<Rightarrow> bool" where
  "pool_ok writing bp \<longleftrightarrow> pool_lists bp \<and> disk_ok (bp_disk bp) \<and>
     fmpred (page_ok writing (bp_disk bp)) (bp_pages bp)"

lemma pool_okD: "pool_ok W bp \<Longrightarrow> fmlookup (bp_pages bp) pid = Some page \<Longrightarrow> page_ok W (bp_disk bp) pid page"
  by (auto simp: pool_ok_def dest: fmpredD)

lemma evict_walk_ok:
  assumes "pool_ok W bp" "bp_lru bp = rev rest @ passed"
    and "\<And>pid page. pid \<in> set passed \<Longrightarrow> fmlookup (bp_pages bp) pid = Some page \<Longrightarrow> 0 < pg_pins page"
  shows "\<exists>ok bp'. evict_walk passed rest bp = (Inr ok, bp') \<and> pool_ok W bp' \<and> bp_view bp' = bp_view bp \<and>
    dk_pageCount (bp_disk bp') = dk_pageCount (bp_disk bp) \<and>
    (\<not> ok \<longrightarrow> bp' = bp \<and> fmpred (\<lambda>_ page. 0 < pg_pins page) (bp_pages bp))"
  using assms(2,3)
proof (induction rest arbitrary: passed)
  case Nil
  have "pid \<in> set (bp_lru bp)" if "fmlookup (bp_pages bp) pid = Some page" for pid page
    using assms(1) that by (auto simp: pool_ok_def pool_lists_def dest: fmdomI)
  then have "fmpred (\<lambda>_ page. 0 < pg_pins page) (bp_pages bp)"
    using Nil by (intro fmpredI) simp
  then show ?case using assms(1) by (intro exI [of _ False]) simp
next
  case (Cons c rest)
  have "c |\<in>| fmdom (bp_pages bp)" using assms(1) Cons.prems(1) by (auto simp: pool_ok_def pool_lists_def)
  then obtain page where page: "fmlookup (bp_pages bp) c = Some page" by blast
  note c = pool_okD [OF assms(1) page, unfolded page_ok_def]
  show ?case
  proof (cases "0 < pg_pins page")
    case True
    have p: "\<And>pid page'. pid \<in> set (c # passed) \<Longrightarrow> fmlookup (bp_pages bp) pid = Some page' \<Longrightarrow> 0 < pg_pins page'"
      using Cons.prems(2) page True by auto
    have "bp_lru bp = rev rest @ (c # passed)" using Cons.prems(1) by simp
    from Cons.IH [OF this p] show ?thesis using page True by simp
  next
    case False
    let ?m = "if pg_dirty page then on_disk (writePage c (pg_data page)) else eff_return ()"
    have d: "disk_ok (bp_disk bp)" using assms(1) by (simp add: pool_ok_def)
    have "c \<noteq> INVALID_PAGE_ID" using c less_not_invalid by blast
    then have "\<exists>d. ?m bp = (Inr (), bp\<lparr>bp_disk := d\<rparr>) \<and> disk_ok d \<and>
        disk_view d = (disk_view (bp_disk bp))(c \<mapsto> pg_data page) \<and> dk_pageCount d = dk_pageCount (bp_disk bp)"
    proof (cases "pg_dirty page")
      case True
      have "c \<le> dk_pageCount (bp_disk bp)" using c by (auto intro: less_imp_le)
      from writePage_ok [OF d this \<open>c \<noteq> INVALID_PAGE_ID\<close>, of "pg_data page"] c show ?thesis
        using True by (auto simp: on_disk_def)
    next
      case False
      then show ?thesis using c d \<open>\<not> 0 < pg_pins page\<close> by (intro exI [of _ "bp_disk bp"]) (simp add: fun_upd_idem)
    qed
    then obtain d' where d': "?m bp = (Inr (), bp\<lparr>bp_disk := d'\<rparr>)" "disk_ok d'"
        "disk_view d' = (disk_view (bp_disk bp))(c \<mapsto> pg_data page)" "dk_pageCount d' = dk_pageCount (bp_disk bp)" by blast
    let ?bp = "bp\<lparr>bp_disk := d', bp_pages := fmdrop c (bp_pages bp), bp_iters := bp_iters bp |-| {|c|}, bp_lru := rev rest @ passed\<rparr>"
    have walk: "evict_walk passed (c # rest) bp = (Inr True, ?bp)"
      using page False d'(1) by simp
    have "pool_lists ?bp" using evict_walk_lists [OF walk] assms(1) Cons.prems(1) by (simp add: pool_ok_def)
    moreover have "fmpred (page_ok W d') (fmdrop c (bp_pages bp))"
      using pool_okD [OF assms(1)] d'(3,4) by (intro fmpredI) (auto simp: page_ok_def split: if_splits)
    moreover have "bp_view ?bp = bp_view bp"
      using page d'(3) by (auto simp: bp_view_def fun_eq_iff split: option.split)
    ultimately show ?thesis using walk d'(2,4) by (intro exI [of _ True] exI [of _ ?bp]) (simp add: pool_ok_def)
  qed
qed

text \<open>Is there a page for the taking, or will the pool refuse?\<close>

definition has_room :: "pool \<Rightarrow> bool" where
  "has_room bp \<longleftrightarrow> pagesInPool bp < bp_size bp \<or> \<not> fmpred (\<lambda>_ page. 0 < pg_pins page) (bp_pages bp)"

lemma make_room_ok:
  assumes "pool_ok W bp"
  shows "(\<exists>bp'. make_room bp = (Inr (), bp') \<and> pool_ok W bp' \<and> bp_view bp' = bp_view bp \<and>
      dk_pageCount (bp_disk bp') = dk_pageCount (bp_disk bp) \<and> bp_size bp' = bp_size bp \<and>
      pagesInPool bp' < bp_size bp' \<and> same_pages bp bp' \<and> has_room bp) \<or>
    make_room bp = (Inl Pool_full, bp) \<and> fmpred (\<lambda>_ page. 0 < pg_pins page) (bp_pages bp) \<and> pagesInPool bp = bp_size bp"
proof (cases "bp_size bp \<le> pagesInPool bp")
  case False
  then show ?thesis using assms by (simp add: make_room_def has_room_def)
next
  case True
  have lists: "pool_lists bp" using assms by (simp add: pool_ok_def)
  from evict_walk_ok [OF assms, of "rev (bp_lru bp)" "[]"] obtain ok bp' where walk:
    "evict bp = (Inr ok, bp')" "pool_ok W bp'" "bp_view bp' = bp_view bp"
    "dk_pageCount (bp_disk bp') = dk_pageCount (bp_disk bp)"
    "\<not> ok \<Longrightarrow> bp' = bp \<and> fmpred (\<lambda>_ page. 0 < pg_pins page) (bp_pages bp)" by (auto simp: evict_def)
  note l = evict_walk_lists [OF walk(1) [unfolded evict_def] lists, simplified]
  show ?thesis
  proof (cases ok)
    case True
    then have "pagesInPool bp' < bp_size bp'" using l lists by (auto simp: pool_lists_def)
    moreover have "has_room bp"
    proof (rule ccontr)
      assume "\<not> has_room bp"
      then have "fmpred (\<lambda>_ page. 0 < pg_pins page) (bp_pages bp)" by (simp add: has_room_def)
      from fmpredD [OF this] have "pins pid bp = 0 \<Longrightarrow> fmlookup (bp_pages bp) pid = None" for pid
        by (cases "fmlookup (bp_pages bp) pid") (fastforce simp: pins_def)+
      then have "fmlookup (bp_pages bp') pid = fmlookup (bp_pages bp) pid" for pid
        using l unfolding same_pages_def by metis
      then have "bp_pages bp' = bp_pages bp" by (rule fmap_ext)
      then show False using l True by (simp add: pagesInPool_def)
    qed
    ultimately show ?thesis using \<open>bp_size bp \<le> pagesInPool bp\<close> walk l True
      by (auto simp: make_room_def)
  next
    case False
    then show ?thesis using \<open>bp_size bp \<le> pagesInPool bp\<close> walk lists
      by (auto simp: make_room_def pool_lists_def)
  qed
qed

lemma pool_ok_weaken: "pool_ok W bp \<Longrightarrow> W \<subseteq> W' \<Longrightarrow> pool_ok W' bp"
  by (auto simp: pool_ok_def page_ok_def fmpred_iff)

lemma pool_ok_lists: "pool_ok W bp \<Longrightarrow> pool_lists bp"
  by (simp add: pool_ok_def)

text \<open>The four ways an operation changes one page of the pool.\<close>

lemma pool_ok_upd:
  assumes "pool_ok W bp" "fmlookup (bp_pages bp) pid = Some page" "page_ok W' (bp_disk bp) pid page'"
    and "W - {pid} \<subseteq> W'"
  shows "pool_ok W' (bp\<lparr>bp_pages := fmupd pid page' (bp_pages bp)\<rparr>)"
  using assms pool_lists_upd [OF pool_ok_lists [OF assms(1)] assms(2), of page']
  by (auto simp: pool_ok_def fmpred_iff page_ok_def split: if_splits)

lemma bp_view_upd:
  "bp_view (bp\<lparr>bp_pages := fmupd pid page (bp_pages bp)\<rparr>) = (bp_view bp)(pid \<mapsto> pg_data page)"
  by (simp add: fun_eq_iff bp_view_def split: option.split)

lemma touch_sel [simp]:
  "bp_pages (touchPage pid bp) = bp_pages bp" "bp_disk (touchPage pid bp) = bp_disk bp"
  "bp_size (touchPage pid bp) = bp_size bp" "bp_view (touchPage pid bp) = bp_view bp"
  by (simp_all add: touchPage_def bp_view_def fun_eq_iff Let_def split: option.split)

lemma touch_ok: "pool_ok W bp \<Longrightarrow> fmlookup (bp_pages bp) pid = Some page \<Longrightarrow> pool_ok W (touchPage pid bp)"
  using pool_lists_touch [of bp pid page] by (simp add: pool_ok_def)

lemma add_page_ok:
  assumes "pool_ok W bp" "fmlookup (bp_pages bp) pid = None" "pagesInPool bp < bp_size bp"
    "page_ok W (bp_disk bp) pid page"
  shows "pool_ok W (add_page pid page bp) \<and> bp_view (add_page pid page bp) = (bp_view bp)(pid \<mapsto> pg_data page)"
proof -
  have "pool_lists (add_page pid page bp)" using assms by (simp add: pool_ok_def pool_lists_add)
  then show ?thesis using assms(1,4)
    by (auto simp: pool_ok_def add_page_def fmpred_iff bp_view_def fun_eq_iff split: option.split)
qed

text \<open>What all operations keep: the contents, the number of pages on disk, the capacity.\<close>

definition same_store :: "pool \<Rightarrow> pool \<Rightarrow> bool" where
  "same_store bp bp' \<longleftrightarrow> bp_view bp' = bp_view bp \<and> dk_pageCount (bp_disk bp') = dk_pageCount (bp_disk bp) \<and>
     bp_size bp' = bp_size bp"

lemma fetchPage_present:
  assumes "pool_ok W bp" "bp_view bp pid = Some data" "has_room bp \<or> fmlookup (bp_pages bp) pid \<noteq> None"
  shows "\<exists>bp' page. fetchPage pid bp = (Inr (), bp') \<and> pool_ok W bp' \<and> same_store bp bp' \<and>
    fmlookup (bp_pages bp') pid = Some page \<and> pg_data page = data \<and> pg_pins page = Suc (pins pid bp) \<and>
    (\<forall>q. q \<noteq> pid \<longrightarrow> pins q bp' = pins q bp)"
proof (cases "fmlookup (bp_pages bp) pid")
  case (Some page)
  let ?bp1 = "touchPage pid bp" and ?page = "pg_pin page"
  let ?bp = "?bp1\<lparr>bp_pages := fmupd pid ?page (bp_pages ?bp1)\<rparr>"
  have "pg_data page = data" using assms(2) Some by (simp add: bp_view_def)
  moreover have "page_ok W (bp_disk ?bp1) pid ?page"
    using pool_okD [OF assms(1) Some] by (auto simp: page_ok_def pg_pin_def)
  then have "pool_ok W ?bp" using pool_ok_upd [OF touch_ok [OF assms(1) Some]] Some by simp
  moreover have "fetchPage pid bp = (Inr (), ?bp)" using Some by (simp add: fetchPage_def Let_def)
  moreover have "same_store bp ?bp" unfolding same_store_def bp_view_upd
    using Some assms(2) \<open>pg_data page = data\<close> by (simp add: fun_upd_idem pg_pin_def)
  ultimately show ?thesis using Some
    by (intro exI [of _ ?bp] exI [of _ ?page]) (simp add: pins_def pg_pin_def)
next
  case None
  with assms(3) have room: "has_room bp" by simp
  from make_room_ok [OF assms(1)] room obtain bp1 where bp1: "make_room bp = (Inr (), bp1)" "pool_ok W bp1"
    "bp_view bp1 = bp_view bp" "dk_pageCount (bp_disk bp1) = dk_pageCount (bp_disk bp)" "bp_size bp1 = bp_size bp"
    "pagesInPool bp1 < bp_size bp1" "same_pages bp bp1" by (elim disjE exE conjE) (blast, simp add: has_room_def)
  have none: "fmlookup (bp_pages bp1) pid = None" using same_pages_absent [OF bp1(7) None] .
  then have "bp_view bp1 pid = disk_view (bp_disk bp1) pid" by (simp add: bp_view_def)
  then have v: "disk_view (bp_disk bp1) pid = Some data" using bp1(3) assms(2) by simp
  have ok: "disk_ok (bp_disk bp1)" using bp1(2) by (simp add: pool_ok_def)
  from readPage_ok [OF ok v] obtain d where d: "readPage pid (bp_disk bp1) = (Inr data, d)" "disk_ok d"
    "disk_view d = disk_view (bp_disk bp1)" "dk_pageCount d = dk_pageCount (bp_disk bp1)" by blast
  let ?bp2 = "bp1\<lparr>bp_disk := d\<rparr>" and ?page = "pg_pin ((Page_init pid)\<lparr>pg_data := data\<rparr>)"
  have bp2: "pool_ok W ?bp2" "bp_view ?bp2 = bp_view bp1"
    using bp1(2) d(2-4) pool_lists_cong [of ?bp2 bp1]
    by (auto simp: pool_ok_def page_ok_def fmpred_iff bp_view_def fun_eq_iff split: option.split)
  have "length data = PAGE_SIZE \<and> pid < dk_pageCount (bp_disk bp1)"
    using disk_view_Some [OF ok v] by simp
  then have "page_ok W (bp_disk ?bp2) pid ?page"
    using v d(3,4) by (simp add: page_ok_def pg_pin_def)
  note add = add_page_ok [OF bp2(1) _ _ this]
  have "fetchPage pid bp = (Inr (), add_page pid ?page ?bp2)"
    using None bp1(1) d(1) by (simp add: fetchPage_def on_disk_def)
  moreover have "same_store bp (add_page pid ?page ?bp2)"
    using add none bp1(3-6) bp2(2) d(4) assms(2)
    by (simp add: same_store_def fun_upd_idem pg_pin_def)
  moreover have "pool_ok W (add_page pid ?page ?bp2)" using add none bp1(6) by simp
  moreover have "pins q (add_page pid ?page ?bp2) = pins q bp" if "q \<noteq> pid" for q
    using same_pages_pins [OF bp1(7), of q] that by (simp add: pins_def)
  ultimately show ?thesis using None
    by (intro exI [of _ "add_page pid ?page ?bp2"] exI [of _ ?page]) (auto simp: pg_pin_def pins_def Page_init_def)
qed

lemma fetchPage_refused:
  assumes "pool_ok W bp" "fmlookup (bp_pages bp) pid = None" "\<not> has_room bp"
  shows "fetchPage pid bp = (Inl Pool_full, bp)"
  using make_room_ok [OF assms(1)] assms(2,3) by (auto simp: fetchPage_def has_room_def)

lemma fetchPage_missing:
  assumes "pool_ok W bp" "bp_view bp pid = None" "has_room bp"
  shows "\<exists>bp'. fetchPage pid bp = (Inl (Page_does_not_exist pid), bp') \<and> pool_ok W bp' \<and> same_store bp bp' \<and>
    (\<forall>q. pins q bp' = pins q bp)"
proof -
  have none: "fmlookup (bp_pages bp) pid = None" using assms(2) by (auto simp: bp_view_def split: option.splits)
  from make_room_ok [OF assms(1)] assms(3) obtain bp1 where bp1: "make_room bp = (Inr (), bp1)" "pool_ok W bp1"
    "bp_view bp1 = bp_view bp" "dk_pageCount (bp_disk bp1) = dk_pageCount (bp_disk bp)" "bp_size bp1 = bp_size bp"
    "same_pages bp bp1" by (elim disjE exE conjE) (blast, simp add: has_room_def)
  have "fmlookup (bp_pages bp1) pid = None" using same_pages_absent [OF bp1(6) none] .
  then have "bp_view bp1 pid = disk_view (bp_disk bp1) pid" by (simp add: bp_view_def)
  then have "disk_view (bp_disk bp1) pid = None" using bp1(3) assms(2) by simp
  then have "fetchPage pid bp = (Inl (Page_does_not_exist pid), bp1)"
    using none bp1(1) readPage_missing [of "bp_disk bp1" pid] by (simp add: fetchPage_def on_disk_def)
  then show ?thesis using bp1 same_pages_pins [OF bp1(6)] by (intro exI [of _ bp1]) (simp add: same_store_def)
qed

lemma newPage_ok:
  assumes "pool_ok W bp" "has_room bp" "dk_pageCount (bp_disk bp) \<noteq> INVALID_PAGE_ID"
  shows "\<exists>bp' page. newPage bp = (Inr (dk_pageCount (bp_disk bp)), bp') \<and> pool_ok W bp' \<and>
    bp_view bp (dk_pageCount (bp_disk bp)) = None \<and>
    bp_view bp' = (bp_view bp)(dk_pageCount (bp_disk bp) \<mapsto> page_bytes (dk_pageCount (bp_disk bp))) \<and>
    dk_pageCount (bp_disk bp') = dk_pageCount (bp_disk bp) + 1 \<and> bp_size bp' = bp_size bp \<and>
    fmlookup (bp_pages bp') (dk_pageCount (bp_disk bp)) = Some page \<and>
    pg_data page = page_bytes (dk_pageCount (bp_disk bp)) \<and> pg_pins page = 1 \<and> pg_dirty page \<and>
    (\<forall>q. q \<noteq> dk_pageCount (bp_disk bp) \<longrightarrow> pins q bp' = pins q bp)"
proof -
  let ?new = "dk_pageCount (bp_disk bp)"
  from make_room_ok [OF assms(1)] assms(2) obtain bp1 where bp1: "make_room bp = (Inr (), bp1)" "pool_ok W bp1"
    "bp_view bp1 = bp_view bp" "dk_pageCount (bp_disk bp1) = ?new" "bp_size bp1 = bp_size bp"
    "pagesInPool bp1 < bp_size bp1" "same_pages bp bp1" by (elim disjE exE conjE) (blast, simp add: has_room_def)
  have ok: "disk_ok (bp_disk bp1)" using bp1(2) by (simp add: pool_ok_def)
  from allocatePage_ok [OF ok] assms(3) bp1(4) obtain d where d: "allocatePage (bp_disk bp1) = (Inr ?new, d)"
    "disk_ok d" "dk_pageCount d = ?new + 1" "disk_view (bp_disk bp1) ?new = None"
    "disk_view d = (disk_view (bp_disk bp1))(?new \<mapsto> page_bytes ?new)" by auto
  have less: "pid < ?new + 1" if "pid < ?new" for pid
    using that unat_next_page [OF assms(3)] by (simp add: word_less_nat_alt)
  have none: "fmlookup (bp_pages bp1) ?new = None"
    using pool_okD [OF bp1(2), of ?new] bp1(4) by (cases "fmlookup (bp_pages bp1) ?new") (auto simp: page_ok_def)
  let ?bp2 = "bp1\<lparr>bp_disk := d\<rparr>" and ?page = "pg_setDirty True (pg_pin (Page_init ?new))"
  have bp2: "pool_ok W ?bp2"
    using bp1(2,4) d(2,3,5) less none pool_lists_cong [of ?bp2 bp1]
    by (auto simp: pool_ok_def page_ok_def fmpred_iff)
  have "?new < ?new + 1" using unat_next_page [OF assms(3)] by (simp add: word_less_nat_alt)
  then have "page_ok W (bp_disk ?bp2) ?new ?page"
    using d(3) by (simp add: page_ok_def pg_pin_def pg_setDirty_def Page_init_def)
  note add = add_page_ok [OF bp2 _ _ this]
  have view: "(bp_view ?bp2)(?new \<mapsto> x) = (bp_view bp1)(?new \<mapsto> x)" for x
    using d(5) by (auto simp: bp_view_def fun_eq_iff split: option.split)
  have "newPage bp = (Inr ?new, add_page ?new ?page ?bp2)"
    using bp1(1) d(1) by (simp add: newPage_def on_disk_def)
  moreover have "bp_view bp ?new = None" using bp1(3) none d(4) by (metis bp_view_def option.simps(4))
  moreover have "bp_view (add_page ?new ?page ?bp2) = (bp_view bp)(?new \<mapsto> page_bytes ?new)"
    using add none bp1(3,6) view by (simp add: pg_setDirty_def pg_pin_def Page_init_def)
  moreover have "pins q (add_page ?new ?page ?bp2) = pins q bp" if "q \<noteq> ?new" for q
    using same_pages_pins [OF bp1(7), of q] that by (simp add: pins_def)
  ultimately show ?thesis using add none bp1(5,6) d(3)
    by (intro exI [of _ "add_page ?new ?page ?bp2"] exI [of _ ?page])
      (simp add: pg_setDirty_def pg_pin_def Page_init_def)
qed

lemma poke_ok:
  assumes "pool_ok W bp" "fmlookup (bp_pages bp) pid = Some page" "0 < pg_pins page" "length data = PAGE_SIZE"
  shows "pool_ok (insert pid W) (poke pid data bp) \<and> bp_view (poke pid data bp) = (bp_view bp)(pid \<mapsto> data) \<and>
    fmlookup (bp_pages (poke pid data bp)) pid = Some (page\<lparr>pg_data := data\<rparr>) \<and>
    bp_disk (poke pid data bp) = bp_disk bp \<and> bp_size (poke pid data bp) = bp_size bp \<and>
    (\<forall>q. pins q (poke pid data bp) = pins q bp)"
proof -
  have "page_ok (insert pid W) (bp_disk bp) pid (page\<lparr>pg_data := data\<rparr>)"
    using pool_okD [OF assms(1,2)] assms(3,4) by (simp add: page_ok_def)
  then have "pool_ok (insert pid W) (bp\<lparr>bp_pages := fmupd pid (page\<lparr>pg_data := data\<rparr>) (bp_pages bp)\<rparr>)"
    by (rule pool_ok_upd [OF assms(1,2)]) auto
  then show ?thesis using assms(2) by (simp add: poke_def bp_view_upd pins_def)
qed

lemma unpin_ok:
  assumes "pool_ok W bp" "fmlookup (bp_pages bp) pid = Some page" "W \<subseteq> {pid}" "pid \<in> W \<Longrightarrow> dirty"
  shows "pool_ok {} (unpin pid dirty bp) \<and> same_store bp (unpin pid dirty bp) \<and>
    pins pid (unpin pid dirty bp) = pg_pins page - 1 \<and> (\<forall>q. q \<noteq> pid \<longrightarrow> pins q (unpin pid dirty bp) = pins q bp)"
proof -
  let ?p = "if dirty then pg_setDirty True (pg_unpin page) else pg_unpin page"
  have u: "unpin pid dirty bp = bp\<lparr>bp_pages := fmupd pid ?p (bp_pages bp)\<rparr>" using assms(2) by (simp add: unpin_def Let_def)
  have p: "pg_data ?p = pg_data page" "pg_pins ?p = pg_pins page - 1" "pg_dirty ?p = (dirty \<or> pg_dirty page)"
    by (simp_all add: pg_setDirty_def pg_unpin_def)
  have "page_ok {} (bp_disk bp) pid ?p" using pool_okD [OF assms(1,2)] assms(3,4) p by (auto simp: page_ok_def)
  then have "pool_ok {} (bp\<lparr>bp_pages := fmupd pid ?p (bp_pages bp)\<rparr>)"
    by (rule pool_ok_upd [OF assms(1,2)]) (use assms(3) in auto)
  moreover have "(bp_view bp)(pid \<mapsto> pg_data ?p) = bp_view bp" unfolding p using assms(2) by (simp add: bp_view_def fun_upd_idem)
  ultimately show ?thesis using p assms(2) unfolding u by (simp add: same_store_def bp_view_upd pins_def)
qed

end
