(* ===== verification/Page_Store.thy ===== *)
theory Page_Store
  imports Buffer_Pool
begin

text \<open>
  What the index and the table heap rely on: reading, changing and creating pages through the
  pool. They fetch a page, read or write its bytes, and unpin it; \<open>page_store\<close> states what
  they may expect of that, and the pool provides it whenever no page is pinned.
\<close>

section \<open>The interface\<close>

datatype store_op = ReadOp page_id | WriteOp page_id "string \<Rightarrow> string" | NewOp

datatype store_answer = Bytes string | Done | Created page_id | Failed store_error

text \<open>The answers of a store to a sequence of operations.\<close>

fun ask :: "(page_id \<Rightarrow> ('s, string) eff) \<Rightarrow> (page_id \<Rightarrow> (string \<Rightarrow> string) \<Rightarrow> ('s, unit) eff) \<Rightarrow>
    ('s, page_id) eff \<Rightarrow> store_op \<Rightarrow> 's \<Rightarrow> store_answer \<times> 's" where
  "ask rd md nw (ReadOp pid) s = (case rd pid s of (Inl e, s') \<Rightarrow> (Failed e, s') | (Inr bs, s') \<Rightarrow> (Bytes bs, s'))"
| "ask rd md nw (WriteOp pid f) s = (case md pid f s of (Inl e, s') \<Rightarrow> (Failed e, s') | (Inr _, s') \<Rightarrow> (Done, s'))"
| "ask rd md nw NewOp s = (case nw s of (Inl e, s') \<Rightarrow> (Failed e, s') | (Inr pid, s') \<Rightarrow> (Created pid, s'))"

fun ask_all :: "(store_op \<Rightarrow> 's \<Rightarrow> store_answer \<times> 's) \<Rightarrow> store_op list \<Rightarrow> 's \<Rightarrow> store_answer list \<times> 's" where
  "ask_all a [] s = ([], s)"
| "ask_all a (op # ops) s = (case a op s of (x, s') \<Rightarrow> (case ask_all a ops s' of (xs, s'') \<Rightarrow> (x # xs, s'')))"

locale page_store =
  fixes idle :: "'s \<Rightarrow> bool"
    and view :: "'s \<Rightarrow> page_id \<rightharpoonup> string"
    and pages :: "'s \<Rightarrow> page_id"
    and read :: "page_id \<Rightarrow> ('s, string) eff"
    and modify :: "page_id \<Rightarrow> (string \<Rightarrow> string) \<Rightarrow> ('s, unit) eff"
    and new :: "('s, page_id) eff"
  assumes view_dom: "idle s \<Longrightarrow> view s pid \<noteq> None \<longleftrightarrow> pid < pages s"
    and view_length: "idle s \<Longrightarrow> view s pid = Some data \<Longrightarrow> length data = PAGE_SIZE"
    and read_ok: "idle s \<Longrightarrow> view s pid = Some data \<Longrightarrow>
      \<exists>s'. read pid s = (Inr data, s') \<and> idle s' \<and> view s' = view s \<and> pages s' = pages s"
    and read_missing: "idle s \<Longrightarrow> view s pid = None \<Longrightarrow>
      \<exists>s'. read pid s = (Inl (Page_does_not_exist pid), s') \<and> idle s' \<and> view s' = view s \<and> pages s' = pages s"
    and modify_ok: "idle s \<Longrightarrow> view s pid = Some data \<Longrightarrow> length (f data) = PAGE_SIZE \<Longrightarrow>
      \<exists>s'. modify pid f s = (Inr (), s') \<and> idle s' \<and> view s' = (view s)(pid \<mapsto> f data) \<and> pages s' = pages s"
    and modify_missing: "idle s \<Longrightarrow> view s pid = None \<Longrightarrow>
      \<exists>s'. modify pid f s = (Inl (Page_does_not_exist pid), s') \<and> idle s' \<and> view s' = view s \<and> pages s' = pages s"
    and new_ok: "idle s \<Longrightarrow> pages s \<noteq> INVALID_PAGE_ID \<Longrightarrow>
      \<exists>s'. new s = (Inr (pages s), s') \<and> idle s' \<and> view s' = (view s)(pages s \<mapsto> page_bytes (pages s)) \<and>
        pages s' = pages s + 1"
begin

lemma new_fresh: "idle s \<Longrightarrow> view s (pages s) = None"
  using view_dom [of s "pages s"] by auto

end

text \<open>The map itself, with the number of its pages.\<close>

type_synonym page_map = "(page_id \<rightharpoonup> string) \<times> page_id"

fun map_ask :: "store_op \<Rightarrow> page_map \<Rightarrow> store_answer \<times> page_map" where
  "map_ask (ReadOp pid) (m, n) = (case m pid of None \<Rightarrow> (Failed (Page_does_not_exist pid), (m, n))
     | Some data \<Rightarrow> (Bytes data, (m, n)))"
| "map_ask (WriteOp pid f) (m, n) = (case m pid of None \<Rightarrow> (Failed (Page_does_not_exist pid), (m, n))
     | Some data \<Rightarrow> (Done, (m(pid \<mapsto> f data), n)))"
| "map_ask NewOp (m, n) = (Created n, (m(n \<mapsto> page_bytes n), n + 1))"

text \<open>Writers keep a page's length, and there are numbers left for the new pages.\<close>

fun op_keeps_length :: "store_op \<Rightarrow> bool" where
  "op_keeps_length (WriteOp pid f) = (\<forall>data. length data = PAGE_SIZE \<longrightarrow> length (f data) = PAGE_SIZE)"
| "op_keeps_length _ = True"

fun news :: "store_op list \<Rightarrow> nat" where
  "news [] = 0"
| "news (NewOp # ops) = Suc (news ops)"
| "news (_ # ops) = news ops"

context page_store
begin

lemma ask_map:
  assumes "idle s" "op_keeps_length op" "unat (pages s) + news [op] < 2 ^ 32"
  shows "\<exists>s'. ask read modify new op s = (fst (map_ask op (view s, pages s)), s') \<and> idle s' \<and>
    (view s', pages s') = snd (map_ask op (view s, pages s)) \<and> unat (pages s') = unat (pages s) + news [op]"
proof (cases op)
  case (ReadOp pid)
  then show ?thesis using read_missing [OF assms(1), of pid] read_ok [OF assms(1), of pid]
    by (cases "view s pid") auto
next
  case (WriteOp pid f)
  show ?thesis
  proof (cases "view s pid")
    case None
    then show ?thesis using WriteOp modify_missing [OF assms(1) None, of f] by auto
  next
    case (Some data)
    then have "length (f data) = PAGE_SIZE" using view_length [OF assms(1) Some] assms(2) WriteOp by simp
    then show ?thesis using WriteOp Some modify_ok [OF assms(1) Some, of f] by auto
  qed
next
  case NewOp
  then have n: "pages s \<noteq> INVALID_PAGE_ID" using assms(3) by auto
  then show ?thesis using NewOp new_ok [OF assms(1) n] unat_next_page [OF n] by auto
qed

lemma ask_all_map:
  assumes "idle s" "list_all op_keeps_length ops" "unat (pages s) + news ops < 2 ^ 32"
  shows "\<exists>s'. ask_all (ask read modify new) ops s = (fst (ask_all map_ask ops (view s, pages s)), s') \<and> idle s' \<and>
    (view s', pages s') = snd (ask_all map_ask ops (view s, pages s))"
  using assms
proof (induction ops arbitrary: s)
  case Nil
  then show ?case by simp
next
  case (Cons op ops)
  have n: "news (op # ops) = news [op] + news ops" by (cases op) simp_all
  obtain s1 where s1: "ask read modify new op s = (fst (map_ask op (view s, pages s)), s1)" "idle s1"
    "(view s1, pages s1) = snd (map_ask op (view s, pages s))" "unat (pages s1) = unat (pages s) + news [op]"
    using ask_map [of s op] Cons.prems n by auto
  then obtain s2 where s2: "ask_all (ask read modify new) ops s1 = (fst (ask_all map_ask ops (view s1, pages s1)), s2)" "idle s2"
    "(view s2, pages s2) = snd (ask_all map_ask ops (view s1, pages s1))"
    using Cons.IH [of s1] Cons.prems n by auto
  then show ?case using s1 by (auto split: prod.splits)
qed

end

section \<open>The pool is a page store\<close>

definition pool_read :: "page_id \<Rightarrow> (pool, string) eff" where
  "pool_read pid = eff_bind (fetchPage pid) (\<lambda>_ bp. (Inr (page_data pid bp), unpin pid False bp))"

definition pool_modify :: "page_id \<Rightarrow> (string \<Rightarrow> string) \<Rightarrow> (pool, unit) eff" where
  "pool_modify pid f = eff_bind (fetchPage pid) (\<lambda>_ bp. (Inr (), unpin pid True (poke pid (f (page_data pid bp)) bp)))"

definition pool_new :: "(pool, page_id) eff" where
  "pool_new = eff_bind newPage (\<lambda>newId bp. let pid = pg_id (page_data newId bp) in (Inr pid, unpin pid True bp))"

definition pool_idle :: "pool \<Rightarrow> bool" where
  "pool_idle bp \<longleftrightarrow> pool_ok {} bp \<and> 0 < bp_size bp \<and> (\<forall>pid. pins pid bp = 0)"

lemma pool_idle_room: "pool_idle bp \<Longrightarrow> has_room bp"
proof (rule ccontr)
  assume a: "pool_idle bp" "\<not> has_room bp"
  then have p: "fmpred (\<lambda>_ page. 0 < pg_pins page) (bp_pages bp)" and "0 < pagesInPool bp"
    by (auto simp: has_room_def pool_idle_def)
  then have "fmdom (bp_pages bp) \<noteq> {||}" by (auto simp: pagesInPool_def fcard.rep_eq)
  then obtain pid where "pid |\<in>| fmdom (bp_pages bp)" by blast
  then obtain page where "fmlookup (bp_pages bp) pid = Some page" by blast
  with fmpredD [OF p this] a(1) show False by (auto simp: pool_idle_def pins_def dest: spec [of _ pid])
qed

lemma pool_view_dom:
  assumes "pool_ok W bp"
  shows "bp_view bp pid \<noteq> None \<longleftrightarrow> pid < dk_pageCount (bp_disk bp)"
    and "bp_view bp pid = Some data \<Longrightarrow> length data = PAGE_SIZE"
proof -
  have d: "disk_ok (bp_disk bp)" using assms by (simp add: pool_ok_def)
  show "bp_view bp pid \<noteq> None \<longleftrightarrow> pid < dk_pageCount (bp_disk bp)"
    using pool_okD [OF assms, of pid] by (auto simp: bp_view_def disk_view_def page_ok_def split: option.split)
  show "length data = PAGE_SIZE" if "bp_view bp pid = Some data"
    using that pool_okD [OF assms, of pid] disk_view_Some [OF d, of pid]
    by (auto simp: bp_view_def page_ok_def split: option.splits)
qed

text \<open>A client that fetches a page may unpin it as it is, or write to it and unpin it as dirty.\<close>

lemma client_fetch:
  assumes "pool_idle bp" "bp_view bp pid = Some data"
  obtains bp1 where "fetchPage pid bp = (Inr (), bp1)" "page_data pid bp1 = data"
    and "pool_idle (unpin pid False bp1)" "same_store bp (unpin pid False bp1)"
    and "\<And>data'. length data' = PAGE_SIZE \<Longrightarrow> pool_idle (unpin pid True (poke pid data' bp1)) \<and>
      bp_view (unpin pid True (poke pid data' bp1)) = (bp_view bp)(pid \<mapsto> data') \<and>
      dk_pageCount (bp_disk (unpin pid True (poke pid data' bp1))) = dk_pageCount (bp_disk bp)"
proof -
  have idle: "pool_ok {} bp" "0 < bp_size bp" "\<And>q. pins q bp = 0" using assms(1) by (simp_all add: pool_idle_def)
  from fetchPage_present [OF idle(1) assms(2)] pool_idle_room [OF assms(1)] obtain bp1 page where
    f: "fetchPage pid bp = (Inr (), bp1)" "pool_ok {} bp1" "same_store bp bp1"
      "fmlookup (bp_pages bp1) pid = Some page" "pg_data page = data" "pg_pins page = 1"
      "\<And>q. q \<noteq> pid \<Longrightarrow> pins q bp1 = 0" by (auto simp: idle(3))
  note u = unpin_ok [OF f(2,4), of False, simplified]
  have "pins q (unpin pid False bp1) = 0" for q using u f(6,7) by (cases "q = pid") auto
  then have 1: "pool_idle (unpin pid False bp1)" "same_store bp (unpin pid False bp1)"
    using u f(3) idle(2) by (auto simp: pool_idle_def same_store_def)
  have 2: "pool_idle (unpin pid True (poke pid data' bp1)) \<and>
      bp_view (unpin pid True (poke pid data' bp1)) = (bp_view bp)(pid \<mapsto> data') \<and>
      dk_pageCount (bp_disk (unpin pid True (poke pid data' bp1))) = dk_pageCount (bp_disk bp)"
    if "length data' = PAGE_SIZE" for data'
  proof -
    from f(6) have "0 < pg_pins page" by simp
    note p = poke_ok [OF f(2,4) this that]
    let ?bp2 = "poke pid data' bp1"
    from p have "pool_ok {pid} ?bp2" "fmlookup (bp_pages ?bp2) pid = Some (page\<lparr>pg_data := data'\<rparr>)" by simp_all
    note u = unpin_ok [OF this, of True, simplified]
    have "pins q (unpin pid True ?bp2) = 0" for q using u p f(6,7) by (cases "q = pid") auto
    then show ?thesis using u p f(3) idle(2) by (auto simp: pool_idle_def same_store_def)
  qed
  have "page_data pid bp1 = data" using f(4,5) by (simp add: page_data_def)
  from that [OF f(1) this 1 2] show ?thesis .
qed

lemma pool_read_ok:
  assumes "pool_idle bp" "bp_view bp pid = Some data"
  shows "\<exists>bp'. pool_read pid bp = (Inr data, bp') \<and> pool_idle bp' \<and> same_store bp bp'"
  by (rule client_fetch [OF assms]) (simp add: pool_read_def)

lemma pool_modify_ok:
  assumes "pool_idle bp" "bp_view bp pid = Some data" "length (f data) = PAGE_SIZE"
  shows "\<exists>bp'. pool_modify pid f bp = (Inr (), bp') \<and> pool_idle bp' \<and> bp_view bp' = (bp_view bp)(pid \<mapsto> f data) \<and>
    dk_pageCount (bp_disk bp') = dk_pageCount (bp_disk bp)"
  by (rule client_fetch [OF assms(1,2)]) (use assms(3) in \<open>simp add: pool_modify_def\<close>)

lemma pool_new_ok:
  assumes "pool_idle bp" "dk_pageCount (bp_disk bp) \<noteq> INVALID_PAGE_ID"
  shows "\<exists>bp'. pool_new bp = (Inr (dk_pageCount (bp_disk bp)), bp') \<and> pool_idle bp' \<and>
    bp_view bp' = (bp_view bp)(dk_pageCount (bp_disk bp) \<mapsto> page_bytes (dk_pageCount (bp_disk bp))) \<and>
    dk_pageCount (bp_disk bp') = dk_pageCount (bp_disk bp) + 1"
proof -
  let ?n = "dk_pageCount (bp_disk bp)"
  have idle: "pool_ok {} bp" "0 < bp_size bp" "\<And>q. pins q bp = 0" using assms(1) by (simp_all add: pool_idle_def)
  from newPage_ok [OF idle(1) pool_idle_room [OF assms(1)] assms(2)] obtain bp1 page where
    f: "newPage bp = (Inr ?n, bp1)" "pool_ok {} bp1" "bp_view bp1 = (bp_view bp)(?n \<mapsto> page_bytes ?n)"
      "dk_pageCount (bp_disk bp1) = ?n + 1" "bp_size bp1 = bp_size bp" "fmlookup (bp_pages bp1) ?n = Some page"
      "pg_data page = page_bytes ?n" "pg_pins page = 1" "\<And>q. q \<noteq> ?n \<Longrightarrow> pins q bp1 = 0" by (auto simp: idle(3))
  note u = unpin_ok [OF f(2,6), of True, simplified]
  have "pins q (unpin ?n True bp1) = 0" for q using u f(8,9) by (cases "q = ?n") auto
  moreover have "pool_new bp = (Inr ?n, unpin ?n True bp1)"
    using f by (simp add: pool_new_def page_data_def page_bytes_header Let_def)
  ultimately show ?thesis using u f(3-5) idle(2) by (auto simp: pool_idle_def same_store_def)
qed

lemma pool_missing:
  assumes "pool_idle bp" "bp_view bp pid = None"
  shows "\<exists>bp'. fetchPage pid bp = (Inl (Page_does_not_exist pid), bp') \<and> pool_idle bp' \<and> same_store bp bp'"
  using fetchPage_missing [OF _ assms(2) pool_idle_room [OF assms(1)]] assms(1)
  by (fastforce simp: pool_idle_def same_store_def)

interpretation pool_store: page_store pool_idle bp_view "\<lambda>bp. dk_pageCount (bp_disk bp)" pool_read pool_modify pool_new
proof (unfold_locales, goal_cases)
  case (1 s pid)
  then show ?case using pool_view_dom(1) by (auto simp: pool_idle_def)
next
  case (2 s pid data)
  then show ?case using pool_view_dom(2) by (auto simp: pool_idle_def)
next
  case (3 s pid data)
  then show ?case using pool_read_ok by (fastforce simp: same_store_def)
next
  case (4 s pid)
  then show ?case using pool_missing [OF 4] by (auto simp: pool_read_def same_store_def)
next
  case (5 s pid data f)
  then show ?case using pool_modify_ok by blast
next
  case (6 s pid f)
  then show ?case using pool_missing [OF 6] by (auto simp: pool_modify_def same_store_def)
next
  case (7 s)
  then show ?case using pool_new_ok by blast
qed


text \<open>
  C4. The pool is transparent: whatever pages a client reads, changes and creates, in any
  order and however few pages fit in memory, the answers are those of one map from page
  numbers to bytes, and so is the content it leaves. A page is never lost by its eviction, and
  only a page that does not exist is refused.
\<close>

theorem pool_transparent:
  assumes "pool_idle bp" "list_all op_keeps_length ops" "unat (dk_pageCount (bp_disk bp)) + news ops < 2 ^ 32"
  shows "\<exists>bp'. ask_all (ask pool_read pool_modify pool_new) ops bp =
      (fst (ask_all map_ask ops (bp_view bp, dk_pageCount (bp_disk bp))), bp') \<and> pool_idle bp' \<and>
    (bp_view bp', dk_pageCount (bp_disk bp')) = snd (ask_all map_ask ops (bp_view bp, dk_pageCount (bp_disk bp)))"
  by (rule pool_store.ask_all_map [OF assms])

lemma pool_init_idle: "disk_ok d \<Longrightarrow> 0 < poolSize \<Longrightarrow> pool_idle (BufferPool_init poolSize d) \<and>
    bp_view (BufferPool_init poolSize d) = disk_view d"
  by (auto simp: pool_idle_def pool_ok_def pool_lists_def pagesInPool_def BufferPool_init_def pins_def
      bp_view_def fcard.rep_eq fun_eq_iff)

theorem pool_transparent_witness:
  "\<exists>d bp'. DiskManager_open None True = Inr d \<and>
    ask_all (ask pool_read pool_modify pool_new) [NewOp, NewOp, WriteOp 0 rev, ReadOp 1, ReadOp 0, ReadOp 7]
      (BufferPool_init 1 d) =
    ([Created 0, Created 1, Done, Bytes (page_bytes 1), Bytes (rev (page_bytes 0)), Failed (Page_does_not_exist 7)], bp')"
proof -
  let ?ops = "[NewOp, NewOp, WriteOp 0 rev, ReadOp 1, ReadOp 0, ReadOp 7]"
  let ?d = "\<lparr>dk_file = \<lparr>fs_bytes = [], fs_pos = 0, fs_eof = False, fs_fail = False\<rparr>, dk_pageCount = 0\<rparr>"
  have open1: "DiskManager_open None True = Inr ?d" by (simp add: DiskManager_open_def fs_open_def fs_seekg_def)
  have "disk_ok ?d" by (simp add: disk_ok_def fs_good_def)
  then have i: "pool_idle (BufferPool_init 1 ?d)" "bp_view (BufferPool_init 1 ?d) = Map.empty"
    using pool_init_idle [of ?d 1] by (auto simp: disk_view_def fun_eq_iff)
  from pool_transparent [OF i(1), of ?ops] i(2)
  have "\<exists>bp'. ask_all (ask pool_read pool_modify pool_new) ?ops (BufferPool_init 1 ?d) =
      (fst (ask_all map_ask ?ops (Map.empty, 0)), bp')" by (auto simp: BufferPool_init_def)
  then show ?thesis using open1 by auto
qed

end
