(* ===== verification/Table_Heap.thy ===== *)
theory Table_Heap
  imports Page_Store Row_Codec Mvcc
begin

text \<open>
  The table heap (include/table_heap.h, src/table_heap.cpp): rows as text in slotted pages.
  After the header and two unused bytes comes the slot directory, which grows forward, six
  bytes an entry: \<open>sizeof(SlotEntry)\<close> is 6, two \<open>uint16_t\<close>, one \<open>uint8_t\<close> and a byte of
  padding, which is whatever it was (\<open>se_pad\<close>). The rows grow backward from the end of the
  page. An access outside the page is \<open>Undefined_behaviour\<close>. The number of slots is the
  header's \<open>recordCount\<close>.
\<close>

section \<open>Slots\<close>

record slotEntry =
  se_offset :: nat
  se_length :: nat
  se_valid :: nat
  se_pad :: string

record rowId =
  rid_page :: page_id
  rid_slot :: nat

abbreviation SLOT_DIR_START :: nat where "SLOT_DIR_START \<equiv> 14"
abbreviation SLOT_SIZE :: nat where "SLOT_SIZE \<equiv> 6"

definition slot_in_page :: "nat \<Rightarrow> bool" where
  "slot_in_page i \<longleftrightarrow> SLOT_DIR_START + i * SLOT_SIZE + SLOT_SIZE \<le> PAGE_SIZE"

definition slot_at :: "nat \<Rightarrow> string \<Rightarrow> slotEntry" where
  "slot_at i data = (let p = SLOT_DIR_START + i * SLOT_SIZE in
     \<lparr>se_offset = get_field p 2 data, se_length = get_field (p + 2) 2 data,
      se_valid = get_field (p + 4) 1 data, se_pad = peek (p + 5) 1 data\<rparr>)"

definition slot_bytes :: "slotEntry \<Rightarrow> string" where
  "slot_bytes e = le_bytes 2 (se_offset e) @ le_bytes 2 (se_length e) @ le_bytes 1 (se_valid e) @ se_pad e"

definition put_slot :: "nat \<Rightarrow> slotEntry \<Rightarrow> string \<Rightarrow> string" where
  "put_slot i e data = overwrite (SLOT_DIR_START + i * SLOT_SIZE) (slot_bytes e) data"

definition heap_slotCount :: "string \<Rightarrow> nat" where
  "heap_slotCount data = get_field 6 2 data"

section \<open>Insertion\<close>

text \<open>The loop that looks for the lowest row: slots \<open>i\<close> to \<open>i + k\<close>.\<close>

fun data_start :: "nat \<Rightarrow> nat \<Rightarrow> nat \<Rightarrow> string \<Rightarrow> store_error + nat" where
  "data_start i 0 start data = Inr start"
| "data_start i (Suc k) start data =
    (if \<not> slot_in_page i then Inl Undefined_behaviour
     else let e = slot_at i data in
       data_start (Suc i) k (if se_valid e \<noteq> 0 \<and> se_offset e < start then se_offset e else start) data)"

text \<open>
  \<open>slotDirEnd + SLOT_SIZE > dataStart - dataLen\<close> compares a \<open>size_t\<close> with an \<open>int\<close>: a
  negative difference becomes a number above every \<open>slotDirEnd\<close>, and the test is false.
\<close>

definition insertIntoPage :: "row_ord \<Rightarrow> string \<Rightarrow> row \<Rightarrow> string \<Rightarrow> store_error + rowId \<times> string" where
  "insertIntoPage ord pad row data =
    (let text = serializeRowData ord row;
         dataLen = length text mod 2 ^ 16;
         slotCount = heap_slotCount data;
         slotDirEnd = SLOT_DIR_START + slotCount * SLOT_SIZE
     in ebind (data_start 0 slotCount PAGE_SIZE data) (\<lambda>dataStart.
       let free = int dataStart - int dataLen in
       if 0 \<le> free \<and> free < int (slotDirEnd + SLOT_SIZE)
       then Inr (\<lparr>rid_page = INVALID_PAGE_ID, rid_slot = 0\<rparr>, data)
       else let rowOffset = nat (free mod 2 ^ 16) in
         if PAGE_SIZE < rowOffset + dataLen \<or> \<not> slot_in_page slotCount then Inl Undefined_behaviour
         else let data1 = overwrite rowOffset (take dataLen text) data;
                  data2 = put_slot slotCount
                    \<lparr>se_offset = rowOffset, se_length = dataLen, se_valid = 1, se_pad = pad\<rparr> data1;
                  data3 = set_field 6 2 (slotCount + 1) data2
              in Inr (\<lparr>rid_page = pg_id data3, rid_slot = slotCount\<rparr>, data3)))"

definition heap_insertRow :: "row_ord \<Rightarrow> string \<Rightarrow> row \<Rightarrow> page_id \<Rightarrow> (pool, rowId) eff" where
  "heap_insertRow ord pad row firstPageId = eff_bind (fetchPage firstPageId) (\<lambda>_ bp.
     case insertIntoPage ord pad row (page_data firstPageId bp) of
       Inl e \<Rightarrow> (Inl e, bp)
     | Inr (rid, data) \<Rightarrow> (Inr rid, unpin firstPageId True (poke firstPageId data bp)))"

definition heap_create :: "(pool, page_id) eff" where
  "heap_create = pool_new"

section \<open>Reading, deleting, updating\<close>

definition slot_row :: "slotEntry \<Rightarrow> string \<Rightarrow> store_error + row" where
  "slot_row e data = (if PAGE_SIZE < se_offset e + se_length e then Inl Undefined_behaviour
     else Inr (deserializeRowData (peek (se_offset e) (se_length e) data)))"

definition page_getRow :: "nat \<Rightarrow> string \<Rightarrow> store_error + row option" where
  "page_getRow i data = (if heap_slotCount data \<le> i then Inr None
     else if \<not> slot_in_page i then Inl Undefined_behaviour
     else let e = slot_at i data in
       if se_valid e = 0 then Inr None else ebind (slot_row e data) (\<lambda>row. Inr (Some row)))"

text \<open>The page is read after it was unpinned; nothing has evicted it in between.\<close>

definition heap_getRow :: "rowId \<Rightarrow> (pool, row option) eff" where
  "heap_getRow rid = eff_bind (fetchPage (rid_page rid)) (\<lambda>_ bp.
     (page_getRow (rid_slot rid) (page_data (rid_page rid) bp), unpin (rid_page rid) False bp))"

text \<open>\<open>updateRow\<close> and \<open>deleteRow\<close> invalidate the slot the same way: \<open>None\<close> if there is no valid one.\<close>

definition page_deleteRow :: "nat \<Rightarrow> string \<Rightarrow> store_error + string option" where
  "page_deleteRow i data = (if heap_slotCount data \<le> i then Inr None
     else if \<not> slot_in_page i then Inl Undefined_behaviour
     else let e = slot_at i data in
       if se_valid e = 0 then Inr None else Inr (Some (put_slot i (e\<lparr>se_valid := 0\<rparr>) data)))"

definition heap_deleteRow :: "rowId \<Rightarrow> (pool, bool) eff" where
  "heap_deleteRow rid = eff_bind (fetchPage (rid_page rid)) (\<lambda>_ bp.
     case page_deleteRow (rid_slot rid) (page_data (rid_page rid) bp) of
       Inl e \<Rightarrow> (Inl e, bp)
     | Inr None \<Rightarrow> (Inr False, unpin (rid_page rid) False bp)
     | Inr (Some data) \<Rightarrow> (Inr True, unpin (rid_page rid) True (poke (rid_page rid) data bp)))"

text \<open>\<open>updateRow\<close> does not look at what \<open>insertRow\<close> returns.\<close>

definition heap_updateRow :: "row_ord \<Rightarrow> string \<Rightarrow> rowId \<Rightarrow> row \<Rightarrow> page_id \<Rightarrow> (pool, bool) eff" where
  "heap_updateRow ord pad rid newRow firstPageId = eff_bind (heap_deleteRow rid) (\<lambda>ok.
     if ok then eff_bind (heap_insertRow ord pad newRow firstPageId) (\<lambda>_. eff_return True)
     else eff_return False)"

section \<open>Scanning\<close>

fun scan_slots :: "mvccSnapshot option \<Rightarrow> page_id \<Rightarrow> nat \<Rightarrow> nat \<Rightarrow> string \<Rightarrow> store_error + (rowId \<times> row) list" where
  "scan_slots snapshot pid i 0 data = Inr []"
| "scan_slots snapshot pid i (Suc k) data =
    (if \<not> slot_in_page i then Inl Undefined_behaviour
     else let e = slot_at i data; rest = scan_slots snapshot pid (Suc i) k data in
       if se_valid e = 0 then rest
       else ebind (slot_row e data) (\<lambda>row.
         let seen = (case snapshot of None \<Rightarrow> True
           | Some s \<Rightarrow> isVisible s \<lparr>vr_data = row, vr_createdBy = 1, vr_deletedBy = 0\<rparr>)
         in if seen then ebind rest (\<lambda>rows. Inr ((\<lparr>rid_page = pid, rid_slot = i\<rparr>, row) # rows)) else rest))"

function heap_scan_loop :: "mvccSnapshot option \<Rightarrow> page_id \<Rightarrow> (rowId \<times> row) list \<Rightarrow> (pool, (rowId \<times> row) list) eff" where
  "heap_scan_loop snapshot pid results bp =
    (if pid = INVALID_PAGE_ID then (Inr results, bp)
     else case fetchPage pid bp of
       (Inl e, bp1) \<Rightarrow> (Inl e, bp1)
     | (Inr _, bp1) \<Rightarrow> (let data = page_data pid bp1 in
         case scan_slots snapshot pid 0 (heap_slotCount data) data of
           Inl e \<Rightarrow> (Inl e, bp1)
         | Inr rows \<Rightarrow> heap_scan_loop snapshot (pid + 1) (results @ rows) (unpin pid False bp1)))"
  by pat_completeness auto
termination
proof (relation "measure (\<lambda>(snapshot, pid, results, bp). 2 ^ 32 - unat pid)", goal_cases)
  case (2 snapshot pid results bp)
  have "unat pid < 2 ^ LENGTH(32)" by (rule unsigned_less)
  then show ?case using unat_next_page [OF 2(1)] by simp
qed simp

declare heap_scan_loop.simps [simp del]

definition heap_scan :: "mvccSnapshot option \<Rightarrow> page_id \<Rightarrow> (pool, (rowId \<times> row) list) eff" where
  "heap_scan snapshot firstPageId = heap_scan_loop snapshot firstPageId []"

end
