(* ===== verification/Heap_Props.thy ===== *)
theory Heap_Props
  imports Table_Heap
begin

text \<open>
  The table heap as a map from row identifiers to rows: on one page first, then through the
  buffer pool.
\<close>

section \<open>Slots\<close>

definition slot_fits :: "slotEntry \<Rightarrow> bool" where
  "slot_fits e \<longleftrightarrow> se_offset e < 2 ^ 16 \<and> se_length e < 2 ^ 16 \<and> se_valid e < 2 ^ 8 \<and> length (se_pad e) = 1"

lemma length_slot_bytes: "slot_fits e \<Longrightarrow> length (slot_bytes e) = SLOT_SIZE"
  by (simp add: slot_bytes_def slot_fits_def)

lemma peek_peek: "off + n \<le> m \<Longrightarrow> peek off n (peek p m data) = peek (p + off) n data"
  by (simp add: peek_def drop_take add.commute)

text \<open>A slot is decoded from its six bytes.\<close>

definition decode_slot :: "string \<Rightarrow> slotEntry" where
  "decode_slot bs = \<lparr>se_offset = get_field 0 2 bs, se_length = get_field 2 2 bs,
     se_valid = get_field 4 1 bs, se_pad = peek 5 1 bs\<rparr>"

lemma slot_at_decode: "slot_at i data = decode_slot (peek (SLOT_DIR_START + i * SLOT_SIZE) SLOT_SIZE data)"
  by (simp add: slot_at_def decode_slot_def get_field_def peek_peek Let_def)

lemma decode_slot_bytes: "slot_fits e \<Longrightarrow> decode_slot (slot_bytes e) = e"
  by (cases e) (simp add: decode_slot_def slot_bytes_def slot_fits_def get_field_def peek_def le_val_bytes)

lemma slot_at_put: "slot_fits e \<Longrightarrow> slot_at i (put_slot i e data) = e"
  using peek_overwrite [of "SLOT_DIR_START + i * SLOT_SIZE" "slot_bytes e" data]
  by (simp add: slot_at_decode put_slot_def length_slot_bytes decode_slot_bytes)

lemma length_put_slot: "slot_fits e \<Longrightarrow> slot_in_page i \<Longrightarrow> length data = PAGE_SIZE \<Longrightarrow> length (put_slot i e data) = PAGE_SIZE"
  by (simp add: put_slot_def slot_in_page_def length_slot_bytes)

lemma slot_at_other:
  assumes "slot_in_page i" "length data = PAGE_SIZE"
    and "SLOT_DIR_START + i * SLOT_SIZE + SLOT_SIZE \<le> pos \<or> pos + length bs \<le> SLOT_DIR_START + i * SLOT_SIZE"
  shows "slot_at i (overwrite pos bs data) = slot_at i data"
  using assms by (simp add: slot_at_decode slot_in_page_def peek_overwrite_other)

lemma slot_fits_at: "length data = PAGE_SIZE \<Longrightarrow> slot_in_page i \<Longrightarrow> slot_fits (slot_at i data)"
proof -
  assume a: "length data = PAGE_SIZE" "slot_in_page i"
  have "get_field p n data < 256 ^ length (peek p n data)" for p n unfolding get_field_def by (rule le_val_less)
  then have b: "get_field p n data < 256 ^ n" if "p + n \<le> PAGE_SIZE" for p n
    using that a(1) by (metis (no_types) add_le_imp_le_diff length_drop length_take min.absorb2 peek_def add.commute)
  show ?thesis using a b [of "SLOT_DIR_START + i * SLOT_SIZE" 2] b [of "SLOT_DIR_START + i * SLOT_SIZE + 2" 2]
      b [of "SLOT_DIR_START + i * SLOT_SIZE + 4" 1]
    by (simp add: slot_fits_def slot_at_def slot_in_page_def peek_def Let_def)
qed

section \<open>A page of rows\<close>

definition dir_end :: "string \<Rightarrow> nat" where
  "dir_end data = SLOT_DIR_START + heap_slotCount data * SLOT_SIZE"

definition page_wf :: "string \<Rightarrow> bool" where
  "page_wf data \<longleftrightarrow> length data = PAGE_SIZE \<and> dir_end data \<le> PAGE_SIZE \<and>
     (\<forall>i<heap_slotCount data. let e = slot_at i data in
        se_valid e \<noteq> 0 \<longrightarrow> dir_end data \<le> se_offset e \<and> se_offset e + se_length e \<le> PAGE_SIZE)"

definition row_at :: "nat \<Rightarrow> string \<Rightarrow> row option" where
  "row_at i data = (if heap_slotCount data \<le> i then None
     else let e = slot_at i data in if se_valid e = 0 then None
       else Some (deserializeRowData (peek (se_offset e) (se_length e) data)))"

lemma page_wf_slot: "page_wf data \<Longrightarrow> i < heap_slotCount data \<Longrightarrow> slot_in_page i"
  by (auto simp: page_wf_def dir_end_def slot_in_page_def)

lemma page_wf_row:
  "page_wf data \<Longrightarrow> i < heap_slotCount data \<Longrightarrow> se_valid (slot_at i data) \<noteq> 0 \<Longrightarrow>
   dir_end data \<le> se_offset (slot_at i data) \<and> se_offset (slot_at i data) + se_length (slot_at i data) \<le> PAGE_SIZE"
  by (simp add: page_wf_def Let_def)

lemma page_getRow_wf: "page_wf data \<Longrightarrow> page_getRow i data = Inr (row_at i data)"
  using page_wf_slot [of data i] page_wf_row [of data i]
  by (cases "heap_slotCount data \<le> i"; cases "se_valid (slot_at i data) = 0")
    (simp_all add: page_getRow_def row_at_def slot_row_def Let_def)

text \<open>The first free byte below the rows.\<close>

fun lowest :: "nat \<Rightarrow> nat \<Rightarrow> nat \<Rightarrow> string \<Rightarrow> nat" where
  "lowest i 0 start data = start"
| "lowest i (Suc k) start data = lowest (Suc i) k
     (if se_valid (slot_at i data) \<noteq> 0 \<and> se_offset (slot_at i data) < start then se_offset (slot_at i data) else start) data"

definition rows_start :: "string \<Rightarrow> nat" where
  "rows_start data = lowest 0 (heap_slotCount data) PAGE_SIZE data"

lemma data_start_lowest:
  "\<forall>j<k. slot_in_page (i + j) \<Longrightarrow> data_start i k start data = Inr (lowest i k start data)"
proof (induction k arbitrary: i start)
  case (Suc k)
  have "slot_in_page i" using Suc.prems [rule_format, of 0] by simp
  moreover have "\<forall>j<k. slot_in_page (Suc i + j)" using Suc.prems by (metis Suc_mono add_Suc_shift)
  ultimately show ?case using Suc.IH by (simp add: Let_def)
qed simp

lemma lowest_le_start: "lowest i k start data \<le> start"
proof (induction k arbitrary: i start)
  case (Suc k)
  show ?case unfolding lowest.simps by (rule order_trans [OF Suc.IH]) simp
qed simp

lemma lowest_le_row:
  "i \<le> j \<Longrightarrow> j < i + k \<Longrightarrow> se_valid (slot_at j data) \<noteq> 0 \<Longrightarrow> lowest i k start data \<le> se_offset (slot_at j data)"
proof (induction k arbitrary: i start)
  case (Suc k)
  show ?case
  proof (cases "j = i")
    case True
    then show ?thesis unfolding lowest.simps by (intro order_trans [OF lowest_le_start]) (use Suc.prems in simp)
  next
    case False
    then show ?thesis unfolding lowest.simps using Suc.prems by (intro Suc.IH) simp_all
  qed
qed simp

lemma lowest_ge:
  "b \<le> start \<Longrightarrow> (\<And>j. i \<le> j \<Longrightarrow> j < i + k \<Longrightarrow> se_valid (slot_at j data) \<noteq> 0 \<Longrightarrow> b \<le> se_offset (slot_at j data)) \<Longrightarrow>
   b \<le> lowest i k start data"
proof (induction k arbitrary: i start)
  case (Suc k)
  show ?case unfolding lowest.simps by (rule Suc.IH) (use Suc.prems in auto)
qed simp

lemma rows_start_ok:
  assumes "page_wf data"
  shows "data_start 0 (heap_slotCount data) PAGE_SIZE data = Inr (rows_start data)"
    and "dir_end data \<le> rows_start data" "rows_start data \<le> PAGE_SIZE"
    and "\<And>j. j < heap_slotCount data \<Longrightarrow> se_valid (slot_at j data) \<noteq> 0 \<Longrightarrow> rows_start data \<le> se_offset (slot_at j data)"
  unfolding rows_start_def
  using page_wf_slot [OF assms] page_wf_row [OF assms] assms
  by (auto simp: data_start_lowest lowest_le_start page_wf_def intro: lowest_ge lowest_le_row)

section \<open>Inserting into a page\<close>

definition new_slot :: "string \<Rightarrow> string \<Rightarrow> string \<Rightarrow> slotEntry" where
  "new_slot pad str data = \<lparr>se_offset = rows_start data - length str, se_length = length str, se_valid = 1, se_pad = pad\<rparr>"

definition with_row :: "string \<Rightarrow> string \<Rightarrow> string \<Rightarrow> string" where
  "with_row pad str data = set_field 6 2 (heap_slotCount data + 1) (put_slot (heap_slotCount data)
     (new_slot pad str data) (overwrite (rows_start data - length str) str data))"

text \<open>Is there room for a slot and the text?\<close>

definition page_room_for :: "string \<Rightarrow> string \<Rightarrow> bool" where
  "page_room_for str data \<longleftrightarrow> dir_end data + SLOT_SIZE + length str \<le> rows_start data"

lemma with_row_ok:
  assumes wf: "page_wf data" and room: "page_room_for str data" and pad: "length pad = 1"
  shows "page_wf (with_row pad str data)" "heap_slotCount (with_row pad str data) = Suc (heap_slotCount data)"
    and "pg_id (with_row pad str data) = pg_id data"
    and "row_at (heap_slotCount data) (with_row pad str data) = Some (deserializeRowData str)"
    and "i < heap_slotCount data \<Longrightarrow> row_at i (with_row pad str data) = row_at i data"
    and "rows_start (with_row pad str data) = rows_start data - length str"
proof -
  let ?n = "heap_slotCount data" and ?e = "new_slot pad str data"
  let ?off = "rows_start data - length str"
  let ?d1 = "overwrite ?off str data" and ?d2 = "put_slot ?n ?e (overwrite ?off str data)"
  let ?new = "with_row pad str data"
  have len: "length data = PAGE_SIZE" using wf by (simp add: page_wf_def)
  have s: "rows_start data \<le> PAGE_SIZE" using rows_start_ok(3) [OF wf] .
  have off: "dir_end data + SLOT_SIZE \<le> ?off" "?off + length str = rows_start data"
    using room by (simp_all add: page_room_for_def)
  have n: "slot_in_page ?n" using off s by (simp add: slot_in_page_def dir_end_def)
  then have n': "?n < 680" by (simp add: slot_in_page_def)
  have "?off < 65536" "length str < 65536" using off s by linarith+
  then have fits: "slot_fits ?e" using pad by (simp add: slot_fits_def new_slot_def)
  have l1: "length ?d1 = PAGE_SIZE" using len off s by (simp add: max_def)
  have l2: "length ?d2 = PAGE_SIZE" using length_put_slot [OF fits n l1] .
  have l3: "length ?new = PAGE_SIZE" using l2 by (simp add: with_row_def)
  show count: "heap_slotCount ?new = Suc ?n" using n' by (simp add: with_row_def heap_slotCount_def)
  have far: "peek p m ?new = peek p m data" if "8 \<le> p" "p + m \<le> PAGE_SIZE" "rows_start data \<le> p" for p m
  proof -
    have le: "dir_end data + SLOT_SIZE \<le> p" using that off by linarith
    have "peek p m ?new = peek p m ?d2" using that l2 by (simp del: length_overwrite add: with_row_def set_field_def peek_overwrite_other)
    also have "\<dots> = peek p m ?d1" using that l1 le length_slot_bytes [OF fits]
      by (simp del: length_overwrite add: put_slot_def peek_overwrite_other dir_end_def)
    also have "\<dots> = peek p m data" using that len off by (simp add: peek_overwrite_other)
    finally show ?thesis .
  qed
  have old: "slot_at i ?new = slot_at i data" if "i < ?n" for i
  proof -
    have i: "slot_in_page i" using page_wf_slot [OF wf that] .
    have "slot_at i ?new = slot_at i ?d2" using slot_at_other [OF i l2, of 6 "le_bytes 2 (?n + 1)"]
      by (simp add: with_row_def set_field_def)
    also have "\<dots> = slot_at i ?d1"
      using slot_at_other [OF i l1, of "SLOT_DIR_START + ?n * SLOT_SIZE" "slot_bytes ?e"] that by (simp add: put_slot_def)
    also have "\<dots> = slot_at i data"
      using slot_at_other [OF i len, of ?off str] that off by (simp add: dir_end_def)
    finally show ?thesis .
  qed
  have new: "slot_at ?n ?new = ?e"
    using slot_at_other [OF n l2, of 6 "le_bytes 2 (?n + 1)"] slot_at_put [OF fits]
    by (simp add: with_row_def set_field_def)
  have written: "peek ?off (length str) ?new = str"
  proof -
    have "peek ?off (length str) ?new = peek ?off (length str) ?d2"
      using l2 off s by (simp del: length_overwrite add: with_row_def set_field_def peek_overwrite_other dir_end_def)
    also have "\<dots> = peek ?off (length str) ?d1"
      using l1 off s length_slot_bytes [OF fits] by (simp del: length_overwrite add: put_slot_def peek_overwrite_other dir_end_def)
    finally show ?thesis by (simp add: peek_overwrite)
  qed
  show wf': "page_wf ?new" unfolding page_wf_def Let_def
  proof (intro conjI allI impI)
    show "dir_end ?new \<le> PAGE_SIZE" using off s by (simp add: dir_end_def count)
    fix i assume i: "i < heap_slotCount ?new" "se_valid (slot_at i ?new) \<noteq> 0"
    show "dir_end ?new \<le> se_offset (slot_at i ?new)" "se_offset (slot_at i ?new) + se_length (slot_at i ?new) \<le> PAGE_SIZE"
      using i old [of i] new off s rows_start_ok(4) [OF wf, of i] page_wf_row [OF wf, of i]
      by (cases "i = ?n"; simp add: count dir_end_def new_slot_def)+
  qed (rule l3)
  show "pg_id ?new = pg_id data"
    using l2 l1 len off length_slot_bytes [OF fits]
    by (simp del: length_overwrite add: pg_id_def get_field_def with_row_def set_field_def put_slot_def peek_overwrite_other dir_end_def)
  show "row_at ?n ?new = Some (deserializeRowData str)" using new written by (simp add: row_at_def count new_slot_def)
  show "row_at i ?new = row_at i data" if "i < ?n"
    using that old [OF that] far page_wf_row [OF wf that] rows_start_ok(4) [OF wf that] rows_start_ok(2) [OF wf]
    by (simp add: row_at_def count dir_end_def Let_def)
  show "rows_start ?new = ?off"
  proof (rule antisym)
    show "rows_start ?new \<le> ?off" using rows_start_ok(4) [OF wf', of ?n] new by (simp add: count new_slot_def)
    show "?off \<le> rows_start ?new" unfolding rows_start_def [of ?new]
    proof (rule lowest_ge)
      fix j assume "j < 0 + heap_slotCount ?new" "se_valid (slot_at j ?new) \<noteq> 0"
      then show "?off \<le> se_offset (slot_at j ?new)"
        using new old [of j] rows_start_ok(4) [OF wf, of j] off by (cases "j = ?n") (auto simp: count new_slot_def)
    qed (use s in simp)
  qed
qed

lemma insertIntoPage_room:
  assumes "page_wf data" "page_room_for (serializeRowData ord row) data"
  shows "insertIntoPage ord pad row data =
    Inr (\<lparr>rid_page = pg_id (with_row pad (serializeRowData ord row) data), rid_slot = heap_slotCount data\<rparr>,
      with_row pad (serializeRowData ord row) data)"
proof -
  let ?str = "serializeRowData ord row"
  have r: "dir_end data + SLOT_SIZE + length ?str \<le> rows_start data" "rows_start data \<le> PAGE_SIZE"
    using assms(2) rows_start_ok(3) [OF assms(1)] by (simp_all add: page_room_for_def)
  have "nat ((int (rows_start data) - int (length ?str)) mod 2 ^ 16) = rows_start data - length ?str"
    using r by (simp add: nat_mod_as_int of_nat_diff)
  then show ?thesis using r rows_start_ok(1) [OF assms(1)]
    by (simp add: insertIntoPage_def with_row_def new_slot_def dir_end_def slot_in_page_def Let_def)
qed

lemma insertIntoPage_full:
  assumes "page_wf data" "length (serializeRowData ord row) \<le> rows_start data"
    and "\<not> page_room_for (serializeRowData ord row) data"
  shows "insertIntoPage ord pad row data = Inr (\<lparr>rid_page = INVALID_PAGE_ID, rid_slot = 0\<rparr>, data)"
  using assms rows_start_ok(1,3) [OF assms(1)]
  by (simp add: insertIntoPage_def page_room_for_def dir_end_def Let_def)

section \<open>Deleting from a page\<close>

lemma page_deleteRow_wf:
  assumes wf: "page_wf data"
  shows "page_deleteRow i data = Inr None \<and> row_at i data = None \<or>
    (\<exists>data'. page_deleteRow i data = Inr (Some data') \<and> row_at i data \<noteq> None \<and> page_wf data' \<and>
      pg_id data' = pg_id data \<and> heap_slotCount data' = heap_slotCount data \<and> rows_start data \<le> rows_start data' \<and>
      (\<forall>j. row_at j data' = (if j = i then None else row_at j data)))"
proof (cases "i < heap_slotCount data \<and> se_valid (slot_at i data) \<noteq> 0")
  case False
  then show ?thesis using page_wf_slot [OF wf, of i] by (auto simp: page_deleteRow_def row_at_def Let_def)
next
  case True
  let ?e = "(slot_at i data)\<lparr>se_valid := 0\<rparr>"
  let ?d = "put_slot i ?e data"
  have i: "slot_in_page i" using page_wf_slot [OF wf] True by simp
  have len: "length data = PAGE_SIZE" using wf by (simp add: page_wf_def)
  have fits: "slot_fits ?e" using slot_fits_at [OF len i] by (simp add: slot_fits_def)
  have len': "length ?d = PAGE_SIZE" by (rule length_put_slot [OF fits i len])
  note lb = length_slot_bytes [OF fits]
  have hd: "heap_slotCount ?d = heap_slotCount data" "pg_id ?d = pg_id data"
    by (simp_all add: heap_slotCount_def pg_id_def get_field_def put_slot_def peek_overwrite_other len lb)
  have apart: "SLOT_SIZE + j * SLOT_SIZE \<le> i * SLOT_SIZE \<or> SLOT_SIZE + i * SLOT_SIZE \<le> j * SLOT_SIZE" if "j \<noteq> i" for j
    using that by presburger
  have other: "slot_at j ?d = slot_at j data" if "slot_in_page j" "j \<noteq> i" for j
    using apart [OF that(2)] slot_at_other [OF that(1) len, of "SLOT_DIR_START + i * SLOT_SIZE" "slot_bytes ?e"] that(2) lb
    by (simp add: put_slot_def)
  have far: "peek p m ?d = peek p m data" if "dir_end data \<le> p" "p + m \<le> PAGE_SIZE" for p m
    using that True len lb by (simp add: put_slot_def peek_overwrite_other dir_end_def)
  have "row_at j ?d = (if j = i then None else row_at j data)" for j
  proof (cases "j < heap_slotCount data \<and> j \<noteq> i")
    case True
    then have o: "slot_at j ?d = slot_at j data" using page_wf_slot [OF wf] by (intro other) simp_all
    show ?thesis
    proof (cases "se_valid (slot_at j data) = 0")
      case False
      then show ?thesis using True o far page_wf_row [OF wf, of j] by (simp add: row_at_def hd Let_def)
    qed (use True o in \<open>simp add: row_at_def hd Let_def\<close>)
  next
    case False
    then show ?thesis using slot_at_put [OF fits, of i data] by (auto simp: row_at_def hd Let_def)
  qed
  moreover have "page_wf ?d" unfolding page_wf_def Let_def dir_end_def hd
  proof (intro conjI allI impI)
    fix j assume j: "j < heap_slotCount data" "se_valid (slot_at j ?d) \<noteq> 0"
    then have "j \<noteq> i" using slot_at_put [OF fits, of i data] by auto
    then have "slot_at j ?d = slot_at j data" using j page_wf_slot [OF wf] by (intro other) simp_all
    then show "SLOT_DIR_START + heap_slotCount data * SLOT_SIZE \<le> se_offset (slot_at j ?d)"
      "se_offset (slot_at j ?d) + se_length (slot_at j ?d) \<le> PAGE_SIZE"
      using j page_wf_row [OF wf, of j] by (simp_all add: dir_end_def)
  qed (use wf len' in \<open>simp_all add: page_wf_def dir_end_def\<close>)
  moreover have "rows_start data \<le> rows_start ?d" unfolding rows_start_def [of ?d] hd
  proof (rule lowest_ge)
    fix j assume j: "j < 0 + heap_slotCount data" "se_valid (slot_at j ?d) \<noteq> 0"
    then have "j \<noteq> i" using slot_at_put [OF fits, of i data] by auto
    then have "slot_at j ?d = slot_at j data" using j page_wf_slot [OF wf] by (intro other) simp_all
    then show "rows_start data \<le> se_offset (slot_at j ?d)" using j rows_start_ok(4) [OF wf, of j] by simp
  qed (rule rows_start_ok(3) [OF wf])
  moreover have "page_deleteRow i data = Inr (Some ?d)" using True i by (simp add: page_deleteRow_def Let_def)
  moreover have "row_at i data \<noteq> None" using True by (simp add: row_at_def Let_def)
  ultimately show ?thesis using hd by blast
qed

section \<open>The heap through the pool\<close>

definition heap_view :: "pool \<Rightarrow> rowId \<Rightarrow> row option" where
  "heap_view bp rid = (case bp_view bp (rid_page rid) of None \<Rightarrow> None | Some data \<Rightarrow> row_at (rid_slot rid) data)"

lemma heap_view_cong: "bp_view bp' = bp_view bp \<Longrightarrow> heap_view bp' = heap_view bp"
  by (simp add: fun_eq_iff heap_view_def)

lemma heap_view_page:
  "bp_view bp' = (bp_view bp)(pid \<mapsto> data) \<Longrightarrow> heap_view bp' rid =
   (if rid_page rid = pid then row_at (rid_slot rid) data else heap_view bp rid)"
  by (simp add: heap_view_def)

lemma heap_getRow_ok:
  assumes "pool_idle bp" "bp_view bp (rid_page rid) = Some data" "page_wf data"
  shows "\<exists>bp'. heap_getRow rid bp = (Inr (heap_view bp rid), bp') \<and> pool_idle bp' \<and> bp_view bp' = bp_view bp"
  by (rule client_fetch [OF assms(1,2)])
     (use assms(2,3) in \<open>simp add: heap_getRow_def page_getRow_wf heap_view_def same_store_def\<close>)

lemma heap_insertRow_ok:
  assumes "pool_idle bp" "bp_view bp first = Some data" "page_wf data" "pg_id data = first" "length pad = 1"
    and "page_room_for (serializeRowData ord row) data"
  shows "\<exists>bp'. heap_insertRow ord pad row first bp = (Inr \<lparr>rid_page = first, rid_slot = heap_slotCount data\<rparr>, bp') \<and>
    pool_idle bp' \<and> bp_view bp' = (bp_view bp)(first \<mapsto> with_row pad (serializeRowData ord row) data)"
proof (rule client_fetch [OF assms(1,2)])
  let ?new = "with_row pad (serializeRowData ord row) data"
  note new = with_row_ok [OF assms(3,6,5)]
  have len: "length ?new = PAGE_SIZE" using new(1) by (simp add: page_wf_def)
  fix bp1
  assume f: "fetchPage first bp = (Inr (), bp1)" "page_data first bp1 = data"
    "\<And>data'. length data' = PAGE_SIZE \<Longrightarrow> pool_idle (unpin first True (poke first data' bp1)) \<and>
      bp_view (unpin first True (poke first data' bp1)) = (bp_view bp)(first \<mapsto> data') \<and>
      dk_pageCount (bp_disk (unpin first True (poke first data' bp1))) = dk_pageCount (bp_disk bp)"
  show ?thesis using f(1,2) f(3) [OF len] insertIntoPage_room [OF assms(3,6), of pad] new(3) assms(4)
    by (simp add: heap_insertRow_def)
qed

lemma heap_insertRow_full:
  assumes "pool_idle bp" "bp_view bp first = Some data" "page_wf data"
    and "length (serializeRowData ord row) \<le> rows_start data" "\<not> page_room_for (serializeRowData ord row) data"
  shows "\<exists>bp'. heap_insertRow ord pad row first bp = (Inr \<lparr>rid_page = INVALID_PAGE_ID, rid_slot = 0\<rparr>, bp') \<and>
    pool_idle bp' \<and> bp_view bp' = bp_view bp"
proof (rule client_fetch [OF assms(1,2)])
  have len: "length data = PAGE_SIZE" using assms(3) by (simp add: page_wf_def)
  fix bp1
  assume f: "fetchPage first bp = (Inr (), bp1)" "page_data first bp1 = data"
    "\<And>data'. length data' = PAGE_SIZE \<Longrightarrow> pool_idle (unpin first True (poke first data' bp1)) \<and>
      bp_view (unpin first True (poke first data' bp1)) = (bp_view bp)(first \<mapsto> data') \<and>
      dk_pageCount (bp_disk (unpin first True (poke first data' bp1))) = dk_pageCount (bp_disk bp)"
  show ?thesis using f(1,2) f(3) [OF len] insertIntoPage_full [OF assms(3-5), of pad] assms(2)
    by (simp add: heap_insertRow_def fun_upd_idem)
qed

lemma heap_deleteRow_ok:
  assumes "pool_idle bp" "bp_view bp (rid_page rid) = Some data" "page_wf data"
  shows "\<exists>bp' data'. heap_deleteRow rid bp = (Inr (heap_view bp rid \<noteq> None), bp') \<and> pool_idle bp' \<and>
    bp_view bp' = (bp_view bp)(rid_page rid \<mapsto> data') \<and> page_wf data' \<and> pg_id data' = pg_id data \<and>
    heap_slotCount data' = heap_slotCount data \<and> rows_start data \<le> rows_start data' \<and>
    (\<forall>j. row_at j data' = (if j = rid_slot rid then None else row_at j data))"
proof (rule client_fetch [OF assms(1,2)])
  fix bp1
  assume f: "fetchPage (rid_page rid) bp = (Inr (), bp1)" "page_data (rid_page rid) bp1 = data"
    "pool_idle (unpin (rid_page rid) False bp1)" "same_store bp (unpin (rid_page rid) False bp1)"
    "\<And>data'. length data' = PAGE_SIZE \<Longrightarrow> pool_idle (unpin (rid_page rid) True (poke (rid_page rid) data' bp1)) \<and>
      bp_view (unpin (rid_page rid) True (poke (rid_page rid) data' bp1)) = (bp_view bp)(rid_page rid \<mapsto> data') \<and>
      dk_pageCount (bp_disk (unpin (rid_page rid) True (poke (rid_page rid) data' bp1))) = dk_pageCount (bp_disk bp)"
  from page_deleteRow_wf [OF assms(3), of "rid_slot rid"] show ?thesis
  proof (elim disjE exE conjE)
    assume "page_deleteRow (rid_slot rid) data = Inr None" "row_at (rid_slot rid) data = None"
    then show ?thesis using f(1-4) assms(2,3)
      by (intro exI [of _ "unpin (rid_page rid) False bp1"] exI [of _ data])
        (auto simp: heap_deleteRow_def heap_view_def same_store_def)
  next
    fix data'
    assume d: "page_deleteRow (rid_slot rid) data = Inr (Some data')" "row_at (rid_slot rid) data \<noteq> None" "page_wf data'"
      "pg_id data' = pg_id data" "heap_slotCount data' = heap_slotCount data" "rows_start data \<le> rows_start data'"
      "\<forall>j. row_at j data' = (if j = rid_slot rid then None else row_at j data)"
    then have "length data' = PAGE_SIZE" by (simp add: page_wf_def)
    from f(5) [OF this] show ?thesis using f(1,2) d assms(2)
      by (intro exI [of _ "unpin (rid_page rid) True (poke (rid_page rid) data' bp1)"] exI [of _ data'])
        (auto simp: heap_deleteRow_def heap_view_def)
  qed
qed

section \<open>A heap to try it on\<close>

definition fresh_heap :: pool where
  "fresh_heap = snd (heap_create (BufferPool_init 2
     \<lparr>dk_file = \<lparr>fs_bytes = [], fs_pos = 0, fs_eof = False, fs_fail = False\<rparr>, dk_pageCount = 0\<rparr>))"

lemma fresh_page: "page_wf (page_bytes pid)" "dir_end (page_bytes pid) = 14" "rows_start (page_bytes pid) = PAGE_SIZE"
  "heap_slotCount (page_bytes pid) = 0"
proof -
  show c: "heap_slotCount (page_bytes pid) = 0" by (simp add: heap_slotCount_def page_bytes_def get_set_other)
  show "page_wf (page_bytes pid)" "dir_end (page_bytes pid) = 14" "rows_start (page_bytes pid) = PAGE_SIZE"
    by (simp_all add: page_wf_def dir_end_def rows_start_def c)
qed

lemma fresh_heap_ok: "pool_idle fresh_heap" "bp_view fresh_heap = [0 \<mapsto> page_bytes 0]" "dk_pageCount (bp_disk fresh_heap) = 1"
proof -
  let ?d = "\<lparr>dk_file = \<lparr>fs_bytes = [], fs_pos = 0, fs_eof = False, fs_fail = False\<rparr>, dk_pageCount = 0\<rparr>"
  have "disk_ok ?d" by (simp add: disk_ok_def fs_good_def)
  then have i: "pool_idle (BufferPool_init 2 ?d)" "bp_view (BufferPool_init 2 ?d) = Map.empty"
    using pool_init_idle [of ?d 2] by (auto simp: disk_view_def fun_eq_iff)
  have c: "dk_pageCount (bp_disk (BufferPool_init 2 ?d)) = 0" by (simp add: BufferPool_init_def)
  from pool_new_ok [OF i(1)] c i(2) obtain bp where "pool_new (BufferPool_init 2 ?d) = (Inr 0, bp)" "pool_idle bp"
    "bp_view bp = [0 \<mapsto> page_bytes 0]" "dk_pageCount (bp_disk bp) = 1" by auto
  then show "pool_idle fresh_heap" "bp_view fresh_heap = [0 \<mapsto> page_bytes 0]" "dk_pageCount (bp_disk fresh_heap) = 1"
    by (simp_all add: fresh_heap_def heap_create_def)
qed

lemma one_field_text: "serializeRowData sorted_ord (fmap_of_list [(c, v)]) = c @ ''='' @ v @ '';''"
  by (simp add: serializeRowData_def sorted_ord_def sorted_list_of_fset.rep_eq)

text \<open>
  A row inserted into a page with room for it gets an identifier that was free; reading it
  back gives the row, every other row of every page stays, and so does everything else when it
  is read.
\<close>

theorem heap_insert_get:
  assumes "pool_idle bp" "bp_view bp first = Some data" "page_wf data" "pg_id data = first" "length pad = 1"
    and "row_order ord" "row_safe row" "page_room_for (serializeRowData ord row) data"
  shows "\<exists>rid bp' bp''. heap_insertRow ord pad row first bp = (Inr rid, bp') \<and> heap_view bp rid = None \<and>
    heap_view bp' = (heap_view bp)(rid \<mapsto> row) \<and> heap_getRow rid bp' = (Inr (Some row), bp'') \<and>
    heap_view bp'' = heap_view bp' \<and> pool_idle bp''"
proof -
  let ?new = "with_row pad (serializeRowData ord row) data"
  let ?rid = "\<lparr>rid_page = first, rid_slot = heap_slotCount data\<rparr>"
  note new = with_row_ok [OF assms(3,8,5)]
  have row: "deserializeRowData (serializeRowData ord row) = row"
    using deserialize_serialize [OF assms(6,7)] by (simp add: row_codecs_agree)
  obtain bp' where b: "heap_insertRow ord pad row first bp = (Inr ?rid, bp')" "pool_idle bp'"
    "bp_view bp' = (bp_view bp)(first \<mapsto> ?new)" using heap_insertRow_ok [OF assms(1-5,8)] by blast
  have none: "heap_view bp ?rid = None" using assms(2) by (simp add: heap_view_def row_at_def)
  have upd: "heap_view bp' = (heap_view bp)(?rid \<mapsto> row)"
  proof
    fix rid
    show "heap_view bp' rid = ((heap_view bp)(?rid \<mapsto> row)) rid"
    proof (cases "rid_page rid = first")
      case True
      then have eq: "rid = ?rid \<longleftrightarrow> rid_slot rid = heap_slotCount data" by (cases rid) simp
      have "row_at (rid_slot rid) ?new = row_at (rid_slot rid) data" if "heap_slotCount data < rid_slot rid"
        using that new(2) by (simp add: row_at_def)
      moreover have "heap_view bp' rid = row_at (rid_slot rid) ?new" "heap_view bp rid = row_at (rid_slot rid) data"
        using True b(3) assms(2) by (simp_all add: heap_view_def)
      ultimately show ?thesis using eq new(4,5) row linorder_less_linear [of "rid_slot rid" "heap_slotCount data"] by auto
    next
      case False
      then show ?thesis by (auto simp: heap_view_page [OF b(3)])
    qed
  qed
  obtain bp'' where "heap_getRow ?rid bp' = (Inr (heap_view bp' ?rid), bp'')" "pool_idle bp''" "bp_view bp'' = bp_view bp'"
    using heap_getRow_ok [OF b(2), of ?rid ?new] b(3) new(1) by auto
  then show ?thesis using b(1) none upd heap_view_cong [of bp'' bp'] by auto
qed

theorem heap_insert_get_witness:
  "\<exists>rid bp' bp''. heap_insertRow sorted_ord [CHR 0x00] (fmap_of_list [(''id'', ''7'')]) 0 fresh_heap = (Inr rid, bp') \<and>
    heap_view fresh_heap rid = None \<and> heap_view bp' = (heap_view fresh_heap)(rid \<mapsto> fmap_of_list [(''id'', ''7'')]) \<and>
    heap_getRow rid bp' = (Inr (Some (fmap_of_list [(''id'', ''7'')])), bp'') \<and>
    heap_view bp'' = heap_view bp' \<and> pool_idle bp''"
proof (rule heap_insert_get [OF fresh_heap_ok(1) _ fresh_page(1) page_bytes_header(1)])
  show "bp_view fresh_heap 0 = Some (page_bytes 0)" by (simp add: fresh_heap_ok(2))
  show "row_safe (fmap_of_list [(''id'', ''7'')])"
    by (auto simp: row_safe_def fmpred_iff field_safe_def split: if_splits)
  show "page_room_for (serializeRowData sorted_ord (fmap_of_list [(''id'', ''7'')])) (page_bytes 0)"
    unfolding one_field_text by (simp add: page_room_for_def fresh_page)
qed (simp_all add: sorted_ord_order)

text \<open>
  An update that does not find room loses the row. \<open>updateRow\<close> deletes the old row, ignores
  that the insertion failed, and returns true: the row is gone, and nothing else changed.
\<close>

theorem heap_update_loses_row:
  assumes "pool_idle bp" "bp_view bp (rid_page rid) = Some data" "page_wf data" "row_at (rid_slot rid) data \<noteq> None"
    and "length (serializeRowData ord row) \<le> rows_start data"
    and "PAGE_SIZE < dir_end data + SLOT_SIZE + length (serializeRowData ord row)"
  shows "\<exists>bp'. heap_updateRow ord pad rid row (rid_page rid) bp = (Inr True, bp') \<and> pool_idle bp' \<and>
    heap_view bp' = (heap_view bp)(rid := None)"
proof -
  obtain bp1 data' where d: "heap_deleteRow rid bp = (Inr (heap_view bp rid \<noteq> None), bp1)" "pool_idle bp1"
    "bp_view bp1 = (bp_view bp)(rid_page rid \<mapsto> data')" "page_wf data'" "heap_slotCount data' = heap_slotCount data"
    "rows_start data \<le> rows_start data'" "\<forall>j. row_at j data' = (if j = rid_slot rid then None else row_at j data)"
    using heap_deleteRow_ok [OF assms(1-3)] by blast
  have full: "\<not> page_room_for (serializeRowData ord row) data'"
    using assms(6) d(5) rows_start_ok(3) [OF d(4)] by (simp add: page_room_for_def dir_end_def)
  have v: "bp_view bp1 (rid_page rid) = Some data'" by (simp add: d(3))
  have short: "length (serializeRowData ord row) \<le> rows_start data'" using assms(5) d(6) by simp
  from heap_insertRow_full [OF d(2) v d(4) short full, of pad] obtain bp2 where
    i: "heap_insertRow ord pad row (rid_page rid) bp1 = (Inr \<lparr>rid_page = INVALID_PAGE_ID, rid_slot = 0\<rparr>, bp2)"
      "pool_idle bp2" "bp_view bp2 = bp_view bp1" by blast
  have "heap_view bp2 r = ((heap_view bp)(rid := None)) r" for r
  proof (cases "rid_page r = rid_page rid")
    case True
    then have "r = rid \<longleftrightarrow> rid_slot r = rid_slot rid" by (cases r; cases rid) simp
    moreover have "heap_view bp2 r = row_at (rid_slot r) data'" "heap_view bp r = row_at (rid_slot r) data"
      using True d(3) i(3) assms(2) by (simp_all add: heap_view_def)
    ultimately show ?thesis using d(7) by simp
  next
    case False
    then show ?thesis using d(3) i(3) by (auto simp: heap_view_def)
  qed
  moreover have "heap_view bp rid \<noteq> None" using assms(2,4) by (simp add: heap_view_def)
  ultimately show ?thesis using d(1) i(1,2) by (intro exI [of _ bp2]) (auto simp: heap_updateRow_def)
qed

theorem heap_update_loses_row_witness:
  "\<exists>bp bp'. heap_view bp \<lparr>rid_page = 0, rid_slot = 0\<rparr> = Some (fmap_of_list [(''id'', ''7'')]) \<and>
    heap_updateRow sorted_ord [CHR 0x00] \<lparr>rid_page = 0, rid_slot = 0\<rparr>
      (fmap_of_list [(''v'', replicate 4075 (CHR ''x''))]) 0 bp = (Inr True, bp') \<and> pool_idle bp' \<and>
    heap_view bp' = (heap_view bp)(\<lparr>rid_page = 0, rid_slot = 0\<rparr> := None)"
proof -
  let ?row = "fmap_of_list [(''id'', ''7'')]" and ?big = "fmap_of_list [(''v'', replicate 4075 (CHR ''x''))]"
  let ?s = "serializeRowData sorted_ord ?row" and ?rid = "\<lparr>rid_page = 0, rid_slot = 0\<rparr>"
  have room: "page_room_for ?s (page_bytes 0)" unfolding one_field_text by (simp add: page_room_for_def fresh_page)
  have "row_safe ?row" by (auto simp: row_safe_def fmpred_iff field_safe_def split: if_splits)
  then have again: "deserializeRowData ?s = ?row"
    using deserialize_serialize [OF sorted_ord_order] by (simp add: row_codecs_agree)
  note new = with_row_ok [OF fresh_page(1) room, of "[CHR 0x00]"]
  obtain bp where bp: "pool_idle bp" "bp_view bp = (bp_view fresh_heap)(0 \<mapsto> with_row [CHR 0x00] ?s (page_bytes 0))"
    using heap_insertRow_ok [OF fresh_heap_ok(1) _ fresh_page(1) page_bytes_header(1) _ room, of "[CHR 0x00]"]
    by (auto simp: fresh_heap_ok(2))
  let ?data = "with_row [CHR 0x00] ?s (page_bytes 0)"
  have v: "bp_view bp (rid_page ?rid) = Some ?data" by (simp add: bp(2))
  have held: "row_at (rid_slot ?rid) ?data = Some ?row" using new(4) again by (simp add: fresh_page(4))
  have present: "row_at (rid_slot ?rid) ?data \<noteq> None" unfolding held by simp
  have "length ?s = 5" unfolding one_field_text by simp
  then have b: "rows_start ?data = 4091" "dir_end ?data = 20"
    using new(2,6) by (simp_all add: fresh_page dir_end_def)
  have len: "length (serializeRowData sorted_ord ?big) = 4078" unfolding one_field_text by simp
  have "\<exists>bp'. heap_updateRow sorted_ord [CHR 0x00] ?rid ?big (rid_page ?rid) bp = (Inr True, bp') \<and> pool_idle bp' \<and>
      heap_view bp' = (heap_view bp)(?rid := None)"
    by (rule heap_update_loses_row [OF bp(1) v new(1) present]) (simp_all only: b len, simp_all)
  moreover have "heap_view bp ?rid = Some ?row" using v held by (simp add: heap_view_def)
  ultimately show ?thesis by auto
qed

lemma heap_insertRow_long:
  assumes "pool_idle bp" "bp_view bp first = Some data" "page_wf data"
    and "rows_start data < length (serializeRowData ord row)" "length (serializeRowData ord row) < 2 ^ 16"
  shows "fst (heap_insertRow ord pad row first bp) = Inl Undefined_behaviour"
proof (rule client_fetch [OF assms(1,2)])
  let ?L = "length (serializeRowData ord row)" and ?s = "rows_start data"
  have "nat ((int ?s - int ?L) mod 2 ^ 16) = 2 ^ 16 + ?s - ?L"
  proof -
    have "(int ?s - int ?L) mod 2 ^ 16 = (int ?s - int ?L + 2 ^ 16) mod 2 ^ 16" by simp
    also have "\<dots> = int ?s - int ?L + 2 ^ 16" using assms(4,5) by (intro mod_pos_pos_trivial) auto
    finally show ?thesis using assms(4,5) by (simp add: nat_diff_distrib)
  qed
  then have "insertIntoPage ord pad row data = Inl Undefined_behaviour"
    using assms(4,5) rows_start_ok(1) [OF assms(3)] by (simp add: insertIntoPage_def Let_def)
  moreover fix bp1
  assume "fetchPage first bp = (Inr (), bp1)" "page_data first bp1 = data"
  ultimately show ?thesis by (simp add: heap_insertRow_def)
qed

text \<open>
  C38. What an insertion into a well-formed page does depends on the length of the row's text, below
  65536. If the text and a slot of six bytes fit between the directory and the lowest row, the row gets
  the next slot. If they do not, but the text is no longer than all that lies below the lowest row, the
  page's header and the directory included, the invalid row identifier is returned. If it is longer still,
  the test for free space compares a negative \<open>int\<close> with a \<open>size_t\<close> and does not hold: the row is
  copied to an offset behind the end of the page.
\<close>

theorem heap_insert_overflow:
  assumes "pool_idle bp" "bp_view bp first = Some data" "page_wf data" "pg_id data = first" "length pad = 1"
    and "length (serializeRowData ord row) < 2 ^ 16"
  shows "fst (heap_insertRow ord pad row first bp) =
    (let n = length (serializeRowData ord row) in
     if dir_end data + SLOT_SIZE + n \<le> rows_start data then Inr \<lparr>rid_page = first, rid_slot = heap_slotCount data\<rparr>
     else if n \<le> rows_start data then Inr \<lparr>rid_page = INVALID_PAGE_ID, rid_slot = 0\<rparr>
     else Inl Undefined_behaviour)"
proof -
  let ?n = "length (serializeRowData ord row)"
  have room: "page_room_for (serializeRowData ord row) data \<longleftrightarrow> dir_end data + SLOT_SIZE + ?n \<le> rows_start data"
    by (simp add: page_room_for_def)
  consider "dir_end data + SLOT_SIZE + ?n \<le> rows_start data" | "\<not> dir_end data + SLOT_SIZE + ?n \<le> rows_start data" "?n \<le> rows_start data"
    | "rows_start data < ?n" by linarith
  then show ?thesis
  proof cases
    case 1
    then show ?thesis using heap_insertRow_ok [OF assms(1-5), of ord row] room by (auto simp: Let_def)
  next
    case 2
    then show ?thesis using heap_insertRow_full [OF assms(1-3), of ord row pad] room by (auto simp: Let_def)
  next
    case 3
    then show ?thesis using heap_insertRow_long [OF assms(1-3) 3 assms(6)] by (simp add: Let_def)
  qed
qed

theorem heap_insert_overflow_witness:
  "fst (heap_insertRow sorted_ord [CHR 0x00] (fmap_of_list [(''v'', ''7'')]) 0 fresh_heap) = Inr \<lparr>rid_page = 0, rid_slot = 0\<rparr> \<and>
   fst (heap_insertRow sorted_ord [CHR 0x00] (fmap_of_list [(''v'', replicate 4080 (CHR ''x''))]) 0 fresh_heap) =
     Inr \<lparr>rid_page = INVALID_PAGE_ID, rid_slot = 0\<rparr> \<and>
   fst (heap_insertRow sorted_ord [CHR 0x00] (fmap_of_list [(''v'', replicate 5000 (CHR ''x''))]) 0 fresh_heap) =
     Inl Undefined_behaviour"
proof -
  have v: "bp_view fresh_heap 0 = Some (page_bytes 0)" by (simp add: fresh_heap_ok(2))
  note ins = heap_insert_overflow [OF fresh_heap_ok(1) v fresh_page(1) page_bytes_header(1), of "[CHR 0x00]" sorted_ord,
      unfolded fresh_page]
  show ?thesis by (simp add: ins one_field_text Let_def del: fmap_of_list_simps)
qed

lemma scan_slots_wf:
  "page_wf data \<Longrightarrow> i + k \<le> heap_slotCount data \<Longrightarrow> \<exists>rows. scan_slots snapshot pid i k data = Inr rows"
proof (induction k arbitrary: i)
  case (Suc k)
  obtain rows where "scan_slots snapshot pid (Suc i) k data = Inr rows" using Suc.IH [of "Suc i"] Suc.prems by auto
  moreover have "slot_in_page i" using page_wf_slot [OF Suc.prems(1)] Suc.prems(2) by simp
  ultimately show ?case using page_wf_row [OF Suc.prems(1), of i] Suc.prems(2)
    by (cases "se_valid (slot_at i data) = 0") (auto simp: slot_row_def Let_def)
qed simp

text \<open>
  C39. A scan never returns. It goes on to the page after the last one, and past the last page
  of the file \<open>fetchPage\<close> throws: whatever snapshot it is given, the scan of a heap whose
  pages are all well formed ends with the error that the page behind the file does not exist.
\<close>

theorem heap_scan_throws:
  assumes "pool_idle bp" "first \<le> dk_pageCount (bp_disk bp)"
    and "\<And>pid data. first \<le> pid \<Longrightarrow> bp_view bp pid = Some data \<Longrightarrow> page_wf data"
    and "dk_pageCount (bp_disk bp) \<noteq> INVALID_PAGE_ID"
  shows "fst (heap_scan snapshot first bp) = Inl (Page_does_not_exist (dk_pageCount (bp_disk bp)))"
proof -
  have "fst (heap_scan_loop snapshot pid results bp) = Inl (Page_does_not_exist (dk_pageCount (bp_disk bp)))"
    if "pool_idle bp" "first \<le> pid" "pid \<le> dk_pageCount (bp_disk bp)" "dk_pageCount (bp_disk bp) \<noteq> INVALID_PAGE_ID"
      "\<And>pid data. first \<le> pid \<Longrightarrow> bp_view bp pid = Some data \<Longrightarrow> page_wf data" for pid results bp
    using that
  proof (induction snapshot pid results bp rule: heap_scan_loop.induct)
    case (1 snapshot pid results bp)
    let ?n = "dk_pageCount (bp_disk bp)"
    have ok: "pool_ok {} bp" using 1(2) by (simp add: pool_idle_def)
    have inv: "pid \<noteq> INVALID_PAGE_ID" using 1(4,5) less_not_invalid [of pid ?n] by (cases "pid = ?n") (simp_all add: order_le_less)
    show ?case
    proof (cases "pid < ?n")
      case False
      then have "bp_view bp pid = None" "pid = ?n" using pool_view_dom(1) [OF ok, of pid] 1(4) by auto
      then obtain bp' where "fetchPage pid bp = (Inl (Page_does_not_exist ?n), bp')"
        using pool_missing [OF 1(2), of pid] by blast
      then show ?thesis using inv by (subst heap_scan_loop.simps) simp
    next
      case True
      then obtain data where data: "bp_view bp pid = Some data" using pool_view_dom(1) [OF ok, of pid] by auto
      then have wf: "page_wf data" using 1(3,6) by blast
      obtain rows where rows: "scan_slots snapshot pid 0 (heap_slotCount data) data = Inr rows"
        using scan_slots_wf [OF wf, of 0 "heap_slotCount data"] by auto
      have next_page: "pid < pid + 1" "pid + 1 \<le> ?n"
        using unat_next_page [OF inv] True by (simp_all add: word_less_nat_alt word_le_nat_alt)
      show ?thesis
      proof (rule client_fetch [OF 1(2) data])
        fix bp1
        assume f: "fetchPage pid bp = (Inr (), bp1)" "page_data pid bp1 = data"
          "pool_idle (unpin pid False bp1)" "same_store bp (unpin pid False bp1)"
        then have s: "bp_view (unpin pid False bp1) = bp_view bp" "dk_pageCount (bp_disk (unpin pid False bp1)) = ?n"
          by (simp_all add: same_store_def)
        have "heap_scan_loop snapshot pid results bp =
            heap_scan_loop snapshot (pid + 1) (results @ rows) (unpin pid False bp1)"
          using f(1,2) rows inv by (subst heap_scan_loop.simps) (simp add: Let_def)
        moreover have "first \<le> pid + 1" using 1(3) next_page(1) by simp
        ultimately show ?thesis
          using 1(1) [OF inv f(1) [symmetric] refl refl _ f(3)] rows f(2) 1(5,6) next_page(2) s by simp
      qed
    qed
  qed
  then show ?thesis using assms by (simp add: heap_scan_def)
qed

theorem heap_scan_throws_witness:
  "fst (heap_scan None 0 fresh_heap) = Inl (Page_does_not_exist (dk_pageCount (bp_disk fresh_heap)))"
  by (rule heap_scan_throws [OF fresh_heap_ok(1)])
    (auto simp: fresh_heap_ok fresh_page(1) split: if_splits)

end
