(* ===== verification/Heap_Map.thy ===== *)
theory Heap_Map
  imports Heap_Props
begin

text \<open>
  The table heap as a map from row identifiers to rows, through whole sequences of calls. The
  contract is the locale \<open>row_store\<close>; the slotted page in the buffer pool provides it while the
  rows fit in the page.
\<close>

section \<open>The contract\<close>

text \<open>
  The abstract state: the rows, and the number of slots handed out. \<open>holds n s (m, c)\<close> says
  that the store \<open>s\<close> has that state, and room worth \<open>n\<close> for more rows.
\<close>

type_synonym row_map = "(rowId \<rightharpoonup> row) \<times> nat"

locale row_store =
  fixes first :: page_id
    and holds :: "nat \<Rightarrow> 's \<Rightarrow> row_map \<Rightarrow> bool"
    and cost :: "row \<Rightarrow> nat"
    and good :: "row \<Rightarrow> bool"
    and ins :: "row \<Rightarrow> ('s, rowId) eff"
    and get :: "rowId \<Rightarrow> ('s, row option) eff"
    and del :: "rowId \<Rightarrow> ('s, bool) eff"
  assumes ins_ok: "holds (n + cost row) s (m, c) \<Longrightarrow> good row \<Longrightarrow>
      \<exists>s'. ins row s = (Inr \<lparr>rid_page = first, rid_slot = c\<rparr>, s') \<and> holds n s' (m(\<lparr>rid_page = first, rid_slot = c\<rparr> \<mapsto> row), Suc c)"
    and get_ok: "holds n s (m, c) \<Longrightarrow> rid_page rid = first \<Longrightarrow> \<exists>s'. get rid s = (Inr (m rid), s') \<and> holds n s' (m, c)"
    and del_ok: "holds n s (m, c) \<Longrightarrow> rid_page rid = first \<Longrightarrow>
      \<exists>s'. del rid s = (Inr (m rid \<noteq> None), s') \<and> holds n s' (m(rid := None), c)"
    and holds_less: "holds (n + k) s (m, c) \<Longrightarrow> holds n s (m, c)"

section \<open>Sequences of calls\<close>

datatype heap_op = HpInsert row | HpGet rowId | HpDelete rowId | HpUpdate rowId row

datatype heap_answer = HpRid rowId | HpRow "row option" | HpBool bool | HpFailed store_error

definition hp_answer :: "('a \<Rightarrow> heap_answer) \<Rightarrow> (store_error + 'a) \<times> 's \<Rightarrow> heap_answer \<times> 's" where
  "hp_answer f = map_prod (case_sum HpFailed f) (\<lambda>s. s)"

fun hp_ask :: "(row \<Rightarrow> ('s, rowId) eff) \<Rightarrow> (rowId \<Rightarrow> ('s, row option) eff) \<Rightarrow> (rowId \<Rightarrow> ('s, bool) eff) \<Rightarrow>
    (rowId \<Rightarrow> row \<Rightarrow> ('s, bool) eff) \<Rightarrow> heap_op \<Rightarrow> 's \<Rightarrow> heap_answer \<times> 's" where
  "hp_ask ins get del upd (HpInsert row) s = hp_answer HpRid (ins row s)"
| "hp_ask ins get del upd (HpGet rid) s = hp_answer HpRow (get rid s)"
| "hp_ask ins get del upd (HpDelete rid) s = hp_answer HpBool (del rid s)"
| "hp_ask ins get del upd (HpUpdate rid row) s = hp_answer HpBool (upd rid row s)"

fun hp_run :: "(heap_op \<Rightarrow> 's \<Rightarrow> heap_answer \<times> 's) \<Rightarrow> heap_op list \<Rightarrow> 's \<Rightarrow> heap_answer list \<times> 's" where
  "hp_run call [] s = ([], s)"
| "hp_run call (op # ops) s = (case call op s of (a, s1) \<Rightarrow> (case hp_run call ops s1 of (as, s2) \<Rightarrow> (a # as, s2)))"

text \<open>
  What the answers should be. Every new row gets the next slot; an update is a deletion and an
  insertion, so the row moves to an identifier that the caller is not told.
\<close>

fun hp_spec :: "page_id \<Rightarrow> heap_op \<Rightarrow> row_map \<Rightarrow> heap_answer \<times> row_map" where
  "hp_spec first (HpInsert row) (m, c) =
    (let rid = \<lparr>rid_page = first, rid_slot = c\<rparr> in (HpRid rid, (m(rid \<mapsto> row), Suc c)))"
| "hp_spec first (HpGet rid) (m, c) = (HpRow (m rid), (m, c))"
| "hp_spec first (HpDelete rid) (m, c) = (HpBool (m rid \<noteq> None), (m(rid := None), c))"
| "hp_spec first (HpUpdate rid row) (m, c) =
    (if m rid = None then (HpBool False, (m, c))
     else (HpBool True, ((m(rid := None))(\<lparr>rid_page = first, rid_slot = c\<rparr> \<mapsto> row), Suc c)))"

text \<open>Only identifiers of the heap's page are used, and the rows can be written.\<close>

fun hp_ok :: "page_id \<Rightarrow> (row \<Rightarrow> bool) \<Rightarrow> heap_op \<Rightarrow> bool" where
  "hp_ok first good (HpInsert row) = good row"
| "hp_ok first good (HpGet rid) = (rid_page rid = first)"
| "hp_ok first good (HpDelete rid) = (rid_page rid = first)"
| "hp_ok first good (HpUpdate rid row) = (rid_page rid = first \<and> good row)"

fun hp_cost :: "(row \<Rightarrow> nat) \<Rightarrow> heap_op \<Rightarrow> nat" where
  "hp_cost cost (HpInsert row) = cost row"
| "hp_cost cost (HpUpdate rid row) = cost row"
| "hp_cost cost _ = 0"

context row_store
begin

definition update :: "rowId \<Rightarrow> row \<Rightarrow> ('s, bool) eff" where
  "update rid row = eff_bind (del rid) (\<lambda>ok. if ok then eff_bind (ins row) (\<lambda>_. eff_return True) else eff_return False)"

lemma update_ok:
  assumes "holds (n + cost row) s (m, c)" "rid_page rid = first" "good row"
  shows "\<exists>s'. update rid row s = (Inr (m rid \<noteq> None), s') \<and>
    holds n s' (if m rid = None then (m, c) else ((m(rid := None))(\<lparr>rid_page = first, rid_slot = c\<rparr> \<mapsto> row), Suc c))"
proof -
  obtain s1 where s1: "del rid s = (Inr (m rid \<noteq> None), s1)" "holds (n + cost row) s1 (m(rid := None), c)"
    using del_ok [OF assms(1,2)] by blast
  show ?thesis
  proof (cases "m rid = None")
    case True
    then have "m(rid := None) = m" by auto
    moreover have "update rid row s = (Inr False, s1)" using s1(1) True by (simp add: update_def eff_bind_def)
    ultimately show ?thesis using holds_less [OF s1(2)] True by simp
  next
    case False
    from ins_ok [OF s1(2) assms(3)] obtain s2 where "ins row s1 = (Inr \<lparr>rid_page = first, rid_slot = c\<rparr>, s2)"
      "holds n s2 ((m(rid := None))(\<lparr>rid_page = first, rid_slot = c\<rparr> \<mapsto> row), Suc c)" by blast
    moreover from this have "update rid row s = (Inr True, s2)" using s1(1) False by (simp add: update_def eff_bind_def)
    ultimately show ?thesis using False by auto
  qed
qed

lemma ask_spec:
  assumes "holds (n + hp_cost cost op) s (m, c)" "hp_ok first good op"
  shows "\<exists>s'. hp_ask ins get del update op s = (fst (hp_spec first op (m, c)), s') \<and> holds n s' (snd (hp_spec first op (m, c)))"
proof (cases op)
  case (HpInsert row)
  then show ?thesis using ins_ok [of n row s m c] assms by (auto simp: hp_answer_def Let_def)
next
  case (HpGet rid)
  then show ?thesis using get_ok [of n s m c rid] assms by (auto simp: hp_answer_def Let_def)
next
  case (HpDelete rid)
  then show ?thesis using del_ok [of n s m c rid] assms by (auto simp: hp_answer_def Let_def)
next
  case (HpUpdate rid row)
  then show ?thesis using update_ok [of n row s m c rid] assms by (auto simp: hp_answer_def split: if_splits)
qed

lemma run_spec:
  assumes "holds (sum_list (map (hp_cost cost) ops)) s mc" "list_all (hp_ok first good) ops"
  shows "\<exists>s'. hp_run (hp_ask ins get del update) ops s = (fst (hp_run (hp_spec first) ops mc), s') \<and>
    holds 0 s' (snd (hp_run (hp_spec first) ops mc))"
  using assms
proof (induction ops arbitrary: s mc)
  case Nil
  then show ?case by simp
next
  case (Cons op ops)
  obtain m c where mc: "mc = (m, c)" by (cases mc)
  have "holds (sum_list (map (hp_cost cost) ops) + hp_cost cost op) s (m, c)" using Cons.prems(1) mc by (simp add: add.commute)
  from ask_spec [OF this] Cons.prems(2) mc obtain s1 where s1:
    "hp_ask ins get del update op s = (fst (hp_spec first op mc), s1)"
    "holds (sum_list (map (hp_cost cost) ops)) s1 (snd (hp_spec first op mc))" by auto
  from Cons.IH [OF s1(2)] Cons.prems(2) obtain s2 where
    "hp_run (hp_ask ins get del update) ops s1 = (fst (hp_run (hp_spec first) ops (snd (hp_spec first op mc))), s2)"
    "holds 0 s2 (snd (hp_run (hp_spec first) ops (snd (hp_spec first op mc))))" by auto
  then show ?case using s1(1) by (simp add: split_beta)
qed

end

section \<open>The slotted page\<close>

definition row_cost :: "row_ord \<Rightarrow> row \<Rightarrow> nat" where
  "row_cost ord row = SLOT_SIZE + length (serializeRowData ord row)"

definition heap_holds :: "page_id \<Rightarrow> nat \<Rightarrow> pool \<Rightarrow> row_map \<Rightarrow> bool" where
  "heap_holds first n bp mc \<longleftrightarrow> pool_idle bp \<and> (\<exists>data. bp_view bp first = Some data \<and> page_wf data \<and> pg_id data = first \<and>
     heap_slotCount data = snd mc \<and> dir_end data + n \<le> rows_start data \<and>
     (\<forall>rid. fst mc rid = (if rid_page rid = first then row_at (rid_slot rid) data else None)))"

lemma heap_holdsE:
  assumes "heap_holds first n bp (m, c)"
  obtains data where "pool_idle bp" "bp_view bp first = Some data" "page_wf data" "pg_id data = first"
    "heap_slotCount data = c" "dir_end data + n \<le> rows_start data"
    "\<forall>rid. m rid = (if rid_page rid = first then row_at (rid_slot rid) data else None)"
  using assms by (auto simp: heap_holds_def)

lemma heap_holds_view: "heap_holds first n bp (m, c) \<Longrightarrow> rid_page rid = first \<Longrightarrow> heap_view bp rid = m rid"
  by (auto simp: heap_holds_def heap_view_def)

lemma heap_holds_less: "heap_holds first n bp mc \<Longrightarrow> k \<le> n \<Longrightarrow> heap_holds first k bp mc"
  by (auto simp: heap_holds_def)

abbreviation heap_ask :: "row_ord \<Rightarrow> string \<Rightarrow> page_id \<Rightarrow> heap_op \<Rightarrow> pool \<Rightarrow> heap_answer \<times> pool" where
  "heap_ask ord pad first \<equiv> hp_ask (\<lambda>row. heap_insertRow ord pad row first) heap_getRow heap_deleteRow
     (\<lambda>rid row. heap_updateRow ord pad rid row first)"

locale written_rows =
  fixes ord :: row_ord and pad :: string and first :: page_id
  assumes ord: "row_order ord" and pad: "length pad = 1"
begin

lemma heap_ins_ok:
  assumes "heap_holds first (n + row_cost ord row) bp (m, c)" "row_safe row"
  shows "\<exists>bp'. heap_insertRow ord pad row first bp = (Inr \<lparr>rid_page = first, rid_slot = c\<rparr>, bp') \<and>
    heap_holds first n bp' (m(\<lparr>rid_page = first, rid_slot = c\<rparr> \<mapsto> row), Suc c)"
proof -
  from assms(1) obtain data where d: "pool_idle bp" "bp_view bp first = Some data" "page_wf data" "pg_id data = first"
    "heap_slotCount data = c" "dir_end data + (n + row_cost ord row) \<le> rows_start data"
    "\<forall>rid. m rid = (if rid_page rid = first then row_at (rid_slot rid) data else None)" by (rule heap_holdsE)
  let ?str = "serializeRowData ord row"
  let ?new = "with_row pad ?str data"
  have room: "page_room_for ?str data" using d(6) by (simp add: page_room_for_def row_cost_def)
  note new = with_row_ok [OF d(3) room pad]
  obtain bp' where b: "heap_insertRow ord pad row first bp = (Inr \<lparr>rid_page = first, rid_slot = c\<rparr>, bp')" "pool_idle bp'"
    "bp_view bp' = (bp_view bp)(first \<mapsto> ?new)" using heap_insertRow_ok [OF d(1-4) pad room] d(5) by blast
  have row: "deserializeRowData ?str = row"
    using deserialize_serialize [OF ord assms(2)] by (simp add: row_codecs_agree)
  have "(m(\<lparr>rid_page = first, rid_slot = c\<rparr> \<mapsto> row)) rid = (if rid_page rid = first then row_at (rid_slot rid) ?new else None)" for rid
  proof (cases "rid_page rid = first")
    case True
    then have eq: "rid = \<lparr>rid_page = first, rid_slot = c\<rparr> \<longleftrightarrow> rid_slot rid = c" by (cases rid) simp
    have "row_at (rid_slot rid) ?new = row_at (rid_slot rid) data" if "c < rid_slot rid"
      using that new(2) d(5) by (simp add: row_at_def)
    then show ?thesis using True eq new(4,5) row d(5,7) linorder_less_linear [of "rid_slot rid" c] by auto
  qed (use d(7) in auto)
  moreover have "dir_end ?new + n \<le> rows_start ?new"
    using d(5,6) new(2,6) by (simp add: dir_end_def row_cost_def)
  ultimately have "heap_holds first n bp' (m(\<lparr>rid_page = first, rid_slot = c\<rparr> \<mapsto> row), Suc c)"
    using b(2,3) new(1-3) d(4,5) by (simp add: heap_holds_def)
  then show ?thesis using b(1) by blast
qed

sublocale row_store first "heap_holds first" "row_cost ord" row_safe "\<lambda>row. heap_insertRow ord pad row first" heap_getRow heap_deleteRow
proof (unfold_locales, goal_cases)
  case (1 n row s m c)
  then show ?case by (rule heap_ins_ok)
next
  case (2 n s m c rid)
  from 2(1) obtain data where d: "pool_idle s" "bp_view s first = Some data" "page_wf data" by (rule heap_holdsE)
  then obtain s' where s': "heap_getRow rid s = (Inr (heap_view s rid), s')" "pool_idle s'" "bp_view s' = bp_view s"
    using heap_getRow_ok [of s rid data] 2(2) by auto
  then show ?case using 2 heap_holds_view [OF 2] by (auto simp: heap_holds_def)
next
  case (3 n s m c rid)
  from 3(1) obtain data where d: "pool_idle s" "bp_view s first = Some data" "page_wf data" "pg_id data = first"
    "heap_slotCount data = c" "dir_end data + n \<le> rows_start data"
    "\<forall>rid. m rid = (if rid_page rid = first then row_at (rid_slot rid) data else None)" by (rule heap_holdsE) blast
  from heap_deleteRow_ok [OF d(1), of rid data] d(2,3) 3(2) obtain s' data' where
    s': "heap_deleteRow rid s = (Inr (heap_view s rid \<noteq> None), s')" "pool_idle s'" "bp_view s' = (bp_view s)(first \<mapsto> data')"
    "page_wf data'" "pg_id data' = pg_id data" "heap_slotCount data' = heap_slotCount data" "rows_start data \<le> rows_start data'"
    "\<forall>j. row_at j data' = (if j = rid_slot rid then None else row_at j data)" by auto
  have "(m(rid := None)) r = (if rid_page r = first then row_at (rid_slot r) data' else None)" for r
    using s'(8) d(7) 3(2) by (cases r; cases rid) auto
  then have "heap_holds first n s' (m(rid := None), c)"
    using s' d(4-6) by (auto simp: heap_holds_def dir_end_def)
  then show ?case using s'(1) heap_holds_view [OF 3] by auto
next
  case (4 n k s m c)
  then show ?case by (rule heap_holds_less) simp
qed

lemma heap_run_spec:
  assumes "heap_holds first (sum_list (map (hp_cost (row_cost ord)) ops)) bp mc" "list_all (hp_ok first row_safe) ops"
  shows "\<exists>bp'. hp_run (heap_ask ord pad first) ops bp = (fst (hp_run (hp_spec first) ops mc), bp')"
proof -
  have "update = (\<lambda>rid row. heap_updateRow ord pad rid row first)"
    by (simp add: fun_eq_iff update_def heap_updateRow_def)
  with run_spec [OF assms] show ?thesis by auto
qed

end

interpretation sorted_heap: written_rows sorted_ord "[CHR 0x00]" first for first
  by unfold_locales (simp_all add: sorted_ord_order)

section \<open>A heap from its creation\<close>

lemma fresh_holds:
  assumes "pool_idle bp" "dk_pageCount (bp_disk bp) \<noteq> INVALID_PAGE_ID"
  shows "\<exists>bp1. heap_create bp = (Inr (dk_pageCount (bp_disk bp)), bp1) \<and>
    heap_holds (dk_pageCount (bp_disk bp)) 4082 bp1 (Map.empty, 0)"
proof -
  let ?first = "dk_pageCount (bp_disk bp)"
  obtain bp1 where b: "pool_new bp = (Inr ?first, bp1)" "pool_idle bp1"
    "bp_view bp1 = (bp_view bp)(?first \<mapsto> page_bytes ?first)" using pool_new_ok [OF assms] by blast
  have "row_at i (page_bytes ?first) = None" for i by (simp add: row_at_def fresh_page)
  then have "heap_holds ?first 4082 bp1 (Map.empty, 0)"
    using b(2,3) fresh_page by (simp add: heap_holds_def page_bytes_header)
  then show ?thesis using b(1) by (simp add: heap_create_def)
qed

text \<open>
  C5. A new table heap is a map from row identifiers to rows, as long as the rows written can be
  read back (no column name is empty or has \<open>=\<close> or \<open>;\<close> in it, and no value has \<open>;\<close>) and fit in its one
  page, each with six bytes for its slot: any sequence of insertions, and of reads, deletions and
  updates of identifiers of the page, is answered by the map, whatever the pool evicts in between and
  whatever order the columns are serialised in. New rows get the slots in turn. An update deletes the row and
  inserts the new one under the next identifier, which the caller is not told.
\<close>

theorem heap_answers:
  assumes "pool_idle bp" "dk_pageCount (bp_disk bp) = first" "first \<noteq> INVALID_PAGE_ID"
    and "row_order ord" "length pad = 1"
    and "list_all (hp_ok first row_safe) ops" "sum_list (map (hp_cost (row_cost ord)) ops) \<le> 4082"
  shows "\<exists>bp1 bp2. heap_create bp = (Inr first, bp1) \<and>
    hp_run (heap_ask ord pad first) ops bp1 = (fst (hp_run (hp_spec first) ops (Map.empty, 0)), bp2)"
proof -
  have w: "written_rows ord pad" using assms(4,5) by (rule written_rows.intro)
  obtain bp1 where b: "heap_create bp = (Inr first, bp1)" "heap_holds first 4082 bp1 (Map.empty, 0)"
    using fresh_holds [OF assms(1)] assms(2,3) by blast
  let ?n = "sum_list (map (hp_cost (row_cost ord)) ops)"
  have "heap_holds first ?n bp1 (Map.empty, 0)" using heap_holds_less [OF b(2)] assms(7) by simp
  from written_rows.heap_run_spec [OF w this assms(6)] b(1) show ?thesis by blast
qed

theorem heap_answers_witness:
  "\<exists>d bp1 bp2. DiskManager_open None True = Inr d \<and> heap_create (BufferPool_init 1 d) = (Inr 0, bp1) \<and>
    hp_run (heap_ask sorted_ord [CHR 0x00] 0)
      [HpInsert (fmap_of_list [(''id'', ''7'')]), HpUpdate \<lparr>rid_page = 0, rid_slot = 0\<rparr> (fmap_of_list [(''id'', ''8'')]),
       HpGet \<lparr>rid_page = 0, rid_slot = 0\<rparr>, HpGet \<lparr>rid_page = 0, rid_slot = 1\<rparr>,
       HpDelete \<lparr>rid_page = 0, rid_slot = 1\<rparr>, HpGet \<lparr>rid_page = 0, rid_slot = 1\<rparr>] bp1 =
      ([HpRid \<lparr>rid_page = 0, rid_slot = 0\<rparr>, HpBool True, HpRow None, HpRow (Some (fmap_of_list [(''id'', ''8'')])),
        HpBool True, HpRow None], bp2)"
proof -
  let ?d = "\<lparr>dk_file = \<lparr>fs_bytes = [], fs_pos = 0, fs_eof = False, fs_fail = False\<rparr>, dk_pageCount = 0\<rparr>"
  let ?ops = "[HpInsert (fmap_of_list [(''id'', ''7'')]), HpUpdate \<lparr>rid_page = 0, rid_slot = 0\<rparr> (fmap_of_list [(''id'', ''8'')]),
       HpGet \<lparr>rid_page = 0, rid_slot = 0\<rparr>, HpGet \<lparr>rid_page = 0, rid_slot = 1\<rparr>,
       HpDelete \<lparr>rid_page = 0, rid_slot = 1\<rparr>, HpGet \<lparr>rid_page = 0, rid_slot = 1\<rparr>]"
  have open1: "DiskManager_open None True = Inr ?d" by (simp add: DiskManager_open_def fs_open_def fs_seekg_def)
  have "disk_ok ?d" by (simp add: disk_ok_def fs_good_def)
  then have i: "pool_idle (BufferPool_init 1 ?d)" using pool_init_idle [of ?d 1] by simp
  have c: "dk_pageCount (bp_disk (BufferPool_init 1 ?d)) = 0" by (simp add: BufferPool_init_def)
  have cost: "row_cost sorted_ord (fmap_of_list [(''id'', v)]) = 10 + length v" for v
    unfolding row_cost_def one_field_text by simp
  have safe: "row_safe (fmap_of_list [(''id'', ''7'')])" "row_safe (fmap_of_list [(''id'', ''8'')])"
    by (auto simp: row_safe_def fmpred_iff field_safe_def split: if_splits)
  have "list_all (hp_ok 0 row_safe) ?ops" using safe by simp
  moreover have "sum_list (map (hp_cost (row_cost sorted_ord)) ?ops) \<le> 4082" using cost by simp
  ultimately show ?thesis
    using heap_answers [OF i c, of sorted_ord "[CHR 0x00]" ?ops] open1 sorted_ord_order by (auto simp: Let_def)
qed

end
