(* ===== verification/Pool_Props.thy ===== *)
theory Pool_Props
  imports Page_Store
begin

text \<open>
  What holds of the buffer pool whatever its clients do, which page it evicts, and what a
  flush makes permanent.
\<close>

section \<open>Any sequence of calls\<close>

text \<open>No call is left out and none needs to succeed; the file has fewer pages than numbers.\<close>

inductive pool_reach :: "nat \<Rightarrow> disk \<Rightarrow> pool \<Rightarrow> bool" for poolSize d where
  pool_start: "pool_reach poolSize d (BufferPool_init poolSize d)"
| pool_fetched: "pool_reach poolSize d bp \<Longrightarrow> pool_reach poolSize d (snd (fetchPage pid bp))"
| pool_created: "pool_reach poolSize d bp \<Longrightarrow> dk_pageCount (bp_disk bp) \<noteq> INVALID_PAGE_ID \<Longrightarrow>
    pool_reach poolSize d (snd (newPage bp))"
| pool_unpinned: "pool_reach poolSize d bp \<Longrightarrow> pool_reach poolSize d (unpin pid dirty bp)"
| pool_flushed: "pool_reach poolSize d bp \<Longrightarrow> pool_reach poolSize d (snd (flushPage pid bp))"
| pool_flushed_all: "pool_reach poolSize d bp \<Longrightarrow> pool_reach poolSize d (snd (flushAll order bp))"
| pool_poked: "pool_reach poolSize d bp \<Longrightarrow> pool_reach poolSize d (poke pid data bp)"

lemma make_room_lists:
  assumes "make_room bp = (r, bp')" "pool_lists bp"
  shows "pool_lists bp' \<and> bp_size bp' = bp_size bp \<and> same_pages bp bp' \<and> (r = Inr () \<longrightarrow> pagesInPool bp' < bp_size bp')"
proof (cases "bp_size bp \<le> pagesInPool bp")
  case True
  obtain r1 bp1 where e: "evict bp = (r1, bp1)" by fastforce
  note l = evict_walk_lists [OF e [unfolded evict_def] assms(2), simplified]
  have "pagesInPool bp \<le> bp_size bp" using assms(2) by (simp add: pool_lists_def)
  then show ?thesis using assms(1) True e l
    by (cases r1) (auto simp: make_room_def split: if_splits)
next
  case False
  then show ?thesis using assms by (auto simp: make_room_def)
qed

text \<open>The pages of the pool are pages of the file.\<close>

definition pool_in_file :: "pool \<Rightarrow> bool" where
  "pool_in_file bp \<longleftrightarrow> (\<forall>pid. fmlookup (bp_pages bp) pid \<noteq> None \<longrightarrow> pid < dk_pageCount (bp_disk bp))"

definition pool_sound :: "pool \<Rightarrow> bool" where
  "pool_sound bp \<longleftrightarrow> pool_lists bp \<and> pool_in_file bp"

lemma readPage_count: "readPage pid d = (r, d') \<Longrightarrow>
    dk_pageCount d' = dk_pageCount d \<and> (r = Inr data \<longrightarrow> pid < dk_pageCount d)"
  by (auto simp: readPage_def not_le split: if_splits prod.splits)

lemma writePage_count: "writePage pid data d = (r, d') \<Longrightarrow> pid < dk_pageCount d \<Longrightarrow> dk_pageCount d' = dk_pageCount d"
  by (auto simp: writePage_def Let_def split: if_splits)

lemma allocatePage_count: "allocatePage d = (r, d') \<Longrightarrow>
    dk_pageCount d' = (case r of Inl _ \<Rightarrow> dk_pageCount d | Inr pid \<Rightarrow> pid + 1) \<and> (r = Inr pid \<longrightarrow> pid = dk_pageCount d)"
  by (auto simp: allocatePage_def writePage_def eff_bind_def Let_def split: if_splits)

lemma evict_walk_count:
  assumes "evict_walk passed rest bp = (r, bp')" "pool_in_file bp"
  shows "dk_pageCount (bp_disk bp') = dk_pageCount (bp_disk bp)"
  using assms(1)
proof (induction rest arbitrary: passed)
  case (Cons c rest)
  show ?case
  proof (cases "fmlookup (bp_pages bp) c")
    case (Some page)
    then have c: "c < dk_pageCount (bp_disk bp)" using assms(2) by (simp add: pool_in_file_def)
    obtain r1 d1 where w: "writePage c (pg_data page) (bp_disk bp) = (r1, d1)" by fastforce
    show ?thesis using Cons Some writePage_count [OF w c] w
      by (cases r1) (auto simp: on_disk_def split: if_splits)
  qed (use Cons in auto)
qed auto

lemma pool_sound_pages:
  "pool_sound bp \<Longrightarrow> same_pages bp bp' \<Longrightarrow> pool_lists bp' \<Longrightarrow> dk_pageCount (bp_disk bp') = dk_pageCount (bp_disk bp) \<Longrightarrow>
   pool_sound bp'"
  unfolding pool_sound_def pool_in_file_def same_pages_def by metis

lemma make_room_sound:
  assumes "make_room bp = (r, bp')" "pool_sound bp"
  shows "pool_sound bp' \<and> bp_size bp' = bp_size bp \<and> dk_pageCount (bp_disk bp') = dk_pageCount (bp_disk bp) \<and>
    same_pages bp bp' \<and> (r = Inr () \<longrightarrow> pagesInPool bp' < bp_size bp')"
proof -
  have l: "pool_lists bp' \<and> bp_size bp' = bp_size bp \<and> same_pages bp bp' \<and> (r = Inr () \<longrightarrow> pagesInPool bp' < bp_size bp')"
    by (rule make_room_lists [OF assms(1)]) (use assms(2) in \<open>simp add: pool_sound_def\<close>)
  obtain r1 bp1 where e: "evict bp = (r1, bp1)" by fastforce
  have "dk_pageCount (bp_disk bp1) = dk_pageCount (bp_disk bp)"
    using evict_walk_count [OF e [unfolded evict_def]] assms(2) by (simp add: pool_sound_def)
  then have "dk_pageCount (bp_disk bp') = dk_pageCount (bp_disk bp)"
    using assms(1) e by (cases r1) (auto simp: make_room_def split: if_splits)
  then show ?thesis using l pool_sound_pages [OF assms(2), of bp'] by blast
qed

lemma pool_sound_upd:
  "pool_sound bp \<Longrightarrow> fmlookup (bp_pages bp) pid = Some page \<Longrightarrow> pool_sound (bp\<lparr>bp_pages := fmupd pid page' (bp_pages bp)\<rparr>)"
  by (auto simp: pool_sound_def pool_in_file_def pool_lists_upd)

lemma pool_sound_add:
  "pool_sound bp \<Longrightarrow> fmlookup (bp_pages bp) pid = None \<Longrightarrow> pagesInPool bp < bp_size bp \<Longrightarrow>
   pid < dk_pageCount (bp_disk bp) \<Longrightarrow> pool_sound (add_page pid page bp)"
  by (auto simp: pool_sound_def pool_in_file_def pool_lists_add)

lemma pool_sound_disk:
  "pool_sound bp \<Longrightarrow> dk_pageCount (bp_disk bp) \<le> dk_pageCount d \<Longrightarrow> pool_sound (bp\<lparr>bp_disk := d\<rparr>)"
  using pool_lists_cong [of "bp\<lparr>bp_disk := d\<rparr>" bp] by (auto simp: pool_sound_def pool_in_file_def)

lemma fetchPage_sound [inv_intros]:
  assumes "pool_sound bp"
  shows "pool_sound (snd (fetchPage pid bp)) \<and> bp_size (snd (fetchPage pid bp)) = bp_size bp"
proof (cases "fmlookup (bp_pages bp) pid")
  case (Some page)
  have "pool_sound (touchPage pid bp)" using pool_lists_touch [OF _ Some] assms by (simp add: pool_sound_def pool_in_file_def)
  then show ?thesis using pool_sound_upd [of "touchPage pid bp" pid page] Some by (simp add: fetchPage_def Let_def)
next
  case None
  obtain r bp1 where m: "make_room bp = (r, bp1)" by fastforce
  note l = make_room_sound [OF m assms]
  obtain r2 d2 where d: "readPage pid (bp_disk bp1) = (r2, d2)" by fastforce
  note c = readPage_count [OF d]
  have s: "pool_sound (bp1\<lparr>bp_disk := d2\<rparr>)" using l c by (intro pool_sound_disk) auto
  have "fmlookup (bp_pages bp1) pid = None" using same_pages_absent [OF _ None] l by blast
  then have "pool_sound (add_page pid page (bp1\<lparr>bp_disk := d2\<rparr>))" if "r = Inr ()" "r2 = Inr data" for page data
    using that l c [of data] by (intro pool_sound_add [OF s]) simp_all
  then show ?thesis using None m d l s by (cases r; cases r2) (simp_all add: fetchPage_def on_disk_def)
qed

lemma newPage_sound [inv_intros]:
  assumes "pool_sound bp" "dk_pageCount (bp_disk bp) \<noteq> INVALID_PAGE_ID"
  shows "pool_sound (snd (newPage bp)) \<and> bp_size (snd (newPage bp)) = bp_size bp"
proof -
  obtain r bp1 where m: "make_room bp = (r, bp1)" by fastforce
  note l = make_room_sound [OF m assms(1)]
  obtain r2 d2 where d: "allocatePage (bp_disk bp1) = (r2, d2)" by fastforce
  have less: "dk_pageCount (bp_disk bp1) < dk_pageCount (bp_disk bp1) + 1"
    using unat_next_page [OF assms(2)] l by (simp add: word_less_nat_alt)
  show ?thesis
  proof (cases r2)
    case (Inl e)
    then have "pool_sound (bp1\<lparr>bp_disk := d2\<rparr>)" using l allocatePage_count [OF d] by (intro pool_sound_disk) auto
    then show ?thesis using m d l Inl by (cases r) (simp_all add: newPage_def on_disk_def)
  next
    case (Inr pid)
    then have pid: "pid = dk_pageCount (bp_disk bp1)" "dk_pageCount d2 = pid + 1"
      using allocatePage_count [OF d, of pid] by auto
    have s: "pool_sound (bp1\<lparr>bp_disk := d2\<rparr>)" using l pid less by (intro pool_sound_disk) auto
    have "fmlookup (bp_pages bp1) pid = None"
    proof (rule ccontr)
      assume "fmlookup (bp_pages bp1) pid \<noteq> None"
      then have "pid < dk_pageCount (bp_disk bp1)"
        using conjunct1 [OF l] unfolding pool_sound_def pool_in_file_def by blast
      then show False by (simp add: pid(1))
    qed
    then have "pool_sound (add_page pid page (bp1\<lparr>bp_disk := d2\<rparr>))" if "r = Inr ()" for page
      using that l pid less by (intro pool_sound_add [OF s]) simp_all
    then show ?thesis using m d l Inr by (cases r) (simp_all add: newPage_def on_disk_def)
  qed
qed

lemma flushPage_sound [inv_intros]:
  assumes "pool_sound bp"
  shows "pool_sound (snd (flushPage pid bp)) \<and> bp_size (snd (flushPage pid bp)) = bp_size bp"
proof (cases "fmlookup (bp_pages bp) pid")
  case (Some page)
  obtain r d where w: "writePage pid (pg_data page) (bp_disk bp) = (r, d)" by fastforce
  have "pid < dk_pageCount (bp_disk bp)" using assms Some by (simp add: pool_sound_def pool_in_file_def)
  then have s: "pool_sound (bp\<lparr>bp_disk := d\<rparr>)" using writePage_count [OF w] assms by (intro pool_sound_disk) auto
  then show ?thesis using Some assms w pool_sound_upd [OF s, of pid page]
    by (cases r) (auto simp: flushPage_def on_disk_def)
qed (simp add: flushPage_def assms)

lemma flushAll_sound [inv_intros]:
  "pool_sound bp \<Longrightarrow> pool_sound (snd (flushAll order bp)) \<and> bp_size (snd (flushAll order bp)) = bp_size bp"
proof (induction order arbitrary: bp)
  case (Cons pid order)
  obtain r bp1 where f: "flushPage pid bp = (r, bp1)" by fastforce
  then show ?case using flushPage_sound [OF Cons.prems, of pid] Cons.IH [of bp1] by (cases r) simp_all
qed simp

lemma unpin_poke_sound [inv_intros]:
  "pool_sound bp \<Longrightarrow> pool_sound (unpin pid dirty bp) \<and> bp_size (unpin pid dirty bp) = bp_size bp"
  "pool_sound bp \<Longrightarrow> pool_sound (poke pid data bp) \<and> bp_size (poke pid data bp) = bp_size bp"
  by (auto simp: unpin_def poke_def Let_def pool_sound_upd split: option.split)

lemma pool_reach_sound: "pool_reach poolSize d bp \<Longrightarrow> pool_sound bp \<and> bp_size bp = poolSize"
proof (induction rule: pool_reach.induct)
  case pool_start
  show ?case by (simp add: pool_sound_def pool_lists_def pool_in_file_def pagesInPool_def BufferPool_init_def fcard.rep_eq)
qed (simp_all add: inv_intros)

text \<open>
  C36. Whatever sequence of calls the pool gets, with or without errors from the file: it never
  holds more pages than its size, its list has each page in memory exactly once and no other
  page, there is an iterator for each of them, and every page in memory is a page of the file.
\<close>

theorem pool_bounded:
  assumes "pool_reach poolSize d bp"
  shows "pagesInPool bp \<le> poolSize \<and> distinct (bp_lru bp) \<and> set (bp_lru bp) = fset (fmdom (bp_pages bp)) \<and>
    bp_iters bp = fmdom (bp_pages bp) \<and> set (bp_lru bp) \<subseteq> {pid. pid < dk_pageCount (bp_disk bp)}"
proof -
  from pool_reach_sound [OF assms] have l: "pool_lists bp" "pool_in_file bp" "bp_size bp = poolSize"
    by (simp_all add: pool_sound_def)
  then have "set (bp_lru bp) \<subseteq> {pid. pid < dk_pageCount (bp_disk bp)}"
    by (auto simp: pool_lists_def pool_in_file_def dest: fmdomE)
  then show ?thesis using l by (simp add: pool_lists_def)
qed

theorem pool_bounded_witness:
  "\<exists>d bp. DiskManager_open None True = Inr d \<and> bp = snd (newPage (unpin 0 True (snd (newPage (BufferPool_init 1 d))))) \<and>
    pagesInPool bp \<le> 1 \<and> distinct (bp_lru bp) \<and> set (bp_lru bp) = fset (fmdom (bp_pages bp)) \<and>
    bp_iters bp = fmdom (bp_pages bp) \<and> set (bp_lru bp) \<subseteq> {pid. pid < dk_pageCount (bp_disk bp)}"
proof -
  let ?d = "\<lparr>dk_file = \<lparr>fs_bytes = [], fs_pos = 0, fs_eof = False, fs_fail = False\<rparr>, dk_pageCount = 0\<rparr>"
  let ?bp1 = "snd (newPage (BufferPool_init 1 ?d))"
  have o: "DiskManager_open None True = Inr ?d" by (simp add: DiskManager_open_def fs_open_def fs_seekg_def)
  have "disk_ok ?d" by (simp add: disk_ok_def fs_good_def)
  then have i: "pool_ok {} (BufferPool_init 1 ?d)" "has_room (BufferPool_init 1 ?d)"
    using pool_init_idle [of ?d 1] pool_idle_room [of "BufferPool_init 1 ?d"] by (simp_all add: pool_idle_def)
  have c: "dk_pageCount (bp_disk (BufferPool_init 1 ?d)) = 0" by (simp add: BufferPool_init_def)
  have "dk_pageCount (bp_disk ?bp1) = 1" using newPage_ok [OF i] c by auto
  then have "dk_pageCount (bp_disk (unpin 0 True ?bp1)) = 1" by (simp add: unpin_def Let_def split: option.split)
  then have "pool_reach 1 ?d (snd (newPage (unpin 0 True ?bp1)))"
    using c by (intro pool_created pool_unpinned pool_start) simp_all
  from pool_bounded [OF this] o show ?thesis by blast
qed

section \<open>Eviction\<close>

lemma evict_walk_pinned:
  "\<forall>q\<in>set tail. pins q bp \<noteq> 0 \<Longrightarrow> evict_walk passed (tail @ rest) bp = evict_walk (rev tail @ passed) rest bp"
proof (induction tail arbitrary: passed)
  case (Cons q tail)
  then obtain page where "fmlookup (bp_pages bp) q = Some page" "0 < pg_pins page"
    by (auto simp: pins_def split: option.splits)
  then show ?case using Cons by simp
qed simp

text \<open>
  C37. The page evicted is the least recently used one that nobody has pinned. With the pool
  full, reading a page that is not in memory takes the place of page \<open>c\<close>, where all pages used
  less recently than \<open>c\<close> are pinned and \<open>c\<close> is not; every other page stays, in its order, and
  the page read becomes the most recently used one.
\<close>

theorem fetchPage_evicts_lru:
  assumes "pool_ok {} bp" "pagesInPool bp = bp_size bp" "bp_lru bp = front @ c # tail" "pins c bp = 0"
    and "\<forall>q\<in>set tail. pins q bp \<noteq> 0" "fmlookup (bp_pages bp) pid = None" "bp_view bp pid = Some data"
  shows "\<exists>bp'. fetchPage pid bp = (Inr (), bp') \<and> bp_lru bp' = pid # front @ tail \<and>
    fmdom (bp_pages bp') = finsert pid (fmdom (bp_pages bp) |-| {|c|}) \<and> page_data pid bp' = data"
proof -
  have "c |\<in>| fmdom (bp_pages bp)" using assms(1,3) by (auto simp: pool_ok_def pool_lists_def)
  then obtain page where page: "fmlookup (bp_pages bp) c = Some page" by blast
  then have p0: "pg_pins page = 0" using assms(4) by (simp add: pins_def)
  have "evict bp = evict_walk tail (c # rev front) bp"
    using evict_walk_pinned [of "rev tail" bp "[]" "c # rev front"] assms(3,5) by (simp add: evict_def)
  moreover obtain ok bp1 where e: "evict bp = (Inr ok, bp1)" "pool_ok {} bp1" "bp_view bp1 = bp_view bp"
    using evict_walk_ok [OF assms(1), of "rev (bp_lru bp)" "[]"] by (auto simp: evict_def)
  ultimately have walk: "evict_walk tail (c # rev front) bp = (Inr ok, bp1)" by simp
  obtain r m where "(if pg_dirty page then on_disk (writePage c (pg_data page)) else eff_return ()) bp = (r, m)" by fastforce
  with walk page p0 have ok: "ok" "bp_lru bp1 = front @ tail" "bp_pages bp1 = fmdrop c (bp_pages bp)"
    by (cases r; auto simp: split: if_splits dest: on_disk_lists)+
  have room: "make_room bp = (Inr (), bp1)" using e(1) ok(1) assms(2) by (simp add: make_room_def)
  have "fmlookup (bp_pages bp1) pid = None" using assms(6) ok(3) by simp
  then have "disk_view (bp_disk bp1) pid = Some data" using e(3) assms(7) bp_view_def [of bp1 pid] by simp
  then obtain d where "readPage pid (bp_disk bp1) = (Inr data, d)"
    using readPage_ok [of "bp_disk bp1" pid data] e(2) by (auto simp: pool_ok_def)
  then have "fetchPage pid bp = (Inr (), add_page pid (pg_pin ((Page_init pid)\<lparr>pg_data := data\<rparr>)) (bp1\<lparr>bp_disk := d\<rparr>))"
    using assms(6) room by (simp add: fetchPage_def on_disk_def)
  then show ?thesis using ok by (simp add: add_page_def page_data_def pg_pin_def)
qed

text \<open>Two pages on disk, one of them in a pool of one page, changed and not written yet.\<close>

definition one_page_pool :: pool where
  "one_page_pool = \<lparr>bp_size = 1,
     bp_disk = \<lparr>dk_file = \<lparr>fs_bytes = replicate 8192 (CHR 0x00), fs_pos = 0, fs_eof = False, fs_fail = False\<rparr>, dk_pageCount = 2\<rparr>,
     bp_pages = fmap_of_list [(0, \<lparr>pg_data = replicate PAGE_SIZE (CHR ''A''), pg_dirty = True, pg_pins = 0\<rparr>)],
     bp_lru = [0], bp_iters = {|0|}\<rparr>"

lemma one_page_pool_ok:
  "pool_ok {} one_page_pool" "pagesInPool one_page_pool = bp_size one_page_pool" "bp_lru one_page_pool = [] @ 0 # []"
  "pins 0 one_page_pool = 0" "fmlookup (bp_pages one_page_pool) 1 = None" "fmdom (bp_pages one_page_pool) = {|0|}"
  "bp_view one_page_pool 1 = Some (replicate PAGE_SIZE (CHR 0x00))"
  by (auto simp: one_page_pool_def pool_ok_def pool_lists_def pagesInPool_def fcard.rep_eq disk_ok_def fs_good_def
      fmpred_iff page_ok_def pins_def bp_view_def disk_view_def peek_def pageOffset_def split: if_splits)

theorem fetchPage_evicts_lru_witness:
  "\<exists>bp'. fetchPage 1 one_page_pool = (Inr (), bp') \<and> bp_lru bp' = 1 # [] @ [] \<and>
    fmdom (bp_pages bp') = finsert 1 (fmdom (bp_pages one_page_pool) |-| {|0|}) \<and>
    page_data 1 bp' = replicate PAGE_SIZE (CHR 0x00)"
  by (rule fetchPage_evicts_lru [OF one_page_pool_ok(1-4) _ one_page_pool_ok(5,7)]) simp

section \<open>Flushing\<close>

definition clean :: "pool \<Rightarrow> page_id \<Rightarrow> bool" where
  "clean bp pid \<longleftrightarrow> disk_view (bp_disk bp) pid = bp_view bp pid"

lemma flushPage_ok:
  assumes "pool_ok {} bp"
  shows "\<exists>bp'. flushPage pid bp = (Inr (), bp') \<and> pool_ok {} bp' \<and> same_store bp bp' \<and>
    fmdom (bp_pages bp') = fmdom (bp_pages bp) \<and> clean bp' pid \<and> (\<forall>q. clean bp q \<longrightarrow> clean bp' q)"
proof (cases "fmlookup (bp_pages bp) pid")
  case None
  then show ?thesis using assms by (simp add: flushPage_def same_store_def clean_def bp_view_def)
next
  case (Some page)
  note p = pool_okD [OF assms Some, unfolded page_ok_def]
  have view: "bp_view bp pid = Some (pg_data page)" using Some by (simp add: bp_view_def)
  show ?thesis
  proof (cases "pg_dirty page")
    case False
    then show ?thesis using Some assms p view by (simp add: flushPage_def same_store_def clean_def)
  next
    case True
    have "disk_ok (bp_disk bp)" using assms by (simp add: pool_ok_def)
    moreover have "pid \<le> dk_pageCount (bp_disk bp)" "pid \<noteq> dk_pageCount (bp_disk bp)" using p by auto
    moreover have "pid \<noteq> INVALID_PAGE_ID" using p less_not_invalid by blast
    ultimately obtain d where d: "writePage pid (pg_data page) (bp_disk bp) = (Inr (), d)" "disk_ok d"
      "disk_view d = (disk_view (bp_disk bp))(pid \<mapsto> pg_data page)" "dk_pageCount d = dk_pageCount (bp_disk bp)"
      using writePage_ok [of "bp_disk bp" pid "pg_data page"] p by auto
    let ?bp = "bp\<lparr>bp_disk := d, bp_pages := fmupd pid (pg_setDirty False page) (bp_pages bp)\<rparr>"
    have f: "flushPage pid bp = (Inr (), ?bp)" using Some True d(1) by (simp add: flushPage_def on_disk_def)
    have v: "bp_view ?bp = bp_view bp"
      using Some d(3) by (auto simp: bp_view_def fun_eq_iff pg_setDirty_def split: option.split)
    have "pool_lists ?bp" using pool_lists_upd [OF pool_ok_lists [OF assms] Some, of "pg_setDirty False page"]
      pool_lists_cong [of ?bp "bp\<lparr>bp_pages := fmupd pid (pg_setDirty False page) (bp_pages bp)\<rparr>"] by simp
    moreover have "fmpred (page_ok {} d) (bp_pages ?bp)"
      using assms p d(3,4) by (auto simp: pool_ok_def fmpred_iff page_ok_def pg_setDirty_def)
    ultimately have "pool_ok {} ?bp" using d(2) by (simp add: pool_ok_def)
    then show ?thesis using f v d(3,4) Some view
      by (intro exI [of _ ?bp]) (auto simp: same_store_def clean_def finsert_absorb fmdomI)
  qed
qed

lemma flushAll_ok:
  assumes "pool_ok {} bp"
  shows "\<exists>bp'. flushAll order bp = (Inr (), bp') \<and> pool_ok {} bp' \<and> same_store bp bp' \<and>
    fmdom (bp_pages bp') = fmdom (bp_pages bp) \<and> (\<forall>q. q \<in> set order \<or> clean bp q \<longrightarrow> clean bp' q)"
  using assms
proof (induction order arbitrary: bp)
  case Nil
  then show ?case by (simp add: same_store_def)
next
  case (Cons pid order)
  obtain bp1 where 1: "flushPage pid bp = (Inr (), bp1)" "pool_ok {} bp1" "same_store bp bp1"
    "fmdom (bp_pages bp1) = fmdom (bp_pages bp)" "clean bp1 pid" "\<And>q. clean bp q \<Longrightarrow> clean bp1 q"
    using flushPage_ok [OF Cons.prems, of pid] by blast
  obtain bp2 where "flushAll order bp1 = (Inr (), bp2)" "pool_ok {} bp2" "same_store bp1 bp2"
    "fmdom (bp_pages bp2) = fmdom (bp_pages bp1)" "\<And>q. q \<in> set order \<or> clean bp1 q \<Longrightarrow> clean bp2 q"
    using Cons.IH [OF 1(2)] by blast
  with 1 show ?case by (intro exI [of _ bp2]) (auto simp: same_store_def)
qed

text \<open>
  C16. \<open>flushAll\<close> makes the pool's content permanent, whatever order it visits the pages in: a
  disk manager that opens the file afterwards finds exactly the pages the pool's clients saw.
\<close>

theorem flushAll_durable:
  assumes "pool_ok {} bp" "set order = fset (fmdom (bp_pages bp))"
  shows "\<exists>bp'. flushAll order bp = (Inr (), bp') \<and> bp_view bp' = bp_view bp \<and>
    (\<exists>d. DiskManager_open (Some (fs_bytes (dk_file (bp_disk bp')))) creatable = Inr d \<and> disk_view d = bp_view bp)"
proof -
  obtain bp' where f: "flushAll order bp = (Inr (), bp')" "pool_ok {} bp'" "same_store bp bp'"
    "fmdom (bp_pages bp') = fmdom (bp_pages bp)" "\<And>q. q \<in> set order \<Longrightarrow> clean bp' q"
    using flushAll_ok [OF assms(1), of order] by blast
  have "clean bp' q" for q
  proof (cases "q \<in> set order")
    case False
    then have "fmlookup (bp_pages bp') q = None" using assms(2) f(4) by (auto intro: fmdom_notD)
    then show ?thesis by (simp add: clean_def bp_view_def)
  qed (rule f(5))
  then have "disk_view (bp_disk bp') = bp_view bp" using f(3) by (simp add: clean_def same_store_def fun_eq_iff)
  moreover have "disk_ok (bp_disk bp')" using f(2) by (simp add: pool_ok_def)
  ultimately show ?thesis using f reopen_view [of "bp_disk bp'" creatable] by (auto simp: same_store_def)
qed

theorem flushAll_durable_witness:
  "\<exists>bp'. flushAll [0] one_page_pool = (Inr (), bp') \<and> bp_view bp' = bp_view one_page_pool \<and>
    (\<exists>d. DiskManager_open (Some (fs_bytes (dk_file (bp_disk bp')))) False = Inr d \<and> disk_view d = bp_view one_page_pool)"
  by (rule flushAll_durable [OF one_page_pool_ok(1)]) (simp add: one_page_pool_ok(6))

end
