(* ===== verification/Btree_Node.thy ===== *)
theory Btree_Node
  imports Disk Numeric
begin

text \<open>
  The nodes of the B-tree index (\<open>BTreeNode\<close>, include/btree.h) and the text they are stored as in
  a page (src/btree.cpp 8-44). The arrays are lists of their length. Reading uses
  \<open>std::istringstream\<close> and its \<open>operator>>\<close>: \<open>ss_rest\<close> is what is left of the text and
  \<open>ss_fail\<close> its error state. C++ prescribes that an extraction on a failed stream, or with
  nothing but white space left, sets the state and leaves its argument alone, and that a number
  without digits reads as 0 and one out of range as the nearest value, and fails.
\<close>

section \<open>Extraction from a string stream\<close>

record istr =
  ss_rest :: string
  ss_fail :: bool

definition ss_word :: "string \<Rightarrow> istr \<Rightarrow> string \<times> istr" where
  "ss_word old s =
    (let r = dropWhile isspace (ss_rest s) in
     if ss_fail s \<or> r = [] then (old, s\<lparr>ss_fail := True\<rparr>)
     else (takeWhile (\<lambda>c. \<not> isspace c) r, s\<lparr>ss_rest := dropWhile (\<lambda>c. \<not> isspace c) r\<rparr>))"

definition ss_number :: "(bool \<Rightarrow> int \<Rightarrow> int \<times> bool) \<Rightarrow> int \<Rightarrow> istr \<Rightarrow> int \<times> istr" where
  "ss_number convert old s =
    (let r = dropWhile isspace (ss_rest s) in
     if ss_fail s \<or> r = [] then (old, s\<lparr>ss_fail := True\<rparr>)
     else case split_sign r of (neg, r') \<Rightarrow>
       let ds = takeWhile isdigit r'; s' = s\<lparr>ss_rest := dropWhile isdigit r'\<rparr> in
       if ds = [] then (0, s'\<lparr>ss_fail := True\<rparr>)
       else case convert neg (digits_val ds) of (v, ok) \<Rightarrow> (v, if ok then s' else s'\<lparr>ss_fail := True\<rparr>))"

definition to_int32 :: "bool \<Rightarrow> int \<Rightarrow> int \<times> bool" where
  "to_int32 neg v = (let n = (if neg then - v else v) in
     if n < - (2 ^ 31) then (- (2 ^ 31), False) else if 2 ^ 31 - 1 < n then (2 ^ 31 - 1, False) else (n, True))"

definition to_uint32 :: "bool \<Rightarrow> int \<Rightarrow> int \<times> bool" where
  "to_uint32 neg v = (if 2 ^ 32 - 1 < v then (2 ^ 32 - 1, False) else ((if neg then - v else v) mod 2 ^ 32, True))"

definition ss_int :: "int \<Rightarrow> istr \<Rightarrow> int \<times> istr" where
  "ss_int = ss_number to_int32"

definition ss_pageId :: "page_id \<Rightarrow> istr \<Rightarrow> page_id \<times> istr" where
  "ss_pageId old s = (case ss_number to_uint32 (uint old) s of (v, s') \<Rightarrow> (of_int v, s'))"

section \<open>Nodes\<close>

abbreviation (input) ORDER :: nat where "ORDER \<equiv> 4"

record btnode =
  bn_isLeaf :: bool
  bn_keyCount :: int
  bn_keys :: "string list"
  bn_children :: "page_id list"
  bn_values :: "string list"
  bn_nextLeaf :: page_id

definition BTreeNode_init :: btnode where
  "BTreeNode_init = \<lparr>bn_isLeaf = True, bn_keyCount = 0, bn_keys = replicate (ORDER + 1) [],
     bn_children = replicate (ORDER + 2) 0, bn_values = replicate (ORDER + 1) [], bn_nextLeaf = INVALID_PAGE_ID\<rparr>"

definition pageId_text :: "page_id \<Rightarrow> string" where
  "pageId_text pid = nat_to_string (unat pid)"

definition newline :: string where
  "newline = [CHR 0x0A]"

definition as_lines :: "string list \<Rightarrow> string" where
  "as_lines ws = concat (map (\<lambda>w. w @ newline) ws)"

text \<open>The arrays have five keys and values and six children: a larger count reads outside them.\<close>

definition node_text :: "btnode \<Rightarrow> string" where
  "node_text n = (let k = nat (bn_keyCount n) in
     as_lines [if bn_isLeaf n then ''L'' else ''I'', int_to_string (bn_keyCount n)] @
     as_lines (take k (bn_keys n)) @
     (if bn_isLeaf n then as_lines (take k (bn_values n)) @ as_lines [pageId_text (bn_nextLeaf n)]
      else as_lines (map pageId_text (take (nat (bn_keyCount n + 1)) (bn_children n)))))"

definition node_serialize :: "btnode \<Rightarrow> string \<Rightarrow> store_error + string" where
  "node_serialize n data = (if int (ORDER + 1) < bn_keyCount n then Inl Undefined_behaviour
     else Inr (overwrite HEADER_SIZE (take (PAGE_SIZE - HEADER_SIZE) (node_text n)) data))"

fun read_each :: "('a \<Rightarrow> istr \<Rightarrow> 'a \<times> istr) \<Rightarrow> nat \<Rightarrow> nat \<Rightarrow> 'a list \<Rightarrow> istr \<Rightarrow> 'a list \<times> istr" where
  "read_each rd i 0 xs s = (xs, s)"
| "read_each rd i (Suc k) xs s = (case rd (xs ! i) s of (v, s') \<Rightarrow> read_each rd (Suc i) k (xs[i := v]) s')"

text \<open>
  \<open>istringstream ss(src)\<close> takes the bytes up to the first NUL; with none in the page it reads
  on behind it. The node starts as the constructor makes it.
\<close>

definition node_deserialize :: "string \<Rightarrow> store_error + btnode" where
  "node_deserialize data =
    (let src = drop HEADER_SIZE data in
     if CHR 0x00 \<notin> set src then Inl Undefined_behaviour
     else let s0 = \<lparr>ss_rest = takeWhile (\<lambda>c. c \<noteq> CHR 0x00) src, ss_fail = False\<rparr>;
              (type, s1) = ss_word [] s0;
              leaf = (type = ''L'');
              (count, s2) = ss_int 0 s1
       in if int (ORDER + 1) < count then Inl Undefined_behaviour
          else let (keys, s3) = read_each ss_word 0 (nat count) (bn_keys BTreeNode_init) s2;
                   n = BTreeNode_init\<lparr>bn_isLeaf := leaf, bn_keyCount := count, bn_keys := keys\<rparr>
            in if leaf
               then let (vals, s4) = read_each ss_word 0 (nat count) (bn_values BTreeNode_init) s3;
                        (nxt, s5) = ss_pageId INVALID_PAGE_ID s4
                 in Inr (n\<lparr>bn_values := vals, bn_nextLeaf := nxt\<rparr>)
               else let (children, s4) = read_each ss_pageId 0 (nat (count + 1)) (bn_children BTreeNode_init) s3
                 in Inr (n\<lparr>bn_children := children\<rparr>))"

section \<open>Reading back what was written\<close>

text \<open>A word of the text: not empty, no white space, no NUL.\<close>

definition word_ok :: "string \<Rightarrow> bool" where
  "word_ok w \<longleftrightarrow> w \<noteq> [] \<and> list_all (\<lambda>c. \<not> isspace c \<and> c \<noteq> CHR 0x00) w"

lemma newline_space: "list_all isspace newline" "newline \<noteq> []"
  by (simp_all add: newline_def isspace_def)

lemma skip_spaces: "list_all isspace p \<Longrightarrow> r \<noteq> [] \<Longrightarrow> \<not> isspace (hd r) \<Longrightarrow> dropWhile isspace (p @ r) = r"
  by (induction p) (auto simp: neq_Nil_conv)

lemma word_span:
  "word_ok w \<Longrightarrow> takeWhile (\<lambda>c. \<not> isspace c) (w @ newline @ r) = w \<and> dropWhile (\<lambda>c. \<not> isspace c) (w @ newline @ r) = newline @ r"
proof -
  assume w: "word_ok w"
  have n: "isspace (CHR 0x0A)" by (simp add: isspace_def)
  show ?thesis using w by (auto simp: word_ok_def newline_def list_all_iff takeWhile_append2 dropWhile_append2 n)
qed

lemma ss_word_reads:
  assumes "list_all isspace p" "word_ok w"
  shows "ss_word old \<lparr>ss_rest = p @ w @ newline @ r, ss_fail = False\<rparr> = (w, \<lparr>ss_rest = newline @ r, ss_fail = False\<rparr>)"
proof -
  have "w @ newline @ r \<noteq> []" "\<not> isspace (hd (w @ newline @ r))"
    using assms(2) by (auto simp: word_ok_def neq_Nil_conv)
  from skip_spaces [OF assms(1) this] show ?thesis
    using word_span [OF assms(2), of r] assms(2) by (auto simp: ss_word_def word_ok_def Let_def)
qed

lemma number_span:
  "takeWhile isdigit (nat_to_string n @ newline @ r) = nat_to_string n"
  "dropWhile isdigit (nat_to_string n @ newline @ r) = newline @ r"
  by (rule takeWhile_nat_to_string; simp add: newline_def isdigit_def)+

lemma ss_number_reads:
  assumes "list_all isspace p" "convert False (int n) = (v, True)"
  shows "ss_number convert old \<lparr>ss_rest = p @ nat_to_string n @ newline @ r, ss_fail = False\<rparr> =
    (v, \<lparr>ss_rest = newline @ r, ss_fail = False\<rparr>)"
proof -
  obtain c cs where c: "nat_to_string n = c # cs" "isdigit c" using nat_to_string_Cons by blast
  have "dropWhile isspace (p @ nat_to_string n @ newline @ r) = nat_to_string n @ newline @ r"
    using assms(1) c isdigit_not [OF c(2)] by (intro skip_spaces) simp_all
  moreover have "split_sign (nat_to_string n @ newline @ r) = (False, nat_to_string n @ newline @ r)"
    using c isdigit_not [OF c(2)] by (simp add: split_sign_def)
  ultimately show ?thesis using assms(2) by (simp add: ss_number_def number_span)
qed

lemma ss_int_reads:
  "list_all isspace p \<Longrightarrow> 0 \<le> v \<Longrightarrow> v < 2 ^ 31 \<Longrightarrow>
   ss_int old \<lparr>ss_rest = p @ int_to_string v @ newline @ r, ss_fail = False\<rparr> = (v, \<lparr>ss_rest = newline @ r, ss_fail = False\<rparr>)"
  by (simp add: ss_int_def int_to_string_def ss_number_reads to_int32_def Let_def)

lemma ss_pageId_reads:
  assumes "list_all isspace p"
  shows "ss_pageId old \<lparr>ss_rest = p @ pageId_text pid @ newline @ r, ss_fail = False\<rparr> =
    (pid, \<lparr>ss_rest = newline @ r, ss_fail = False\<rparr>)"
proof -
  have "uint pid < 2 ^ LENGTH(32)" "0 \<le> uint pid" by (rule unsigned_less, simp)
  then have "to_uint32 False (int (unat pid)) = (int (unat pid), True)" by (simp add: to_uint32_def)
  from ss_number_reads [of p to_uint32, OF assms this] show ?thesis
    by (simp add: ss_pageId_def pageId_text_def)
qed

text \<open>A whole group of lines, whatever the reader and the print of its values.\<close>

lemma read_each_lines:
  assumes rd: "\<And>old p w r. list_all isspace p \<Longrightarrow> good w \<Longrightarrow>
      rd old \<lparr>ss_rest = p @ show w @ newline @ r, ss_fail = False\<rparr> = (w, \<lparr>ss_rest = newline @ r, ss_fail = False\<rparr>)"
    and "list_all good ws" "list_all isspace p" "i + length ws \<le> length xs"
  shows "\<exists>p'. list_all isspace p' \<and> read_each rd i (length ws) xs \<lparr>ss_rest = p @ as_lines (map show ws) @ r, ss_fail = False\<rparr> =
    (take i xs @ ws @ drop (i + length ws) xs, \<lparr>ss_rest = p' @ r, ss_fail = False\<rparr>)"
  using assms(2-4)
proof (induction ws arbitrary: i xs p)
  case Nil
  then show ?case by (auto simp: as_lines_def)
next
  case (Cons w ws)
  have 1: "rd (xs ! i) \<lparr>ss_rest = p @ as_lines (map show (w # ws)) @ r, ss_fail = False\<rparr> =
      (w, \<lparr>ss_rest = newline @ as_lines (map show ws) @ r, ss_fail = False\<rparr>)"
    using rd [of p w] Cons.prems by (simp add: as_lines_def)
  from Cons.IH [of newline "Suc i" "xs[i := w]"] Cons.prems newline_space(1) obtain p' where
    "list_all isspace p'" "read_each rd (Suc i) (length ws) (xs[i := w]) \<lparr>ss_rest = newline @ as_lines (map show ws) @ r, ss_fail = False\<rparr> =
     (take (Suc i) (xs[i := w]) @ ws @ drop (Suc i + length ws) (xs[i := w]), \<lparr>ss_rest = p' @ r, ss_fail = False\<rparr>)" by auto
  moreover have "take (Suc i) (xs[i := w]) = take i xs @ [w]" using Cons.prems(3) by (simp add: take_Suc_conv_app_nth)
  ultimately show ?case using 1 by auto
qed

definition node_ok :: "btnode \<Rightarrow> bool" where
  "node_ok n \<longleftrightarrow> 0 \<le> bn_keyCount n \<and> bn_keyCount n \<le> int (ORDER + 1) \<and> length (bn_keys n) = ORDER + 1 \<and>
     length (bn_children n) = ORDER + 2 \<and> length (bn_values n) = ORDER + 1 \<and>
     list_all word_ok (take (nat (bn_keyCount n)) (bn_keys n)) \<and>
     (bn_isLeaf n \<longrightarrow> list_all word_ok (take (nat (bn_keyCount n)) (bn_values n)))"

text \<open>What the text says of a node: the entries in use, and of a leaf or an inner node only its own.\<close>

definition node_norm :: "btnode \<Rightarrow> btnode" where
  "node_norm n = (let k = nat (bn_keyCount n);
       n' = BTreeNode_init\<lparr>bn_isLeaf := bn_isLeaf n, bn_keyCount := bn_keyCount n,
              bn_keys := take k (bn_keys n) @ replicate (ORDER + 1 - k) []\<rparr>
     in if bn_isLeaf n
        then n'\<lparr>bn_values := take k (bn_values n) @ replicate (ORDER + 1 - k) [], bn_nextLeaf := bn_nextLeaf n\<rparr>
        else n'\<lparr>bn_children := take (k + 1) (bn_children n) @ replicate (ORDER + 1 - k) 0\<rparr>)"

lemma as_lines_simps: "as_lines [] = []" "as_lines (w # ws) = w @ newline @ as_lines ws"
  by (simp_all add: as_lines_def)

lemma no_nul_lines: "list_all (list_all (\<lambda>c. c \<noteq> CHR 0x00)) ws \<Longrightarrow> list_all (\<lambda>c. c \<noteq> CHR 0x00) (as_lines ws)"
  by (induction ws) (auto simp: as_lines_simps newline_def)

lemma word_no_nul: "word_ok w \<Longrightarrow> list_all (\<lambda>c. c \<noteq> CHR 0x00) w"
  by (auto simp: word_ok_def list_all_iff)

lemma number_no_nul: "list_all (\<lambda>c. c \<noteq> CHR 0x00) (nat_to_string k)"
proof -
  have "\<not> isdigit (CHR 0x00)" by (simp add: isdigit_def)
  then show ?thesis using nat_to_string_digits [of k] by (auto simp: list_all_iff)
qed

lemma no_nul_words: "list_all word_ok ws \<Longrightarrow> list_all (\<lambda>c. c \<noteq> CHR 0x00) (as_lines ws)"
  by (rule no_nul_lines) (auto simp: list_all_iff word_ok_def)

lemma no_nul_ids: "list_all (\<lambda>c. c \<noteq> CHR 0x00) (as_lines (map pageId_text ids))"
  by (rule no_nul_lines) (simp add: pageId_text_def number_no_nul list.pred_map comp_def list_all_iff [of "\<lambda>_. True"])

lemma node_text_no_nul:
  assumes "node_ok n"
  shows "list_all (\<lambda>c. c \<noteq> CHR 0x00) (node_text n)"
proof -
  have "list_all (\<lambda>c. c \<noteq> CHR 0x00) (int_to_string (bn_keyCount n))"
    using assms by (simp add: int_to_string_def number_no_nul node_ok_def)
  then have "list_all (\<lambda>c. c \<noteq> CHR 0x00) (as_lines [if bn_isLeaf n then ''L'' else ''I'', int_to_string (bn_keyCount n)])"
    by (intro no_nul_lines) simp
  moreover have "list_all (\<lambda>c. c \<noteq> CHR 0x00) (as_lines [pageId_text (bn_nextLeaf n)])"
    using no_nul_ids [of "[bn_nextLeaf n]"] by simp
  ultimately show ?thesis using assms no_nul_words no_nul_ids
    unfolding node_text_def Let_def list_all_append by (auto simp: node_ok_def)
qed

text \<open>The steps of a read that stays inside the arrays, for a leaf and for an inner node.\<close>

lemma deserialize_leaf:
  assumes "CHR 0x00 \<in> set (drop HEADER_SIZE data)" "takeWhile (\<lambda>c. c \<noteq> CHR 0x00) (drop HEADER_SIZE data) = src"
    "ss_word [] \<lparr>ss_rest = src, ss_fail = False\<rparr> = (''L'', s1)" "ss_int 0 s1 = (c, s2)" "c \<le> int (ORDER + 1)"
    "read_each ss_word 0 (nat c) (bn_keys BTreeNode_init) s2 = (ks, s3)"
    "read_each ss_word 0 (nat c) (bn_values BTreeNode_init) s3 = (vs, s4)" "ss_pageId INVALID_PAGE_ID s4 = (nx, s5)"
  shows "node_deserialize data = Inr (BTreeNode_init\<lparr>bn_isLeaf := True, bn_keyCount := c, bn_keys := ks,
    bn_values := vs, bn_nextLeaf := nx\<rparr>)"
  using assms by (simp add: node_deserialize_def Let_def)

lemma deserialize_inner:
  assumes "CHR 0x00 \<in> set (drop HEADER_SIZE data)" "takeWhile (\<lambda>c. c \<noteq> CHR 0x00) (drop HEADER_SIZE data) = src"
    "ss_word [] \<lparr>ss_rest = src, ss_fail = False\<rparr> = (''I'', s1)" "ss_int 0 s1 = (c, s2)" "c \<le> int (ORDER + 1)"
    "read_each ss_word 0 (nat c) (bn_keys BTreeNode_init) s2 = (ks, s3)"
    "read_each ss_pageId 0 (nat (c + 1)) (bn_children BTreeNode_init) s3 = (cs, s4)"
  shows "node_deserialize data = Inr (BTreeNode_init\<lparr>bn_isLeaf := False, bn_keyCount := c, bn_keys := ks, bn_children := cs\<rparr>)"
  using assms by (simp add: node_deserialize_def Let_def)

lemma deserialize_text:
  assumes n: "node_ok n" and src: "takeWhile (\<lambda>c. c \<noteq> CHR 0x00) (drop HEADER_SIZE data) = node_text n @ junk"
    and nul: "CHR 0x00 \<in> set (drop HEADER_SIZE data)"
  shows "node_deserialize data = Inr (node_norm n)"
proof -
  let ?k = "nat (bn_keyCount n)"
  have k: "0 \<le> bn_keyCount n" "bn_keyCount n \<le> 5" "?k \<le> 5" "length (bn_keys n) = 5" "length (bn_children n) = 6"
    "length (bn_values n) = 5" using n by (auto simp: node_ok_def)
  let ?tail = "if bn_isLeaf n then as_lines (take ?k (bn_values n)) @ as_lines [pageId_text (bn_nextLeaf n)]
      else as_lines (map pageId_text (take (nat (bn_keyCount n + 1)) (bn_children n)))"
  let ?type = "if bn_isLeaf n then ''L'' else ''I''"
  let ?keys = "as_lines (take ?k (bn_keys n))"
  have layout: "node_text n @ junk = [] @ ?type @ newline @ int_to_string (bn_keyCount n) @ newline @ ?keys @ ?tail @ junk"
    by (simp add: node_text_def as_lines_simps Let_def)
  have "word_ok ?type" by (simp add: word_ok_def isspace_def)
  then have 1: "ss_word [] \<lparr>ss_rest = node_text n @ junk, ss_fail = False\<rparr> =
      (?type, \<lparr>ss_rest = newline @ int_to_string (bn_keyCount n) @ newline @ ?keys @ ?tail @ junk, ss_fail = False\<rparr>)"
    unfolding layout by (intro ss_word_reads) simp_all
  have 2: "ss_int 0 \<lparr>ss_rest = newline @ int_to_string (bn_keyCount n) @ newline @ ?keys @ ?tail @ junk, ss_fail = False\<rparr> =
      (bn_keyCount n, \<lparr>ss_rest = newline @ ?keys @ ?tail @ junk, ss_fail = False\<rparr>)"
    using k by (intro ss_int_reads newline_space) auto
  have words: "list_all word_ok (take ?k (bn_keys n))" "length (take ?k (bn_keys n)) = ?k"
    using n k by (simp_all add: node_ok_def)
  obtain p3 where 3: "list_all isspace p3"
    "read_each ss_word 0 ?k (replicate 5 []) \<lparr>ss_rest = newline @ ?keys @ ?tail @ junk, ss_fail = False\<rparr> =
      (take ?k (bn_keys n) @ replicate (5 - ?k) [], \<lparr>ss_rest = p3 @ ?tail @ junk, ss_fail = False\<rparr>)"
    using read_each_lines [of word_ok ss_word "\<lambda>w. w" "take ?k (bn_keys n)" newline 0 "replicate 5 []", OF ss_word_reads]
      words k newline_space by auto
  have init: "bn_keys BTreeNode_init = replicate 5 []" "bn_values BTreeNode_init = replicate 5 []"
    "bn_children BTreeNode_init = replicate 6 0" by (simp_all add: BTreeNode_init_def eval_nat_numeral)
  show ?thesis
  proof (cases "bn_isLeaf n")
    case True
    have vals: "list_all word_ok (take ?k (bn_values n))" "length (take ?k (bn_values n)) = ?k"
      using n k True by (simp_all add: node_ok_def)
    obtain p4 where 4: "list_all isspace p4"
      "read_each ss_word 0 ?k (replicate 5 []) \<lparr>ss_rest = p3 @ ?tail @ junk, ss_fail = False\<rparr> =
        (take ?k (bn_values n) @ replicate (5 - ?k) [],
         \<lparr>ss_rest = p4 @ pageId_text (bn_nextLeaf n) @ newline @ junk, ss_fail = False\<rparr>)"
      using read_each_lines [of word_ok ss_word "\<lambda>w. w" "take ?k (bn_values n)" p3 0 "replicate 5 []", OF ss_word_reads]
        vals k 3(1) True by (auto simp: as_lines_simps)
    have t: "?type = ''L''" using True by simp
    from deserialize_leaf [OF nul src 1 [unfolded t] 2 _ 3(2) [folded init] 4(2) [folded init(2)] ss_pageId_reads [OF 4(1)]] k True
    show ?thesis by (simp add: node_norm_def Let_def init)
  next
    case False
    then have neg: "bn_isLeaf n = False" by simp
    let ?ch = "take (nat (bn_keyCount n + 1)) (bn_children n)"
    have ch: "length ?ch = nat (bn_keyCount n + 1)" "nat (bn_keyCount n + 1) = ?k + 1" using k by auto
    from read_each_lines [of "\<lambda>_. True" ss_pageId pageId_text ?ch p3 0 "replicate 6 0" junk, OF ss_pageId_reads]
    obtain p4 where 4: "read_each ss_pageId 0 (nat (bn_keyCount n + 1)) (replicate 6 0) \<lparr>ss_rest = p3 @ ?tail @ junk, ss_fail = False\<rparr> =
        (?ch @ replicate (5 - ?k) 0, \<lparr>ss_rest = p4 @ junk, ss_fail = False\<rparr>)"
      using ch k 3(1) False by (force simp: list_all_iff simp del: read_each.simps)
    have t: "?type = ''I''" using False by simp
    from deserialize_inner [OF nul src 1 [unfolded t] 2 _ 3(2) [folded init] 4 [folded init(3)]] k False
    show ?thesis by (simp add: node_norm_def Let_def init ch(2))
  qed
qed

text \<open>A page that nodes are kept in: its last byte stays NUL as long as every text leaves room for it.\<close>

definition node_page :: "string \<Rightarrow> bool" where
  "node_page data \<longleftrightarrow> length data = PAGE_SIZE \<and> last data = CHR 0x00"

definition node_fits :: "btnode \<Rightarrow> bool" where
  "node_fits n \<longleftrightarrow> node_ok n \<and> length (node_text n) < PAGE_SIZE - HEADER_SIZE"

lemma node_fits_ok: "node_fits n \<Longrightarrow> node_ok n"
  by (simp add: node_fits_def)

lemma node_page_split:
  assumes "node_page data" "k < PAGE_SIZE"
  shows "drop k data \<noteq> []" "last (drop k data) = CHR 0x00" "CHR 0x00 \<in> set (drop k data)"
proof -
  show 1: "drop k data \<noteq> []" "last (drop k data) = CHR 0x00" using assms by (auto simp: node_page_def)
  show "CHR 0x00 \<in> set (drop k data)" using last_in_set [OF 1(1)] 1(2) by simp
qed

lemma node_serialize_reads:
  assumes n: "node_fits n" and data: "node_page data"
  obtains data' where "node_serialize n data = Inr data'" "node_page data'" "node_deserialize data' = Inr (node_norm n)"
    "take HEADER_SIZE data' = take HEADER_SIZE data"
proof -
  let ?t = "node_text n" and ?data' = "take HEADER_SIZE data @ node_text n @ drop (HEADER_SIZE + length (node_text n)) data"
  have t: "length ?t < 4084" "node_ok n" using n by (simp_all add: node_fits_def)
  note rest = node_page_split [OF data, of "HEADER_SIZE + length ?t"]
  have 1: "node_serialize n data = Inr ?data'" using t data by (simp add: node_serialize_def overwrite_def node_ok_def node_page_def)
  have "length ?data' = PAGE_SIZE" using t data by (simp add: node_page_def)
  then have 2: "node_page ?data'" using rest t by (simp add: node_page_def)
  have "drop HEADER_SIZE ?data' = ?t @ drop (HEADER_SIZE + length ?t) data" using data by (simp add: node_page_def)
  moreover have "takeWhile (\<lambda>c. c \<noteq> CHR 0x00) (?t @ r) = ?t @ takeWhile (\<lambda>c. c \<noteq> CHR 0x00) r" for r
    using node_text_no_nul [OF t(2)] by (intro takeWhile_append2) (auto simp: list_all_iff)
  ultimately have 3: "node_deserialize ?data' = Inr (node_norm n)"
    using deserialize_text [OF t(2), of ?data'] node_page_split(3) [OF 2, of HEADER_SIZE] by simp
  have "take HEADER_SIZE ?data' = take HEADER_SIZE data" using data by (simp add: node_page_def)
  with that 1 2 3 show ?thesis by blast
qed

lemma node_norm_sel [simp]:
  "bn_isLeaf (node_norm n) = bn_isLeaf n" "bn_keyCount (node_norm n) = bn_keyCount n"
  by (simp_all add: node_norm_def Let_def)

text \<open>Reading a node back twice changes nothing more, and the reader gets what is in use.\<close>

lemma node_norm_entries:
  assumes "node_ok n"
  shows "take (nat (bn_keyCount n)) (bn_keys (node_norm n)) = take (nat (bn_keyCount n)) (bn_keys n)"
    and "bn_isLeaf n \<Longrightarrow> take (nat (bn_keyCount n)) (bn_values (node_norm n)) = take (nat (bn_keyCount n)) (bn_values n)"
    and "\<not> bn_isLeaf n \<Longrightarrow> take (nat (bn_keyCount n) + 1) (bn_children (node_norm n)) = take (nat (bn_keyCount n) + 1) (bn_children n)"
    and "bn_isLeaf n \<Longrightarrow> bn_nextLeaf (node_norm n) = bn_nextLeaf n"
proof -
  from assms have k: "nat (bn_keyCount n) \<le> 5" "length (bn_keys n) = 5" "length (bn_children n) = 6" "length (bn_values n) = 5"
    by (auto simp: node_ok_def)
  then have "nat (bn_keyCount n) - min 5 (nat (bn_keyCount n)) = 0" by simp
  with k show "take (nat (bn_keyCount n)) (bn_keys (node_norm n)) = take (nat (bn_keyCount n)) (bn_keys n)"
    "bn_isLeaf n \<Longrightarrow> take (nat (bn_keyCount n)) (bn_values (node_norm n)) = take (nat (bn_keyCount n)) (bn_values n)"
    "\<not> bn_isLeaf n \<Longrightarrow> take (nat (bn_keyCount n) + 1) (bn_children (node_norm n)) = take (nat (bn_keyCount n) + 1) (bn_children n)"
    "bn_isLeaf n \<Longrightarrow> bn_nextLeaf (node_norm n) = bn_nextLeaf n"
    by (simp_all add: node_norm_def Let_def)
qed

lemma node_norm_ok: "node_ok n \<Longrightarrow> node_ok (node_norm n)"
  using node_norm_entries [of n] by (auto simp: node_ok_def node_norm_def Let_def BTreeNode_init_def)

lemma page_bytes_body: "drop HEADER_SIZE (page_bytes pid) = replicate (PAGE_SIZE - HEADER_SIZE) (CHR 0x00)"
  by (simp add: page_bytes_def set_field_def overwrite_def)

lemma node_page_fresh: "node_page (page_bytes pid)"
proof -
  have "last (page_bytes pid) = last (drop HEADER_SIZE (page_bytes pid))" by (rule last_drop [symmetric]) simp
  then show ?thesis unfolding page_bytes_body by (simp add: node_page_def)
qed

text \<open>
  C35. A B-tree node comes back from its page, as far as it is in use: when its keys in use and, in a
  leaf, its values are words (not empty, without white space or NUL), its count is within the arrays,
  and its text and the page leave the last byte NUL, \<open>deserialize\<close> of what \<open>serialize\<close> left there gives
  its kind, its count, the keys in use and the values with the next leaf, or the children, that belong to
  them; everything else is cleared (\<open>node_norm\<close>). This holds whatever longer text was in the page before, and
  the page's header is untouched. Without words it is false (\<open>node_blank_key\<close>).
\<close>

theorem node_roundtrip:
  assumes "node_fits n" "node_page data"
  shows "\<exists>data'. node_serialize n data = Inr data' \<and> node_deserialize data' = Inr (node_norm n) \<and> pg_id data' = pg_id data"
proof -
  have "pg_id d = pg_id (take HEADER_SIZE d)" for d by (simp add: pg_id_def get_field_def peek_def min_def)
  with node_serialize_reads [OF assms] show ?thesis by metis
qed

theorem node_roundtrip_witness:
  "\<exists>data'. node_serialize (BTreeNode_init\<lparr>bn_keyCount := 1, bn_keys := [''ann'', [], [], [], []],
      bn_values := [''7'', [], [], [], []]\<rparr>) (page_bytes 3) = Inr data' \<and>
    node_deserialize data' = Inr (node_norm (BTreeNode_init\<lparr>bn_keyCount := 1, bn_keys := [''ann'', [], [], [], []],
      bn_values := [''7'', [], [], [], []]\<rparr>)) \<and> pg_id data' = pg_id (page_bytes 3)"
proof (rule node_roundtrip)
  show "node_fits (BTreeNode_init\<lparr>bn_keyCount := 1, bn_keys := [''ann'', [], [], [], []], bn_values := [''7'', [], [], [], []]\<rparr>)"
    by (simp add: node_fits_def node_ok_def BTreeNode_init_def word_ok_def isspace_def node_text_def as_lines_simps
        newline_def int_to_string_def pageId_text_def nat_to_string.simps)
  show "node_page (page_bytes 3)" by (rule node_page_fresh)
qed

text \<open>
  A key with a blank in it is written as it is and read as two words: the node comes back with
  half of the key, the other half as its value, and the value as the number of the next leaf.
\<close>

theorem node_blank_key:
  "ebind (node_serialize (BTreeNode_init\<lparr>bn_keyCount := 1, bn_keys := [''a b'', [], [], [], []],
      bn_values := [''7'', [], [], [], []]\<rparr>) (page_bytes 3)) node_deserialize =
    Inr (BTreeNode_init\<lparr>bn_keyCount := 1, bn_keys := [''a'', [], [], [], []],
      bn_values := [''b'', [], [], [], []], bn_nextLeaf := 7\<rparr>)"
proof -
  let ?n = "BTreeNode_init\<lparr>bn_keyCount := 1, bn_keys := [''a b'', [], [], [], []], bn_values := [''7'', [], [], [], []]\<rparr>"
  have five: "replicate 5 x = [x, x, x, x, x]" for x :: string by (simp add: eval_nat_numeral)
  let ?t = "''L'' @ newline @ ''1'' @ newline @ ''a b'' @ newline @ ''7'' @ newline @ ''4294967295'' @ newline"
  have t: "node_text ?n = ?t"
    by (simp add: node_text_def BTreeNode_init_def as_lines_simps int_to_string_def pageId_text_def nat_to_string.simps
        digit_char_def char_of_def bit_iff_odd)
  let ?data = "overwrite HEADER_SIZE (take (PAGE_SIZE - HEADER_SIZE) ?t) (page_bytes 3)"
  have 1: "node_serialize ?n (page_bytes 3) = Inr ?data"
    unfolding t [symmetric] by (simp add: node_serialize_def BTreeNode_init_def)
  have "drop HEADER_SIZE ?data = ?t @ drop 21 (drop HEADER_SIZE (page_bytes 3))"
    by (simp add: overwrite_def Let_def newline_def)
  then have 2: "drop HEADER_SIZE ?data = ?t @ replicate 4063 (CHR 0x00)" unfolding page_bytes_body by simp
  have "node_deserialize ?data = Inr (BTreeNode_init\<lparr>bn_keyCount := 1, bn_keys := [''a'', [], [], [], []],
      bn_values := [''b'', [], [], [], []], bn_nextLeaf := 7\<rparr>)"
    unfolding node_deserialize_def 2
    by (simp add: newline_def ss_word_def ss_int_def ss_pageId_def ss_number_def isspace_def BTreeNode_init_def
        split_sign_def to_int32_def to_uint32_def digits_val_def digit_value_def isdigit_def Let_def five)
  with 1 show ?thesis by simp
qed

end
