(* ===== verification/Btree.thy ===== *)
theory Btree
  imports Btree_Node Page_Store
begin

text \<open>
  The B-tree index (include/btree.h, src/btree.cpp 46-247). Every node is read from its page and
  written back through the buffer pool. The recursive insertion and the descent follow page
  numbers, which may run in a circle in a damaged file: they are partial functions, and \<open>None\<close>
  means that the code does not return. What the tree holds is proved in \<open>Btree_Props\<close>.
\<close>

section \<open>Nodes and pages\<close>

definition loadNode :: "page_id \<Rightarrow> (pool, btnode) eff" where
  "loadNode pid = eff_bind (fetchPage pid) (\<lambda>_ bp. case node_deserialize (page_data pid bp) of
     Inl e \<Rightarrow> (Inl e, bp) | Inr node \<Rightarrow> (Inr node, unpin pid False bp))"

definition saveNode :: "page_id \<Rightarrow> btnode \<Rightarrow> (pool, unit) eff" where
  "saveNode pid node = eff_bind (fetchPage pid) (\<lambda>_ bp. case node_serialize node (page_data pid bp) of
     Inl e \<Rightarrow> (Inl e, bp) | Inr data \<Rightarrow> (Inr (), unpin pid True (poke pid data bp)))"

definition allocNode :: "(pool, page_id) eff" where
  "allocNode = eff_bind newPage (\<lambda>newId bp. let pid = pg_id (page_data newId bp) in (Inr pid, unpin pid True bp))"

section \<open>The tree\<close>

record btree =
  bt_pool :: pool
  bt_rootId :: page_id

record splitResult =
  sp_key :: string
  sp_newPage :: page_id

text \<open>The constructor: if it throws there is no tree, but the pool has changed.\<close>

definition BTree_init :: "(pool, page_id) eff" where
  "BTree_init = eff_bind allocNode (\<lambda>rootId. eff_bind (saveNode rootId BTreeNode_init) (\<lambda>_. eff_return rootId))"

text \<open>The child to follow: the loop over the keys that are not above the one looked for.\<close>

definition child_index :: "string \<Rightarrow> btnode \<Rightarrow> nat" where
  "child_index key node = length (takeWhile (\<lambda>k. k \<le> key) (take (nat (bn_keyCount node)) (bn_keys node)))"

partial_function (option) findLeaf :: "string \<Rightarrow> page_id \<Rightarrow> pool \<Rightarrow> ((store_error + page_id) \<times> pool) option" where
  "findLeaf key cur bp = (case loadNode cur bp of
     (Inl e, bp1) \<Rightarrow> Some (Inl e, bp1)
   | (Inr node, bp1) \<Rightarrow> if bn_isLeaf node then Some (Inr cur, bp1)
       else findLeaf key (bn_children node ! child_index key node) bp1)"

fun find_value :: "string \<Rightarrow> string list \<Rightarrow> string list \<Rightarrow> string option" where
  "find_value key (k # ks) (v # vs) = (if k = key then Some v else find_value key ks vs)"
| "find_value key _ _ = None"

definition bt_search :: "string \<Rightarrow> btree \<Rightarrow> ((store_error + string option) \<times> btree) option" where
  "bt_search key t = Option.bind (findLeaf key (bt_rootId t) (bt_pool t)) (\<lambda>(r, bp).
     Some (case r of Inl e \<Rightarrow> (Inl e, t\<lparr>bt_pool := bp\<rparr>)
       | Inr leafId \<Rightarrow> (case loadNode leafId bp of
           (Inl e, bp1) \<Rightarrow> (Inl e, t\<lparr>bt_pool := bp1\<rparr>)
         | (Inr leaf, bp1) \<Rightarrow>
             (Inr (find_value key (take (nat (bn_keyCount leaf)) (bn_keys leaf)) (bn_values leaf)), t\<lparr>bt_pool := bp1\<rparr>))))"

section \<open>Range scan\<close>

text \<open>One leaf: the entries in the range, and whether a key above it ended the scan.\<close>

fun scan_leaf :: "string \<Rightarrow> string \<Rightarrow> (string \<times> string) list \<Rightarrow> (string \<times> string) list \<times> bool" where
  "scan_leaf from to [] = ([], False)"
| "scan_leaf from to ((k, v) # es) =
    (if to < k then ([], True)
     else case scan_leaf from to es of (result, past) \<Rightarrow> (if from \<le> k then (k, v) # result else result, past))"

partial_function (option) scan_leaves ::
  "string \<Rightarrow> string \<Rightarrow> page_id \<Rightarrow> (string \<times> string) list \<Rightarrow> pool \<Rightarrow>
   ((store_error + (string \<times> string) list) \<times> pool) option" where
  "scan_leaves from to leafId result bp =
    (if leafId = INVALID_PAGE_ID then Some (Inr result, bp)
     else case loadNode leafId bp of
       (Inl e, bp1) \<Rightarrow> Some (Inl e, bp1)
     | (Inr leaf, bp1) \<Rightarrow>
         (case scan_leaf from to (zip (take (nat (bn_keyCount leaf)) (bn_keys leaf)) (bn_values leaf)) of
            (found, past) \<Rightarrow> if past then Some (Inr (result @ found), bp1)
              else scan_leaves from to (bn_nextLeaf leaf) (result @ found) bp1))"

definition bt_rangeScan :: "string \<Rightarrow> string \<Rightarrow> btree \<Rightarrow> ((store_error + (string \<times> string) list) \<times> btree) option" where
  "bt_rangeScan from to t = Option.bind (findLeaf from (bt_rootId t) (bt_pool t)) (\<lambda>(r, bp).
     case r of Inl e \<Rightarrow> Some (Inl e, t\<lparr>bt_pool := bp\<rparr>)
     | Inr leafId \<Rightarrow> Option.bind (scan_leaves from to leafId [] bp) (\<lambda>(r', bp1). Some (r', t\<lparr>bt_pool := bp1\<rparr>)))"

section \<open>Insertion\<close>

text \<open>
  The loops that make room: in a leaf from the last entry down to the last key not above the new
  one, in an inner node from the last entry down to position \<open>i\<close>.
\<close>

fun leaf_shift :: "string \<Rightarrow> nat \<Rightarrow> string list \<Rightarrow> string list \<Rightarrow> nat \<times> string list \<times> string list" where
  "leaf_shift key 0 keys vals = (0, keys, vals)"
| "leaf_shift key (Suc pos) keys vals =
    (if key < keys ! pos then leaf_shift key pos (keys[Suc pos := keys ! pos]) (vals[Suc pos := vals ! pos])
     else (Suc pos, keys, vals))"

fun inner_shift :: "nat \<Rightarrow> nat \<Rightarrow> string list \<Rightarrow> page_id list \<Rightarrow> string list \<times> page_id list" where
  "inner_shift i 0 keys children = (keys, children)"
| "inner_shift i (Suc pos) keys children =
    (if i < Suc pos then inner_shift i pos (keys[Suc pos := keys ! pos]) (children[Suc (Suc pos) := children ! Suc pos])
     else (keys, children))"

text \<open>
  A leaf with five keys already, or with a negative count, is changed outside its arrays. An
  inner node's loop writes behind its keys from five on.
\<close>

definition leaf_insert :: "string \<Rightarrow> string \<Rightarrow> btnode \<Rightarrow> store_error + btnode" where
  "leaf_insert key value node =
    (if bn_keyCount node < 0 \<or> int ORDER < bn_keyCount node then Inl Undefined_behaviour
     else case leaf_shift key (nat (bn_keyCount node)) (bn_keys node) (bn_values node) of (pos, keys, vals) \<Rightarrow>
       Inr (node\<lparr>bn_keys := keys[pos := key], bn_values := vals[pos := value], bn_keyCount := bn_keyCount node + 1\<rparr>))"

definition inner_insert :: "nat \<Rightarrow> splitResult \<Rightarrow> btnode \<Rightarrow> store_error + btnode" where
  "inner_insert i split node =
    (if int ORDER < bn_keyCount node then Inl Undefined_behaviour
     else case inner_shift i (nat (bn_keyCount node)) (bn_keys node) (bn_children node) of (keys, children) \<Rightarrow>
       Inr (node\<lparr>bn_keys := keys[i := sp_key split], bn_children := children[Suc i := sp_newPage split],
                 bn_keyCount := bn_keyCount node + 1\<rparr>))"

text \<open>
  \<open>splitNode\<close> is called with five keys. The new right node keeps what it does not use as the
  constructor made it, the left one keeps its entries behind the count.
\<close>

definition right_half :: "btnode \<Rightarrow> btnode" where
  "right_half node = (let c = nat (bn_keyCount node); mid = c div 2 in
     if bn_isLeaf node
     then BTreeNode_init\<lparr>bn_keyCount := int (c - mid),
            bn_keys := drop mid (take c (bn_keys node)) @ replicate (ORDER + 1 - (c - mid)) [],
            bn_values := drop mid (take c (bn_values node)) @ replicate (ORDER + 1 - (c - mid)) [],
            bn_nextLeaf := bn_nextLeaf node\<rparr>
     else BTreeNode_init\<lparr>bn_isLeaf := False, bn_keyCount := int (c - mid - 1),
            bn_keys := drop (mid + 1) (take c (bn_keys node)) @ replicate (ORDER + 1 - (c - mid - 1)) [],
            bn_children := drop (mid + 1) (take (c + 1) (bn_children node)) @ replicate (ORDER + 2 - (c - mid)) 0\<rparr>)"

definition splitNode :: "page_id \<Rightarrow> btnode \<Rightarrow> (pool, splitResult) eff" where
  "splitNode nodeId node =
    (let mid = nat (bn_keyCount node) div 2; right = right_half node;
         pushUpKey = (if bn_isLeaf node then bn_keys right ! 0 else bn_keys node ! mid);
         left = node\<lparr>bn_keyCount := int mid\<rparr>
     in eff_bind allocNode (\<lambda>rightId.
        eff_bind (saveNode nodeId (if bn_isLeaf node then left\<lparr>bn_nextLeaf := rightId\<rparr> else left)) (\<lambda>_.
        eff_bind (saveNode rightId right) (\<lambda>_.
        eff_return \<lparr>sp_key = pushUpKey, sp_newPage = rightId\<rparr>))))"

text \<open>The end of \<open>insertRec\<close>, in a leaf and in an inner node: the changed node is saved, or split if it is too full.\<close>

definition save_or_split :: "page_id \<Rightarrow> btnode \<Rightarrow> (pool, splitResult option) eff" where
  "save_or_split nodeId node =
    (if bn_keyCount node \<le> int ORDER then eff_bind (saveNode nodeId node) (\<lambda>_. eff_return None)
     else eff_bind (splitNode nodeId node) (\<lambda>s. eff_return (Some s)))"

partial_function (option) insertRec ::
  "string \<Rightarrow> string \<Rightarrow> page_id \<Rightarrow> pool \<Rightarrow> ((store_error + splitResult option) \<times> pool) option" where
  "insertRec key value nodeId bp = (case loadNode nodeId bp of
     (Inl e, bp1) \<Rightarrow> Some (Inl e, bp1)
   | (Inr node, bp1) \<Rightarrow>
       if bn_isLeaf node
       then Some (case leaf_insert key value node of Inl e \<Rightarrow> (Inl e, bp1) | Inr node' \<Rightarrow> save_or_split nodeId node' bp1)
       else let i = child_index key node in
         Option.bind (insertRec key value (bn_children node ! i) bp1) (\<lambda>(r, bp2).
           Some (case r of Inl e \<Rightarrow> (Inl e, bp2)
             | Inr None \<Rightarrow> (Inr None, bp2)
             | Inr (Some split) \<Rightarrow>
                 (case inner_insert i split node of Inl e \<Rightarrow> (Inl e, bp2) | Inr node' \<Rightarrow> save_or_split nodeId node' bp2))))"

definition new_root :: "page_id \<Rightarrow> splitResult \<Rightarrow> btnode" where
  "new_root rootId split = BTreeNode_init\<lparr>bn_isLeaf := False, bn_keyCount := 1,
     bn_keys := (bn_keys BTreeNode_init)[0 := sp_key split],
     bn_children := (bn_children BTreeNode_init)[0 := rootId, 1 := sp_newPage split]\<rparr>"

definition bt_insert :: "string \<Rightarrow> string \<Rightarrow> btree \<Rightarrow> ((store_error + unit) \<times> btree) option" where
  "bt_insert key value t = Option.bind (insertRec key value (bt_rootId t) (bt_pool t)) (\<lambda>(r, bp).
     Some (case r of Inl e \<Rightarrow> (Inl e, t\<lparr>bt_pool := bp\<rparr>)
       | Inr None \<Rightarrow> (Inr (), t\<lparr>bt_pool := bp\<rparr>)
       | Inr (Some split) \<Rightarrow>
           (case eff_bind allocNode (\<lambda>newRootId. eff_bind (saveNode newRootId (new_root (bt_rootId t) split))
                (\<lambda>_. eff_return newRootId)) bp of
              (Inl e, bp1) \<Rightarrow> (Inl e, t\<lparr>bt_pool := bp1\<rparr>)
            | (Inr newRootId, bp1) \<Rightarrow> (Inr (), \<lparr>bt_pool = bp1, bt_rootId = newRootId\<rparr>))))"

section \<open>The store of nodes\<close>

text \<open>
  What the tree may expect of loading, saving and allocating: a store that maps page numbers to
  nodes. The pool provides it for the pages that hold a node.
\<close>

definition fresh_node :: btnode where
  "fresh_node = BTreeNode_init\<lparr>bn_isLeaf := False\<rparr>"

locale node_store =
  fixes idle :: "'s \<Rightarrow> bool"
    and nodes :: "'s \<Rightarrow> page_id \<rightharpoonup> btnode"
    and pages :: "'s \<Rightarrow> page_id"
    and load :: "page_id \<Rightarrow> ('s, btnode) eff"
    and save :: "page_id \<Rightarrow> btnode \<Rightarrow> ('s, unit) eff"
    and alloc :: "('s, page_id) eff"
  assumes nodes_dom: "idle s \<Longrightarrow> nodes s pid \<noteq> None \<Longrightarrow> pid < pages s"
    and load_ok: "idle s \<Longrightarrow> nodes s pid = Some n \<Longrightarrow>
      \<exists>s'. load pid s = (Inr n, s') \<and> idle s' \<and> nodes s' = nodes s \<and> pages s' = pages s"
    and save_ok: "idle s \<Longrightarrow> nodes s pid \<noteq> None \<Longrightarrow> node_fits n \<Longrightarrow>
      \<exists>s'. save pid n s = (Inr (), s') \<and> idle s' \<and> nodes s' = (nodes s)(pid \<mapsto> node_norm n) \<and> pages s' = pages s"
    and alloc_ok: "idle s \<Longrightarrow> pages s \<noteq> INVALID_PAGE_ID \<Longrightarrow>
      \<exists>s'. alloc s = (Inr (pages s), s') \<and> idle s' \<and> nodes s' = (nodes s)(pages s \<mapsto> fresh_node) \<and>
        pages s' = pages s + 1"
begin

text \<open>A new node: its page is allocated and it is saved there.\<close>

lemma alloc_save:
  assumes "idle s" "pages s \<noteq> INVALID_PAGE_ID" "node_fits n"
  shows "\<exists>s'. eff_bind alloc (\<lambda>p. eff_bind (save p n) (\<lambda>_. eff_return p)) s = (Inr (pages s), s') \<and> idle s' \<and>
    nodes s' = (nodes s)(pages s \<mapsto> node_norm n) \<and> pages s' = pages s + 1"
proof -
  obtain s1 where s1: "alloc s = (Inr (pages s), s1)" "idle s1" "nodes s1 = (nodes s)(pages s \<mapsto> fresh_node)" "pages s1 = pages s + 1"
    using alloc_ok [OF assms(1,2)] by blast
  then have "nodes s1 (pages s) \<noteq> None" by simp
  with save_ok [OF s1(2) _ assms(3)] obtain s2 where "save (pages s) n s1 = (Inr (), s2)" "idle s2"
    "nodes s2 = (nodes s1)(pages s \<mapsto> node_norm n)" "pages s2 = pages s1" by blast
  with s1 show ?thesis by simp
qed

text \<open>A split: a page is allocated, the old node is saved with a link to it, then the new one.\<close>

lemma split_saves:
  assumes "idle s" "pages s \<noteq> INVALID_PAGE_ID" "nodes s pid \<noteq> None" "\<And>p. node_fits (left p)" "node_fits right"
  shows "\<exists>s'. eff_bind alloc (\<lambda>p. eff_bind (save pid (left p)) (\<lambda>_. eff_bind (save p right) (\<lambda>_. eff_return (f p)))) s =
      (Inr (f (pages s)), s') \<and> idle s' \<and> pages s' = pages s + 1 \<and>
    nodes s' = (nodes s)(pid \<mapsto> node_norm (left (pages s)), pages s \<mapsto> node_norm right)"
proof -
  let ?p = "pages s"
  have ne: "pid \<noteq> ?p" using nodes_dom [OF assms(1,3)] by auto
  obtain s1 where s1: "alloc s = (Inr ?p, s1)" "idle s1" "nodes s1 = (nodes s)(?p \<mapsto> fresh_node)" "pages s1 = ?p + 1"
    using alloc_ok [OF assms(1,2)] by blast
  then have "nodes s1 pid \<noteq> None" using assms(3) by simp
  from save_ok [OF s1(2) this assms(4)] obtain s2 where s2: "save pid (left ?p) s1 = (Inr (), s2)" "idle s2"
    "nodes s2 = (nodes s1)(pid \<mapsto> node_norm (left ?p))" "pages s2 = pages s1" by blast
  then have "nodes s2 ?p \<noteq> None" using s1(3) by simp
  from save_ok [OF s2(2) this assms(5)] obtain s3 where s3: "save ?p right s2 = (Inr (), s3)" "idle s3"
    "nodes s3 = (nodes s2)(?p \<mapsto> node_norm right)" "pages s3 = pages s2" by blast
  from s1(3) s2(3) s3(3) have "nodes s3 = (nodes s)(pid \<mapsto> node_norm (left ?p), ?p \<mapsto> node_norm right)"
    using ne by (simp add: fun_upd_twist)
  with s1 s2 s3 show ?thesis by simp
qed

end

definition node_view :: "pool \<Rightarrow> page_id \<rightharpoonup> btnode" where
  "node_view bp pid = (case bp_view bp pid of None \<Rightarrow> None | Some data \<Rightarrow>
     if node_page data then (case node_deserialize data of Inl _ \<Rightarrow> None | Inr n \<Rightarrow> Some n) else None)"

lemma node_view_Some:
  assumes "node_view bp pid = Some n"
  obtains data where "bp_view bp pid = Some data" "node_page data" "node_deserialize data = Inr n"
  using assms by (auto simp: node_view_def split: option.splits if_splits sum.splits)

lemma node_view_upd:
  "bp_view bp' = (bp_view bp)(pid \<mapsto> data) \<Longrightarrow> node_page data \<Longrightarrow> node_deserialize data = Inr n \<Longrightarrow>
   node_view bp' = (node_view bp)(pid \<mapsto> n)"
  by (simp add: fun_eq_iff node_view_def)

lemma loadNode_ok:
  assumes "pool_idle bp" "node_view bp pid = Some n"
  shows "\<exists>bp'. loadNode pid bp = (Inr n, bp') \<and> pool_idle bp' \<and> node_view bp' = node_view bp \<and>
    dk_pageCount (bp_disk bp') = dk_pageCount (bp_disk bp)"
proof -
  from assms(2) obtain data where data: "bp_view bp pid = Some data" "node_deserialize data = Inr n" by (rule node_view_Some)
  show ?thesis by (rule client_fetch [OF assms(1) data(1)]) (simp add: loadNode_def data(2) node_view_def same_store_def fun_eq_iff)
qed

lemma saveNode_ok:
  assumes "pool_idle bp" "node_view bp pid \<noteq> None" "node_fits n"
  shows "\<exists>bp'. saveNode pid n bp = (Inr (), bp') \<and> pool_idle bp' \<and> node_view bp' = (node_view bp)(pid \<mapsto> node_norm n) \<and>
    dk_pageCount (bp_disk bp') = dk_pageCount (bp_disk bp)"
proof -
  from assms(2) obtain data where data: "bp_view bp pid = Some data" "node_page data" using node_view_Some by blast
  obtain data' where data': "node_serialize n data = Inr data'" "node_page data'" "node_deserialize data' = Inr (node_norm n)"
    using node_serialize_reads [OF assms(3) data(2)] by blast
  show ?thesis
  proof (rule client_fetch [OF assms(1) data(1)])
    fix bp1 assume f: "fetchPage pid bp = (Inr (), bp1)" "page_data pid bp1 = data"
      and w: "\<And>data'. length data' = PAGE_SIZE \<Longrightarrow> pool_idle (unpin pid True (poke pid data' bp1)) \<and>
        bp_view (unpin pid True (poke pid data' bp1)) = (bp_view bp)(pid \<mapsto> data') \<and>
        dk_pageCount (bp_disk (unpin pid True (poke pid data' bp1))) = dk_pageCount (bp_disk bp)"
    have "length data' = PAGE_SIZE" using data'(2) by (simp add: node_page_def)
    from w [OF this] show ?thesis using f data' by (auto simp: saveNode_def intro: node_view_upd)
  qed
qed

lemma fresh_deserialize: "node_deserialize (page_bytes pid) = Inr fresh_node"
  unfolding node_deserialize_def page_bytes_body
  by (simp add: ss_word_def ss_int_def ss_number_def ss_pageId_def BTreeNode_init_def fresh_node_def eval_nat_numeral)

lemma allocNode_ok:
  assumes "pool_idle bp" "dk_pageCount (bp_disk bp) \<noteq> INVALID_PAGE_ID"
  shows "\<exists>bp'. allocNode bp = (Inr (dk_pageCount (bp_disk bp)), bp') \<and> pool_idle bp' \<and>
    node_view bp' = (node_view bp)(dk_pageCount (bp_disk bp) \<mapsto> fresh_node) \<and>
    dk_pageCount (bp_disk bp') = dk_pageCount (bp_disk bp) + 1"
proof -
  have "allocNode = pool_new" by (simp add: allocNode_def pool_new_def)
  with pool_new_ok [OF assms] show ?thesis
    using node_view_upd [OF _ node_page_fresh fresh_deserialize] by auto
qed

interpretation pool_nodes: node_store pool_idle node_view "\<lambda>bp. dk_pageCount (bp_disk bp)" loadNode saveNode allocNode
proof (unfold_locales, goal_cases)
  case (1 s pid)
  then show ?case using pool_store.view_dom [of s pid] by (auto simp: node_view_def split: option.splits)
next
  case (2 s pid n)
  then show ?case by (rule loadNode_ok)
next
  case (3 s pid n)
  then show ?case by (rule saveNode_ok)
next
  case (4 s)
  then show ?case by (rule allocNode_ok)
qed

end
