(* ===== verification/Btree_Shape.thy ===== *)
theory Btree_Shape
  imports Btree
begin

text \<open>
  What the B-tree's pages say: the trees they represent (\<open>btree_shape\<close>), and what the code's
  steps on one node do to them. A separator is the first key of the subtree right of it.
\<close>

section \<open>Entries\<close>

type_synonym entry = "string \<times> string"

text \<open>Words short enough that a full node's text stays inside its page.\<close>

definition word_fits :: "string \<Rightarrow> bool" where
  "word_fits w \<longleftrightarrow> word_ok w \<and> length w \<le> 500"

definition entry_ok :: "entry \<Rightarrow> bool" where
  "entry_ok kv \<longleftrightarrow> word_fits (fst kv) \<and> word_fits (snd kv)"

definition insert_entry :: "string \<Rightarrow> string \<Rightarrow> entry list \<Rightarrow> entry list" where
  "insert_entry k v es = takeWhile (\<lambda>kv. fst kv \<le> k) es @ (k, v) # dropWhile (\<lambda>kv. fst kv \<le> k) es"

lemma length_insert_entry [simp]: "length (insert_entry k v es) = Suc (length es)"
proof -
  have "length es = length (takeWhile (\<lambda>kv. fst kv \<le> k) es @ dropWhile (\<lambda>kv. fst kv \<le> k) es)" by simp
  then show ?thesis unfolding insert_entry_def length_append by simp
qed

lemma insert_entry_not_Nil [simp]: "insert_entry k v es \<noteq> []"
  by (simp add: insert_entry_def)

lemma mset_insert_entry: "mset (insert_entry k v es) = {#(k, v)#} + mset es"
proof -
  have "mset es = mset (takeWhile (\<lambda>kv. fst kv \<le> k) es @ dropWhile (\<lambda>kv. fst kv \<le> k) es)" by simp
  then show ?thesis unfolding insert_entry_def by (simp only: mset_append mset.simps) simp
qed

lemma set_insert_entry [simp]: "set (insert_entry k v es) = insert (k, v) (set es)"
  using mset_insert_entry [of k v es] by (metis add_mset_add_single set_mset_add_mset_insert set_mset_mset union_commute)

lemma sorted_insert_entry: "sorted (map fst es) \<Longrightarrow> sorted (map fst (insert_entry k v es))"
proof (induction es)
  case Nil
  then show ?case by (simp add: insert_entry_def)
next
  case (Cons e es)
  then have "insert_entry k v (e # es) = (if fst e \<le> k then e # insert_entry k v es else (k, v) # e # es)"
    by (simp add: insert_entry_def)
  with Cons show ?case by (auto intro: order.trans [of k "fst e"])
qed

lemma insert_entry_middle:
  assumes "\<forall>x\<in>set xs. fst x \<le> k" "\<forall>z\<in>set zs. k < fst z"
  shows "insert_entry k v (xs @ ys @ zs) = xs @ insert_entry k v ys @ zs"
proof -
  have "takeWhile (\<lambda>kv. fst kv \<le> k) zs = []" "dropWhile (\<lambda>kv. fst kv \<le> k) zs = zs"
    using assms(2) by (cases zs; auto)+
  then have "takeWhile (\<lambda>kv. fst kv \<le> k) (ys @ zs) = takeWhile (\<lambda>kv. fst kv \<le> k) ys"
    "dropWhile (\<lambda>kv. fst kv \<le> k) (ys @ zs) = dropWhile (\<lambda>kv. fst kv \<le> k) ys @ zs"
    by (induction ys) auto
  then show ?thesis using assms(1) by (simp add: insert_entry_def takeWhile_append2 dropWhile_append2)
qed

lemma hd_insert_entry: "es \<noteq> [] \<Longrightarrow> fst (hd es) \<le> k \<Longrightarrow> hd (insert_entry k v es) = hd es"
  by (cases es) (simp_all add: insert_entry_def)

section \<open>Nodes as they are stored\<close>

definition fill :: "nat \<Rightarrow> 'a \<Rightarrow> 'a list \<Rightarrow> 'a list" where
  "fill k x xs = xs @ replicate (k - length xs) x"

lemma length_fill [simp]: "length xs \<le> k \<Longrightarrow> length (fill k x xs) = k"
  by (simp add: fill_def)

lemma take_fill [simp]: "n = length xs \<Longrightarrow> take n (fill k x xs) = xs"
  by (simp add: fill_def)

lemma nth_fill [simp]: "i < length xs \<Longrightarrow> fill k x xs ! i = xs ! i"
  by (simp add: fill_def nth_append)

definition leaf_node :: "entry list \<Rightarrow> page_id \<Rightarrow> btnode" where
  "leaf_node es nx = BTreeNode_init\<lparr>bn_keyCount := int (length es), bn_keys := fill 5 [] (map fst es),
     bn_values := fill 5 [] (map snd es), bn_nextLeaf := nx\<rparr>"

definition inner_node :: "string list \<Rightarrow> page_id list \<Rightarrow> btnode" where
  "inner_node ks cs = BTreeNode_init\<lparr>bn_isLeaf := False, bn_keyCount := int (length ks), bn_keys := fill 5 [] ks,
     bn_children := fill 6 0 cs\<rparr>"

lemma node_shapes [simp]:
  "bn_isLeaf (leaf_node es nx)" "bn_keyCount (leaf_node es nx) = int (length es)" "bn_nextLeaf (leaf_node es nx) = nx"
  "bn_keys (leaf_node es nx) = fill 5 [] (map fst es)" "bn_values (leaf_node es nx) = fill 5 [] (map snd es)"
  "\<not> bn_isLeaf (inner_node ks cs)" "bn_keyCount (inner_node ks cs) = int (length ks)"
  "bn_keys (inner_node ks cs) = fill 5 [] ks" "bn_children (inner_node ks cs) = fill 6 0 cs"
  by (simp_all add: leaf_node_def inner_node_def BTreeNode_init_def)

lemma init_leaf: "BTreeNode_init = leaf_node [] INVALID_PAGE_ID"
  by (simp add: leaf_node_def BTreeNode_init_def fill_def)

lemma init_arrays: "length (bn_keys BTreeNode_init) = 5" "length (bn_children BTreeNode_init) = 6"
  "length (bn_values BTreeNode_init) = 5"
  by (simp_all add: BTreeNode_init_def)

text \<open>What a node with more in its arrays than its count is read back as.\<close>

lemma norm_leaf:
  assumes "bn_isLeaf n" "bn_keyCount n = int c" "c \<le> 5" "length (bn_keys n) = 5" "length (bn_values n) = 5"
    "take c (bn_keys n) = map fst es" "take c (bn_values n) = map snd es"
  shows "node_norm n = leaf_node es (bn_nextLeaf n)"
proof -
  have "length es = length (take c (bn_keys n))" using assms(6) by simp
  then have "length es = c" using assms(3,4) by simp
  with assms show ?thesis by (simp add: node_norm_def leaf_node_def Let_def fill_def BTreeNode_init_def)
qed

lemma norm_inner:
  assumes "\<not> bn_isLeaf n" "bn_keyCount n = int c" "c \<le> 5" "length (bn_keys n) = 5" "length (bn_children n) = 6"
    "take c (bn_keys n) = ks" "take (Suc c) (bn_children n) = cs"
  shows "node_norm n = inner_node ks cs"
proof -
  have "length ks = length (take c (bn_keys n))" "length cs = length (take (Suc c) (bn_children n))"
    using assms(6,7) by simp_all
  then have "length ks = c" "length cs = Suc c" using assms(3-5) by simp_all
  with assms show ?thesis by (simp add: node_norm_def inner_node_def Let_def fill_def BTreeNode_init_def)
qed

text \<open>Their text fits a page.\<close>

lemma as_lines_length: "\<forall>w\<in>set ws. length w \<le> n \<Longrightarrow> length (as_lines ws) \<le> length ws * Suc n"
  by (induction ws) (auto simp: as_lines_simps newline_def)

lemma pageId_text_length: "length (pageId_text pid) \<le> 10"
proof -
  have "length (nat_to_string n) \<le> k" if "n < 10 ^ k" "0 < k" for n k
    using that
  proof (induction n arbitrary: k rule: nat_to_string.induct)
    case (1 n)
    show ?case
    proof (cases "n < 10")
      case True
      then show ?thesis using 1(3) by (simp add: nat_to_string.simps)
    next
      case False
      obtain k' where k: "k = Suc k'" using 1(3) by (cases k) auto
      have k': "k = Suc k'" "0 < k'" using 1(2) False k by (simp, cases k', simp_all)
      then have "n div 10 < 10 ^ k'" using 1(2) by (simp add: div_less_iff_less_mult mult.commute)
      from 1(1) [OF False this k'(2)] show ?thesis using False k' by (simp add: nat_to_string.simps [of n])
    qed
  qed
  moreover have "unat pid < 2 ^ LENGTH(32)" by (rule unsigned_less)
  ultimately show ?thesis by (simp add: pageId_text_def)
qed

lemma node_fits_leaf:
  assumes "list_all entry_ok es" "length es \<le> 4"
  shows "node_fits (leaf_node es nx)"
proof -
  have fit: "\<forall>w\<in>set (map fst es). word_fits w" "\<forall>w\<in>set (map snd es). word_fits w"
    using assms(1) by (auto simp: list_all_iff entry_ok_def)
  have count: "length (int_to_string (int (length es))) \<le> 10"
    using pageId_text_length [of "of_nat (length es)"] assms(2)
    by (simp add: int_to_string_def pageId_text_def unat_of_nat)
  have "length (as_lines (map fst es)) \<le> 4 * 501" "length (as_lines (map snd es)) \<le> 4 * 501"
    using as_lines_length [of "map fst es" 500] as_lines_length [of "map snd es" 500] fit assms(2)
    by (auto simp: word_fits_def)
  then have "length (node_text (leaf_node es nx)) < 4084"
    using count pageId_text_length [of nx] by (simp add: node_text_def Let_def as_lines_simps newline_def)
  moreover have "node_ok (leaf_node es nx)" using fit assms(2)
    by (auto simp: node_ok_def list_all_iff word_fits_def leaf_node_def init_arrays)
  ultimately show ?thesis by (simp add: node_fits_def)
qed

lemma node_fits_inner:
  assumes "list_all word_fits ks" "length ks \<le> 4" "length cs = Suc (length ks)"
  shows "node_fits (inner_node ks cs)"
proof -
  have count: "length (int_to_string (int (length ks))) \<le> 10"
    using pageId_text_length [of "of_nat (length ks)"] assms(2)
    by (simp add: int_to_string_def pageId_text_def unat_of_nat)
  have "length (as_lines ks) \<le> 4 * 501"
    using as_lines_length [of ks 500] assms(1,2) by (auto simp: word_fits_def list_all_iff)
  moreover have "length (as_lines (map pageId_text cs)) \<le> 5 * 11"
    using as_lines_length [of "map pageId_text cs" 10] pageId_text_length assms(2,3) by auto
  ultimately have "length (node_text (inner_node ks cs)) < 4084"
    using count assms(3) by (simp add: node_text_def Let_def as_lines_simps newline_def nat_add_distrib)
  moreover have "node_ok (inner_node ks cs)" using assms
    by (auto simp: node_ok_def list_all_iff word_fits_def inner_node_def init_arrays BTreeNode_init_def)
  ultimately show ?thesis by (simp add: node_fits_def)
qed

text \<open>So does that of a node that has old entries behind its count.\<close>

lemma leaf_fits:
  assumes "bn_isLeaf n" "bn_keyCount n = int c" "c \<le> 4" "length (bn_keys n) = 5" "length (bn_values n) = 5"
    "take c (bn_keys n) = map fst es" "take c (bn_values n) = map snd es" "length (bn_children n) = 6" "list_all entry_ok es"
  shows "node_fits n"
proof -
  have "length es = length (take c (bn_keys n))" using assms(6) by simp
  then have c: "length es = c" using assms(3,4) by simp
  with node_fits_leaf [OF assms(9), of "bn_nextLeaf n"] assms(3) have f: "node_fits (leaf_node es (bn_nextLeaf n))" by simp
  have "node_text n = node_text (leaf_node es (bn_nextLeaf n))" using assms(1,2,6,7) c by (simp add: node_text_def)
  with f show ?thesis using assms c by (auto simp: node_fits_def node_ok_def)
qed

lemma inner_fits:
  assumes "\<not> bn_isLeaf n" "bn_keyCount n = int c" "c \<le> 4" "length (bn_keys n) = 5" "length (bn_children n) = 6"
    "take c (bn_keys n) = ks" "take (Suc c) (bn_children n) = cs" "length (bn_values n) = 5" "list_all word_fits ks"
  shows "node_fits n"
proof -
  have "length ks = length (take c (bn_keys n))" "length cs = length (take (Suc c) (bn_children n))"
    using assms(6,7) by simp_all
  then have c: "length ks = c" "length cs = Suc c" using assms(3-5) by simp_all
  with node_fits_inner [OF assms(9), of cs] assms(3) have f: "node_fits (inner_node ks cs)" by simp
  have "node_text n = node_text (inner_node ks cs)" using assms(1,2,6,7) c by (simp add: node_text_def nat_add_distrib)
  with f show ?thesis using assms c by (auto simp: node_fits_def node_ok_def)
qed

section \<open>The steps on one node\<close>

lemma child_index_inner: "child_index key (inner_node ks cs) = length (takeWhile (\<lambda>k. k \<le> key) ks)"
  by (simp add: child_index_def)

lemma find_value_map_of: "find_value key (map fst es) (fill 5 [] (map snd es)) = map_of es key"
proof -
  have "find_value key (map fst es) (map snd es @ r) = map_of es key" for r by (induction es) auto
  then show ?thesis by (simp add: fill_def)
qed

lemma leaf_shift_run:
  "\<forall>c\<in>set cs. key < c \<Longrightarrow> bs = [] \<or> last bs \<le> key \<Longrightarrow> length cv = length cs \<Longrightarrow> length bv = length bs \<Longrightarrow>
   \<exists>z w. leaf_shift key (length bs + length cs) (bs @ cs @ x # r) (bv @ cv @ y # s) =
     (length bs, bs @ z # cs @ r, bv @ w # cv @ s)"
proof (induction cs arbitrary: cv x r y s rule: rev_induct)
  case Nil
  show ?case
  proof (cases bs rule: rev_cases)
    case (snoc bs' b)
    then show ?thesis using Nil by (auto simp: nth_append)
  qed (use Nil in auto)
next
  case (snoc c cs)
  obtain cv' v where cv: "cv = cv' @ [v]" "length cv' = length cs" using snoc.prems(3) by (cases cv rule: rev_cases) auto
  have "leaf_shift key (length bs + length (cs @ [c])) (bs @ (cs @ [c]) @ x # r) (bv @ cv @ y # s) =
    leaf_shift key (length bs + length cs) (bs @ cs @ c # c # r) (bv @ cv' @ v # v # s)"
    using snoc.prems cv by (simp add: nth_append list_update_append)
  with snoc.IH [of cv' c "c # r" v "v # s"] snoc.prems cv show ?case by auto
qed

lemma leaf_insert_leaf:
  assumes "sorted (map fst es)" "length es \<le> 4"
  shows "leaf_insert k v (leaf_node es nx) = Inr (leaf_node (insert_entry k v es) nx)"
proof -
  let ?b = "takeWhile (\<lambda>kv. fst kv \<le> k) es" and ?c = "dropWhile (\<lambda>kv. fst kv \<le> k) es"
  have es: "es = ?b @ ?c" by simp
  have c: "\<forall>x\<in>set (map fst ?c). k < x"
  proof (cases ?c)
    case (Cons e c)
    then have "\<not> fst e \<le> k" using hd_dropWhile [of "\<lambda>kv. fst kv \<le> k" es] by auto
    moreover have "sorted (map fst (e # c))" using assms(1) es Cons by (metis map_append sorted_append)
    ultimately have "\<forall>x\<in>set (map fst (e # c)). k < x" by auto
    then show ?thesis unfolding Cons .
  next
    case Nil
    show ?thesis unfolding Nil by simp
  qed
  have b: "map fst ?b = [] \<or> last (map fst ?b) \<le> k"
    using set_takeWhileD [OF last_in_set, of "\<lambda>kv. fst kv \<le> k" es] by (cases "?b = []") (auto simp: last_map)
  obtain n where n: "5 - length es = Suc n" using assms(2) by (cases "5 - length es") auto
  have f: "fill 5 [] (map fst es) = map fst ?b @ map fst ?c @ [] # replicate n []"
    "fill 5 [] (map snd es) = map snd ?b @ map snd ?c @ [] # replicate n []"
    by (simp_all add: fill_def n flip: map_append append_assoc)
  have len: "length es = length (map fst ?b) + length (map fst ?c)" using arg_cong [OF es, of length]
    unfolding length_append length_map .
  from leaf_shift_run [OF c b, of "map snd ?c" "map snd ?b" "[]" "replicate n []" "[]" "replicate n []"]
  obtain z w where "leaf_shift k (length es) (fill 5 [] (map fst es)) (fill 5 [] (map snd es)) =
      (length ?b, map fst ?b @ z # map fst ?c @ replicate n [], map snd ?b @ w # map snd ?c @ replicate n [])"
    unfolding f len by auto
  moreover have "5 - length (insert_entry k v es) = n" using n by simp
  ultimately show ?thesis using assms(2)
    by (simp add: leaf_insert_def leaf_node_def BTreeNode_init_def fill_def) (simp add: insert_entry_def list_update_append)
qed

lemma inner_shift_run:
  "length bs = i \<Longrightarrow> length ds = Suc i \<Longrightarrow> length cv = length cs \<Longrightarrow>
   \<exists>z w. inner_shift i (i + length cs) (bs @ cs @ x # r) (ds @ cv @ y # s) = (bs @ z # cs @ r, ds @ w # cv @ s)"
proof (induction cs arbitrary: cv x r y s rule: rev_induct)
  case Nil
  then show ?case by (cases i) auto
next
  case (snoc c cs)
  obtain cv' v where cv: "cv = cv' @ [v]" "length cv' = length cs" using snoc.prems(3) by (cases cv rule: rev_cases) auto
  have "inner_shift i (i + length (cs @ [c])) (bs @ (cs @ [c]) @ x # r) (ds @ cv @ y # s) =
    inner_shift i (i + length cs) (bs @ cs @ c # c # r) (ds @ cv' @ v # v # s)"
    using snoc.prems cv by (simp add: nth_append list_update_append)
  with snoc.IH [of cv' c "c # r" v "v # s"] snoc.prems cv show ?case by auto
qed

lemma inner_insert_inner:
  assumes "length ks1 = i" "length cs1 = i" "length ks1 + length ks2 \<le> 4" "length cs2 = length ks2"
  shows "inner_insert i split (inner_node (ks1 @ ks2) (cs1 @ c # cs2)) =
    Inr (inner_node (ks1 @ sp_key split # ks2) (cs1 @ c # sp_newPage split # cs2))"
proof -
  obtain n where n: "5 - (length ks1 + length ks2) = Suc n" using assms(3) by (cases "5 - (length ks1 + length ks2)") auto
  have f: "fill 5 [] (ks1 @ ks2) = ks1 @ ks2 @ [] # replicate n []"
    "fill 6 0 (cs1 @ c # cs2) = (cs1 @ [c]) @ cs2 @ 0 # replicate n 0"
    using n assms by (simp_all add: fill_def)
  from inner_shift_run [of ks1 i "cs1 @ [c]" cs2 ks2 "[]" "replicate n []" 0 "replicate n 0"] assms
  obtain z w where "inner_shift i (length ks1 + length ks2) (fill 5 [] (ks1 @ ks2)) (fill 6 0 (cs1 @ c # cs2)) =
      (ks1 @ z # ks2 @ replicate n [], (cs1 @ [c]) @ w # cs2 @ replicate n 0)" unfolding f by auto
  moreover have "5 - length (ks1 @ sp_key split # ks2) = n" "6 - length (cs1 @ c # sp_newPage split # cs2) = n"
    using n assms by simp_all
  ultimately show ?thesis using assms
    by (simp add: inner_insert_def inner_node_def BTreeNode_init_def nat_add_distrib fill_def list_update_append)
qed

lemma right_half_leaf: "length es = 5 \<Longrightarrow> right_half (leaf_node es nx) = leaf_node (drop 2 es) nx"
  by (simp add: right_half_def leaf_node_def Let_def drop_map fill_def BTreeNode_init_def)

lemma right_half_inner: "length ks = 5 \<Longrightarrow> length cs = 6 \<Longrightarrow>
   right_half (inner_node ks cs) = inner_node (drop 3 ks) (drop 3 cs)"
  by (simp add: right_half_def inner_node_def Let_def fill_def BTreeNode_init_def)

end
