(* ===== verification/Btree_Insert.thy ===== *)
theory Btree_Insert
  imports Btree_Shape
begin

text \<open>
  Insertion into the B-tree: the pages below a root represent a tree (\<open>repr\<close>), in which every
  leaf is linked to the next one, and \<open>insertRec\<close> turns it into one or two trees with the entry
  in its place. \<open>btree_holds\<close> is the tree's invariant: it represents a sorted list of tree_entries.
\<close>

section \<open>Trees of pages\<close>

datatype shape = BLeaf page_id "entry list" | BNode page_id "shape list"

fun root_of :: "shape \<Rightarrow> page_id" where
  "root_of (BLeaf p es) = p"
| "root_of (BNode p ts) = p"

fun leaves :: "shape \<Rightarrow> (page_id \<times> entry list) list" where
  "leaves (BLeaf p es) = [(p, es)]"
| "leaves (BNode p ts) = concat (map leaves ts)"

definition leaves_of :: "shape list \<Rightarrow> (page_id \<times> entry list) list" where
  "leaves_of ts = concat (map leaves ts)"

definition tree_entries :: "shape \<Rightarrow> entry list" where
  "tree_entries t = concat (map snd (leaves t))"

definition entries_of :: "shape list \<Rightarrow> entry list" where
  "entries_of ts = concat (map tree_entries ts)"

fun tree_pages :: "shape \<Rightarrow> page_id list" where
  "tree_pages (BLeaf p es) = [p]"
| "tree_pages (BNode p ts) = p # concat (map tree_pages ts)"

definition pages_of :: "shape list \<Rightarrow> page_id list" where
  "pages_of ts = concat (map tree_pages ts)"

fun depth :: "shape \<Rightarrow> nat" where
  "depth (BLeaf p es) = 1"
| "depth (BNode p ts) = Suc (fold (\<lambda>t. max (depth t)) ts 0)"

definition first_key :: "shape \<Rightarrow> string" where
  "first_key t = fst (hd (tree_entries t))"

fun tree_ok :: "shape \<Rightarrow> bool" where
  "tree_ok (BLeaf p es) \<longleftrightarrow> length es \<le> 4 \<and> list_all entry_ok es"
| "tree_ok (BNode p ts) \<longleftrightarrow> 2 \<le> length ts \<and> length ts \<le> 5 \<and> (\<forall>t\<in>set ts. tree_ok t \<and> tree_entries t \<noteq> [])"

text \<open>
  The pages \<open>m\<close> represent the tree, whose last leaf is linked to \<open>e\<close>: each leaf is linked to the
  next one.
\<close>

definition link :: "shape list \<Rightarrow> page_id \<Rightarrow> page_id" where
  "link ts e = (case leaves_of ts of [] \<Rightarrow> e | l # _ \<Rightarrow> fst l)"

fun repr :: "(page_id \<rightharpoonup> btnode) \<Rightarrow> shape \<Rightarrow> page_id \<Rightarrow> bool"
  and repr_list :: "(page_id \<rightharpoonup> btnode) \<Rightarrow> shape list \<Rightarrow> page_id \<Rightarrow> bool" where
  "repr m (BLeaf p es) e \<longleftrightarrow> m p = Some (leaf_node es e)"
| "repr m (BNode p ts) e \<longleftrightarrow> m p = Some (inner_node (map first_key (tl ts)) (map root_of ts)) \<and> repr_list m ts e"
| "repr_list m [] e \<longleftrightarrow> True"
| "repr_list m (t # ts) e \<longleftrightarrow> repr m t (link ts e) \<and> repr_list m ts e"

lemma of_simps [simp]:
  "leaves_of [] = []" "leaves_of (t # ts) = leaves t @ leaves_of ts" "leaves_of (ts @ us) = leaves_of ts @ leaves_of us"
  "entries_of [] = []" "entries_of (t # ts) = tree_entries t @ entries_of ts" "entries_of (ts @ us) = entries_of ts @ entries_of us"
  "pages_of [] = []" "pages_of (t # ts) = tree_pages t @ pages_of ts" "pages_of (ts @ us) = pages_of ts @ pages_of us"
  by (simp_all add: leaves_of_def entries_of_def pages_of_def)

lemma node_parts [simp]:
  "leaves (BNode p ts) = leaves_of ts" "tree_pages (BNode p ts) = p # pages_of ts"
  "tree_entries (BLeaf p es) = es"
  by (simp_all add: leaves_of_def pages_of_def tree_entries_def)

lemma entries_leaves_of: "concat (map snd (leaves_of ts)) = entries_of ts"
  by (induction ts) (simp_all add: tree_entries_def)

lemma entries_node [simp]: "tree_entries (BNode p ts) = entries_of ts"
  unfolding tree_entries_def [of "BNode p ts"] node_parts(1) by (rule entries_leaves_of)

declare leaves.simps(2) [simp del] tree_pages.simps(2) [simp del]

lemma entries_of_empty: "\<forall>t\<in>set ts. tree_entries t \<noteq> [] \<Longrightarrow> entries_of ts = [] \<longleftrightarrow> ts = []"
  by (cases ts) auto

lemma set_parts: "set (entries_of ts) = (\<Union>t\<in>set ts. set (tree_entries t))" "set (pages_of ts) = (\<Union>t\<in>set ts. set (tree_pages t))"
  by (simp_all add: entries_of_def pages_of_def)

lemma leaves_not_Nil: "tree_ok t \<Longrightarrow> leaves t \<noteq> []"
proof (induction t)
  case (BNode p ts)
  then obtain t where "t \<in> set ts" by (cases ts) auto
  then show ?case using BNode by (auto simp: leaves_of_def)
qed simp

lemma depth_child: "t \<in> set ts \<Longrightarrow> depth t < depth (BNode p ts)"
proof -
  have mono: "d \<le> fold (\<lambda>t. max (depth t)) ts d" for ts :: "shape list" and d
    by (induction ts arbitrary: d) (auto intro: order.trans [OF max.cobounded2])
  have "t \<in> set ts \<Longrightarrow> depth t \<le> fold (\<lambda>t. max (depth t)) ts d" for d
    by (induction ts arbitrary: d) (auto intro: order.trans [OF max.cobounded1 mono])
  then show "t \<in> set ts \<Longrightarrow> depth t < depth (BNode p ts)" by (simp add: less_Suc_eq_le)
qed

lemma depth_bound: "\<forall>t\<in>set ts. depth t \<le> d \<Longrightarrow> depth (BNode p ts) \<le> Suc d"
proof -
  have "\<forall>t\<in>set ts. depth t \<le> d \<Longrightarrow> e \<le> d \<Longrightarrow> fold (\<lambda>t. max (depth t)) ts e \<le> d" for e
    by (induction ts arbitrary: e) auto
  then show "\<forall>t\<in>set ts. depth t \<le> d \<Longrightarrow> depth (BNode p ts) \<le> Suc d" by simp
qed

lemma tree_words: "tree_ok t \<Longrightarrow> list_all entry_ok (tree_entries t)"
proof (induction t)
  case (BNode p ts)
  then show ?case by (auto simp: list_all_iff set_parts)
qed simp

lemma first_key_ok: "tree_ok t \<Longrightarrow> tree_entries t \<noteq> [] \<Longrightarrow> word_fits (first_key t)"
  using tree_words [of t] by (cases "tree_entries t") (auto simp: first_key_def entry_ok_def)

lemma in_set_tlD: "x \<in> set (tl xs) \<Longrightarrow> x \<in> set xs"
  by (cases xs) simp_all

text \<open>Lists of subtrees: appending, and changing pages that are not theirs.\<close>

lemma link_append: "\<forall>t\<in>set ts. tree_ok t \<Longrightarrow> link (ts @ us) e = link ts (link us e)"
proof (cases ts)
  case (Cons t vs)
  assume "\<forall>t\<in>set ts. tree_ok t"
  with Cons obtain l ls where "leaves t = l # ls" using leaves_not_Nil [of t] by (cases "leaves t") auto
  with Cons show ?thesis by (simp add: link_def)
qed (simp add: link_def)

lemma repr_list_append:
  "\<forall>t\<in>set ts. tree_ok t \<Longrightarrow> repr_list m (ts @ us) e \<longleftrightarrow> repr_list m ts (link us e) \<and> repr_list m us e"
  by (induction ts) (auto simp: link_append)

lemma repr_frame:
  "repr m t e \<Longrightarrow> (\<And>q. q \<in> set (tree_pages t) \<Longrightarrow> m' q = m q) \<Longrightarrow> repr m' t e"
  "repr_list m ts e \<Longrightarrow> (\<And>q. q \<in> set (pages_of ts) \<Longrightarrow> m' q = m q) \<Longrightarrow> repr_list m' ts e"
  by (induction m t e and m ts e rule: repr_repr_list.induct) auto

lemma repr_pages:
  "repr m t e \<Longrightarrow> q \<in> set (tree_pages t) \<Longrightarrow> m q \<noteq> None"
  "repr_list m ts e \<Longrightarrow> q \<in> set (pages_of ts) \<Longrightarrow> m q \<noteq> None"
  by (induction m t e and m ts e rule: repr_repr_list.induct) auto

lemma root_page [simp]: "root_of t \<in> set (tree_pages t)"
  by (cases t) simp_all

text \<open>The child a key leads to: everything left of it is not above the key, everything right is.\<close>

lemma child_split:
  assumes ts: "ts \<noteq> []" "\<forall>t\<in>set ts. tree_entries t \<noteq> []" and sorted: "sorted (map fst (entries_of ts))"
  obtains ts1 t ts2 where "ts = ts1 @ t # ts2"
    and "length ts1 = length (takeWhile (\<lambda>k. k \<le> key) (map first_key (tl ts)))"
    and "\<forall>x\<in>set (entries_of ts1). fst x \<le> key" "\<forall>z\<in>set (entries_of ts2). key < fst z"
    and "ts1 \<noteq> [] \<Longrightarrow> first_key t \<le> key" "\<forall>x\<in>set (entries_of ts1). fst x \<le> first_key t"
proof -
  obtain t0 us where us: "ts = t0 # us" using ts(1) by (cases ts) auto
  let ?w = "takeWhile (\<lambda>t. first_key t \<le> key) us" and ?d = "dropWhile (\<lambda>t. first_key t \<le> key) us"
  let ?l = "t0 # ?w"
  have parts: "ts = butlast ?l @ last ?l # ?d" using append_butlast_last_id [of ?l] us
    by (metis append.assoc append_Cons append_Nil list.distinct(1) takeWhile_dropWhile_id)
  have s: "sorted (map fst (entries_of (butlast ?l) @ tree_entries (last ?l) @ entries_of ?d))"
    using sorted parts by (metis of_simps(5,6))
  have ne: "tree_entries (last ?l) \<noteq> []" using ts(2) parts by (metis in_set_conv_decomp)
  then have fk: "first_key (last ?l) \<in> set (map fst (tree_entries (last ?l)))" by (simp add: first_key_def)
  have le: "\<forall>x\<in>set (entries_of (butlast ?l)). fst x \<le> first_key (last ?l)"
    using s fk by (auto simp: sorted_append)
  have k: "first_key (last ?l) \<le> key" if "butlast ?l \<noteq> []"
    using that set_takeWhileD [OF last_in_set, of "\<lambda>t. first_key t \<le> key" us] by (auto split: if_splits)
  have d: "\<forall>z\<in>set (entries_of ?d). key < fst z"
  proof (cases ?d)
    case (Cons u vs)
    then have u: "key < first_key u" using hd_dropWhile [of "\<lambda>t. first_key t \<le> key" us] by auto
    obtain e es where e: "tree_entries u = e # es" using ts(2) parts Cons by (cases "tree_entries u") auto
    have "sorted (map fst (entries_of ?d))" using s by (simp add: sorted_append)
    then have "\<forall>z\<in>set (es @ entries_of vs). fst e \<le> fst z" using Cons e by auto
    moreover have "key < fst e" using u e by (simp add: first_key_def)
    ultimately have "\<forall>z\<in>set (entries_of (u # vs)). key < fst z" using e by (auto intro: less_le_trans)
    with Cons show ?thesis by simp
  next
    case Nil
    show ?thesis unfolding Nil by simp
  qed
  have "length (butlast ?l) = length (takeWhile (\<lambda>k. k \<le> key) (map first_key (tl ts)))"
    using us by (simp add: takeWhile_map comp_def)
  moreover have "\<forall>x\<in>set (entries_of (butlast ?l)). fst x \<le> key"
    using le k by (cases "butlast ?l") (auto intro: order.trans)
  ultimately show ?thesis using that [OF parts _ _ d k le] by blast
qed

section \<open>Finding a leaf\<close>

abbreviation page_count :: "pool \<Rightarrow> page_id" where
  "page_count bp \<equiv> dk_pageCount (bp_disk bp)"

definition same_nodes :: "pool \<Rightarrow> pool \<Rightarrow> bool" where
  "same_nodes bp bp' \<longleftrightarrow> pool_idle bp' \<and> node_view bp' = node_view bp \<and> page_count bp' = page_count bp"

lemma load_same:
  assumes "pool_idle bp" "node_view bp pid = Some n"
  obtains bp' where "loadNode pid bp = (Inr n, bp')" "same_nodes bp bp'"
  using pool_nodes.load_ok [OF assms] by (auto simp: same_nodes_def)

lemma same_nodes_trans: "same_nodes bp bp1 \<Longrightarrow> same_nodes bp1 bp2 \<Longrightarrow> same_nodes bp bp2"
  by (simp add: same_nodes_def)

text \<open>The leaf for a key, and how the tree's leaves lie around it.\<close>

definition around :: "string \<Rightarrow> (page_id \<times> entry list) list \<Rightarrow> entry list \<Rightarrow> (page_id \<times> entry list) list \<Rightarrow> bool" where
  "around key ls1 es ls2 \<longleftrightarrow> (\<forall>x\<in>set (concat (map snd ls1)). fst x \<le> key \<and> es \<noteq> [] \<and> fst x \<le> fst (hd es) \<and> fst (hd es) \<le> key) \<and>
     (\<forall>z\<in>set (concat (map snd ls2)). key < fst z)"

lemma findLeaf_ok:
  assumes "pool_idle bp" "repr (node_view bp) t e" "tree_ok t" "sorted (map fst (tree_entries t))"
  shows "\<exists>bp' p es ls1 ls2. findLeaf key (root_of t) bp = Some (Inr p, bp') \<and> same_nodes bp bp' \<and>
    leaves t = ls1 @ (p, es) # ls2 \<and> around key ls1 es ls2 \<and> (tree_entries t \<noteq> [] \<longrightarrow> es \<noteq> [])"
  using assms
proof (induction t arbitrary: bp e)
  case (BLeaf p es)
  then have "node_view bp p = Some (leaf_node es e)" by simp
  then obtain bp' where "loadNode p bp = (Inr (leaf_node es e), bp')" "same_nodes bp bp'"
    by (rule load_same [OF BLeaf.prems(1)])
  then have "findLeaf key (root_of (BLeaf p es)) bp = Some (Inr p, bp')" by (simp add: findLeaf.simps)
  moreover have "leaves (BLeaf p es) = [] @ (p, es) # []" "around key [] es []" by (simp_all add: around_def)
  ultimately show ?case using \<open>same_nodes bp bp'\<close> by (metis node_parts(3))
next
  case (BNode p ts)
  let ?ks = "map first_key (tl ts)"
  have "node_view bp p = Some (inner_node ?ks (map root_of ts))" using BNode.prems by simp
  then obtain bp1 where bp1: "loadNode p bp = (Inr (inner_node ?ks (map root_of ts)), bp1)" "same_nodes bp bp1"
    by (rule load_same [OF BNode.prems(1)])
  have ts: "ts \<noteq> []" "\<forall>t\<in>set ts. tree_entries t \<noteq> []" "sorted (map fst (entries_of ts))" using BNode.prems by auto
  obtain ts1 t ts2 where s: "ts = ts1 @ t # ts2" "length ts1 = length (takeWhile (\<lambda>k. k \<le> key) ?ks)"
    "\<forall>x\<in>set (entries_of ts1). fst x \<le> key" "\<forall>z\<in>set (entries_of ts2). key < fst z"
    "ts1 \<noteq> [] \<Longrightarrow> first_key t \<le> key" "\<forall>x\<in>set (entries_of ts1). fst x \<le> first_key t"
    using child_split [OF ts, of key] by blast
  have i: "child_index key (inner_node ?ks (map root_of ts)) = length ts1" using s(2) by (simp add: child_index_inner)
  have "fill 6 0 (map root_of ts) ! length ts1 = root_of t" using s(1) by (simp add: nth_append)
  then have f: "findLeaf key (root_of (BNode p ts)) bp = findLeaf key (root_of t) bp1"
    using bp1 i by (simp add: findLeaf.simps [of key p])
  have t: "t \<in> set ts" "tree_ok t" "tree_entries t \<noteq> []" using BNode.prems s(1) by auto
  have "\<forall>t\<in>set ts1. tree_ok t" using BNode.prems s(1) by auto
  then have "repr (node_view bp1) t (link ts2 e)" using BNode.prems s(1) bp1(2) by (auto simp: repr_list_append same_nodes_def)
  moreover have "sorted (map fst (tree_entries t))" using ts(3) s(1) by (simp add: sorted_append)
  ultimately obtain bp' q es ls1 ls2 where IH: "findLeaf key (root_of t) bp1 = Some (Inr q, bp')" "same_nodes bp1 bp'"
    "leaves t = ls1 @ (q, es) # ls2" "around key ls1 es ls2" "es \<noteq> []"
    using BNode.IH [OF t(1), of bp1 "link ts2 e"] t bp1(2) by (auto simp: same_nodes_def)
  have e: "tree_entries t = concat (map snd ls1) @ es @ concat (map snd ls2)" using IH(3) by (simp add: tree_entries_def)
  have "first_key t \<le> fst (hd es) \<and> (ts1 \<noteq> [] \<longrightarrow> fst (hd es) \<le> key)"
  proof (cases "concat (map snd ls1)")
    case Nil
    then have "first_key t = fst (hd es)" using IH(5) unfolding first_key_def e Nil by simp
    then show ?thesis using s(5) by simp
  next
    case (Cons x xs)
    then have "first_key t = fst x" "x \<in> set (concat (map snd ls1))" unfolding first_key_def e by simp_all
    moreover from this have "fst x \<le> fst (hd es) \<and> fst (hd es) \<le> key" using IH(4) unfolding around_def by blast
    ultimately show ?thesis by simp
  qed
  then have "around key (leaves_of ts1 @ ls1) es (ls2 @ leaves_of ts2)"
    using IH(4,5) s(3,4,6) unfolding around_def by (auto simp: entries_leaves_of intro: order.trans)
  moreover have "leaves (BNode p ts) = (leaves_of ts1 @ ls1) @ (q, es) # ls2 @ leaves_of ts2" using s(1) IH(3) by simp
  moreover have "findLeaf key (root_of (BNode p ts)) bp = Some (Inr q, bp')" using f IH(1) by simp
  ultimately show ?case using IH(5) same_nodes_trans [OF bp1(2) IH(2)]
    by (intro exI [of _ bp'] exI [of _ q] exI [of _ es]) blast
qed

section \<open>Saving a changed node\<close>

definition outcome :: "splitResult option \<Rightarrow> shape list \<Rightarrow> bool" where
  "outcome r ts \<longleftrightarrow> (case r of None \<Rightarrow> \<exists>u. ts = [u]
     | Some sp \<Rightarrow> \<exists>u w. ts = [u, w] \<and> sp = \<lparr>sp_key = first_key w, sp_newPage = root_of w\<rparr>)"

text \<open>
  The node of page \<open>p\<close> has become the trees \<open>ts\<close>, one or two, with the entries \<open>es\<close>; below it are
  the pages \<open>qs\<close>. Only \<open>p\<close> and a new page have changed.
\<close>

definition saved :: "pool \<Rightarrow> page_id \<Rightarrow> page_id \<Rightarrow> entry list \<Rightarrow> page_id list \<Rightarrow> nat \<Rightarrow> pool \<Rightarrow> shape list \<Rightarrow> bool" where
  "saved bp p e es qs d bp' ts \<longleftrightarrow> pool_idle bp' \<and> repr_list (node_view bp') ts e \<and>
     (\<forall>u\<in>set ts. tree_ok u \<and> tree_entries u \<noteq> [] \<and> depth u \<le> d) \<and> entries_of ts = es \<and> root_of (hd ts) = p \<and>
     (\<forall>q. q \<noteq> p \<longrightarrow> q \<noteq> page_count bp \<longrightarrow> node_view bp' q = node_view bp q) \<and>
     (page_count bp' = page_count bp \<and> mset (pages_of ts) = mset (p # qs) \<or>
      page_count bp' = page_count bp + 1 \<and> mset (pages_of ts) = mset (p # page_count bp # qs))"

lemma save_or_split_leaf:
  assumes "pool_idle bp" "node_view bp p \<noteq> None" "page_count bp \<noteq> INVALID_PAGE_ID"
    and es: "es \<noteq> []" "length es \<le> 5" "list_all entry_ok es"
  shows "\<exists>r bp' ts. save_or_split p (leaf_node es e) bp = (Inr r, bp') \<and> outcome r ts \<and> saved bp p e es [] 1 bp' ts \<and>
    link ts e = p"
proof (cases "length es \<le> 4")
  case True
  have "node_norm (leaf_node es e) = leaf_node es e"
    using norm_leaf [of "leaf_node es e" "length es" es] True by simp
  with pool_nodes.save_ok [OF assms(1,2) node_fits_leaf [OF es(3) True, of e]] obtain bp' where
    "saveNode p (leaf_node es e) bp = (Inr (), bp')" "pool_idle bp'" "node_view bp' = (node_view bp)(p \<mapsto> leaf_node es e)"
    "page_count bp' = page_count bp" by auto
  moreover from this have "saved bp p e es [] 1 bp' [BLeaf p es]" "link [BLeaf p es] e = p"
    using True es by (auto simp: saved_def link_def)
  moreover have "outcome None [BLeaf p es]" by (simp add: outcome_def)
  ultimately show ?thesis using True by (intro exI [of _ None] exI [of _ bp'] exI [of _ "[BLeaf p es]"]) (simp add: save_or_split_def)
next
  case False
  then have len: "length es = 5" using es(2) by simp
  let ?n = "leaf_node es e" and ?new = "page_count bp"
  let ?left = "\<lambda>q. ?n\<lparr>bn_keyCount := int 2, bn_nextLeaf := q\<rparr>"
  let ?sp = "\<lambda>q. \<lparr>sp_key = fst (hd (drop 2 es)), sp_newPage = q\<rparr>"
  let ?ts = "[BLeaf p (take 2 es), BLeaf ?new (drop 2 es)]"
  have ok: "list_all entry_ok (take 2 es)" "list_all entry_ok (drop 2 es)" using es(3) by (metis append_take_drop_id list_all_append)+
  have ne: "drop 2 es \<noteq> []" "take 2 es \<noteq> []" using len by auto
  have arr: "length (bn_keys ?n) = 5" "length (bn_values ?n) = 5" "length (bn_children ?n) = 6"
    "take 2 (bn_keys ?n) = map fst (take 2 es)" "take 2 (bn_values ?n) = map snd (take 2 es)"
    using len by (simp_all add: fill_def take_map) (simp add: leaf_node_def BTreeNode_init_def)
  have left: "node_fits (?left q)" "node_norm (?left q) = leaf_node (take 2 es) q" for q
    using leaf_fits [of "?left q" 2 "take 2 es"] norm_leaf [of "?left q" 2 "take 2 es"] arr ok(1) by simp_all
  have right: "node_fits (leaf_node (drop 2 es) e)" "node_norm (leaf_node (drop 2 es) e) = leaf_node (drop 2 es) e"
    using node_fits_leaf [OF ok(2)] norm_leaf [of "leaf_node (drop 2 es) e" "length (drop 2 es)" "drop 2 es"] len by simp_all
  have sp: "splitNode p ?n = eff_bind allocNode (\<lambda>q. eff_bind (saveNode p (?left q)) (\<lambda>_.
      eff_bind (saveNode q (leaf_node (drop 2 es) e)) (\<lambda>_. eff_return (?sp q))))"
    using len ne(1) by (simp add: splitNode_def Let_def right_half_leaf hd_conv_nth nth_append fill_def)
  from pool_nodes.split_saves [where left = ?left and f = ?sp, OF assms(1,3,2) left(1) right(1)] obtain bp' where
    s: "splitNode p ?n bp = (Inr (?sp ?new), bp')" "pool_idle bp'" "page_count bp' = ?new + 1"
      "node_view bp' = (node_view bp)(p \<mapsto> leaf_node (take 2 es) ?new, ?new \<mapsto> leaf_node (drop 2 es) e)"
    unfolding sp left(2) right(2) by auto
  have "p \<noteq> ?new" using pool_nodes.nodes_dom [OF assms(1,2)] by auto
  then have "saved bp p e es [] 1 bp' ?ts" using s(2-4) ok ne len by (auto simp: saved_def link_def)
  moreover have "outcome (Some (?sp ?new)) ?ts" by (simp add: outcome_def first_key_def)
  moreover have "save_or_split p ?n bp = (Inr (Some (?sp ?new)), bp')" using s(1) len by (simp add: save_or_split_def)
  moreover have "link ?ts e = p" by (simp add: link_def)
  ultimately show ?thesis by blast
qed

lemma first_key_node: "tree_entries u \<noteq> [] \<Longrightarrow> first_key (BNode p (u # us)) = first_key u"
  by (simp add: first_key_def)

lemma save_or_split_inner:
  assumes "pool_idle bp" "node_view bp p \<noteq> None" "page_count bp \<noteq> INVALID_PAGE_ID"
    and us: "2 \<le> length us" "length us \<le> 6" "\<forall>u\<in>set us. tree_ok u \<and> tree_entries u \<noteq> [] \<and> depth u \<le> d"
    and r: "repr_list (node_view bp) us e" "p \<notin> set (pages_of us)"
  shows "\<exists>r bp' ts. save_or_split p (inner_node (map first_key (tl us)) (map root_of us)) bp = (Inr r, bp') \<and> outcome r ts \<and>
    saved bp p e (entries_of us) (pages_of us) (Suc d) bp' ts \<and> link ts e = link us e"
proof (cases "length us \<le> 5")
  case True
  let ?ks = "map first_key (tl us)" and ?cs = "map root_of us"
  have ks: "list_all word_fits ?ks" "length ?ks \<le> 4" "length ?cs = Suc (length ?ks)"
    using us True first_key_ok by (auto simp: list_all_iff dest!: in_set_tlD)
  have "node_norm (inner_node ?ks ?cs) = inner_node ?ks ?cs"
    using norm_inner [of "inner_node ?ks ?cs" "length ?ks" ?ks ?cs] ks by simp
  with pool_nodes.save_ok [OF assms(1,2) node_fits_inner [OF ks]] obtain bp' where s:
    "saveNode p (inner_node ?ks ?cs) bp = (Inr (), bp')" "pool_idle bp'" "node_view bp' = (node_view bp)(p \<mapsto> inner_node ?ks ?cs)"
    "page_count bp' = page_count bp" by auto
  have "repr_list (node_view bp') us e" using r(2) s(3) by (intro repr_frame(2) [OF r(1)]) auto
  then have "saved bp p e (entries_of us) (pages_of us) (Suc d) bp' [BNode p us]"
    using s True us depth_bound [of us d] entries_of_empty [of us] by (auto simp: saved_def link_def)
  moreover have "outcome None [BNode p us]" "link [BNode p us] e = link us e" by (simp_all add: outcome_def link_def)
  ultimately show ?thesis using s(1) ks(2)
    by (intro exI [of _ None] exI [of _ bp'] exI [of _ "[BNode p us]"]) (simp add: save_or_split_def)
next
  case False
  then have "length us = 6" using us(2) by simp
  then obtain a b c u v w where e: "us = [a, b, c, u, v, w]"
    by (auto simp: numeral_eq_Suc length_Suc_conv)
  let ?ks = "map first_key (tl us)" and ?cs = "map root_of us" and ?new = "page_count bp"
  let ?n = "inner_node ?ks ?cs" and ?lo = "[a, b, c]" and ?hi = "[u, v, w]"
  let ?inner = "\<lambda>us. inner_node (map first_key (tl us)) (map root_of us)"
  let ?left = "?n\<lparr>bn_keyCount := int 2\<rparr>"
  let ?sp = "\<lambda>q. \<lparr>sp_key = first_key u, sp_newPage = q\<rparr>"
  let ?ts = "[BNode p ?lo, BNode ?new ?hi]"
  have ok: "\<forall>u\<in>set us. tree_ok u \<and> tree_entries u \<noteq> [] \<and> depth u \<le> d" by (rule us(3))
  have k: "list_all word_fits [first_key b, first_key c]" "list_all word_fits [first_key v, first_key w]"
    using ok first_key_ok by (auto simp: e)
  have arr: "length (bn_keys ?n) = 5" "length (bn_values ?n) = 5" "length (bn_children ?n) = 6"
    by (simp_all add: e) (simp add: inner_node_def BTreeNode_init_def)
  have left: "node_fits ?left" "node_norm ?left = ?inner ?lo"
    using inner_fits [of ?left 2 "[first_key b, first_key c]" "map root_of ?lo"]
      norm_inner [of ?left 2 "[first_key b, first_key c]" "map root_of ?lo"] arr k(1)
    by (simp_all add: e fill_def)
  have right: "node_fits (?inner ?hi)" "node_norm (?inner ?hi) = ?inner ?hi"
    using node_fits_inner [OF k(2), of "map root_of ?hi"]
      norm_inner [of "?inner ?hi" 2 "[first_key v, first_key w]" "map root_of ?hi"] by simp_all
  have sp: "splitNode p ?n = eff_bind allocNode (\<lambda>q. eff_bind (saveNode p ?left) (\<lambda>_.
      eff_bind (saveNode q (?inner ?hi)) (\<lambda>_. eff_return (?sp q))))"
    by (simp add: splitNode_def Let_def right_half_inner e)
  from pool_nodes.split_saves [where left = "\<lambda>_. ?left" and f = ?sp, OF assms(1,3,2) left(1) right(1)] obtain bp' where
    s: "splitNode p ?n bp = (Inr (?sp ?new), bp')" "pool_idle bp'" "page_count bp' = ?new + 1"
      "node_view bp' = (node_view bp)(p \<mapsto> ?inner ?lo, ?new \<mapsto> ?inner ?hi)"
    unfolding sp left(2) right(2) by auto
  have ne: "p \<noteq> ?new" "?new \<notin> set (pages_of us)"
    using pool_nodes.nodes_dom [OF assms(1)] assms(2) repr_pages(2) [OF r(1)] by (auto dest: order.strict_implies_not_eq)
  then have "repr_list (node_view bp') us e" using r(2) s(4) by (intro repr_frame(2) [OF r(1)]) auto
  moreover have "us = ?lo @ ?hi" by (simp add: e)
  ultimately have parts: "repr_list (node_view bp') ?lo (link ?hi e)" "repr_list (node_view bp') ?hi e"
    using repr_list_append [of ?lo "node_view bp'" ?hi e] ok by auto
  have "saved bp p e (entries_of us) (pages_of us) (Suc d) bp' ?ts"
    using s(2-4) ne(1) parts ok depth_bound [of ?lo d] depth_bound [of ?hi d]
    by (auto simp: saved_def link_def e simp del: depth.simps)
  moreover have "outcome (Some (?sp ?new)) ?ts" using ok by (simp add: outcome_def first_key_node e)
  moreover have "save_or_split p ?n bp = (Inr (Some (?sp ?new)), bp')" using s(1) by (simp add: save_or_split_def e)
  moreover have "link ?ts e = link us e" by (simp add: link_def e)
  ultimately show ?thesis by blast
qed

section \<open>Insertion\<close>

text \<open>
  The subtree \<open>t\<close>, linked to \<open>e\<close>, has become \<open>ts\<close>: the entry is in, after the tree_entries with a key
  not above its own, and the pages added are the ones that the file grew by.
\<close>

definition grown :: "pool \<Rightarrow> shape \<Rightarrow> page_id \<Rightarrow> string \<Rightarrow> string \<Rightarrow> pool \<Rightarrow> shape list \<Rightarrow> bool" where
  "grown bp t e k v bp' ts \<longleftrightarrow> pool_idle bp' \<and> repr_list (node_view bp') ts e \<and>
     (\<forall>u\<in>set ts. tree_ok u \<and> tree_entries u \<noteq> [] \<and> depth u \<le> depth t) \<and> entries_of ts = insert_entry k v (tree_entries t) \<and>
     root_of (hd ts) = root_of t \<and> link ts e = link [t] e \<and>
     (\<forall>q. q < page_count bp \<longrightarrow> q \<notin> set (tree_pages t) \<longrightarrow> node_view bp' q = node_view bp q) \<and>
     (\<exists>new. mset (pages_of ts) = mset (new @ tree_pages t) \<and> distinct new \<and>
        (\<forall>q\<in>set new. page_count bp \<le> q \<and> q < page_count bp') \<and>
        unat (page_count bp') = unat (page_count bp) + length new \<and> length new \<le> depth t)"

lemma grown_same: "same_nodes bp bp1 \<Longrightarrow> grown bp1 t e k v bp' ts \<longleftrightarrow> grown bp t e k v bp' ts"
  by (simp add: grown_def same_nodes_def)

lemma outcome_not_Nil: "outcome r ts \<Longrightarrow> ts \<noteq> []"
  by (auto simp: outcome_def split: option.splits)

lemma room_page: "unat n + d < 2 ^ 32 \<Longrightarrow> 0 < d \<Longrightarrow> n \<noteq> INVALID_PAGE_ID"
  by auto

text \<open>What the insertion into a child makes of the list of the children.\<close>

lemma children_grown:
  assumes ts: "ts = ts1 @ t # ts2" "\<forall>u\<in>set ts. tree_ok u \<and> tree_entries u \<noteq> []" "distinct (p # pages_of ts)"
    and r: "pool_idle bp" "repr_list (node_view bp) ts e" "node_view bp p \<noteq> None"
    and k: "\<forall>x\<in>set (entries_of ts1). fst x \<le> k" "\<forall>z\<in>set (entries_of ts2). k < fst z"
    and g: "grown bp t (link ts2 e) k v bp' ts'" "ts' \<noteq> []"
  shows "repr_list (node_view bp') (ts1 @ ts' @ ts2) e" "node_view bp' p = node_view bp p"
    and "\<forall>u\<in>set (ts1 @ ts' @ ts2). tree_ok u \<and> tree_entries u \<noteq> [] \<and> Suc (depth u) \<le> depth (BNode p ts)"
    and "entries_of (ts1 @ ts' @ ts2) = insert_entry k v (entries_of ts)" "link (ts1 @ ts' @ ts2) e = link ts e"
    and "p \<notin> set (pages_of (ts1 @ ts' @ ts2))"
proof -
  have ok: "\<forall>u\<in>set ts1. tree_ok u" "\<forall>u\<in>set ts'. tree_ok u" "tree_ok t" "\<forall>u\<in>set [t]. tree_ok u"
    using ts g(1) by (auto simp: grown_def)
  have old: "q < page_count bp" if "q \<in> set (pages_of ts)" for q
    using pool_nodes.nodes_dom [OF r(1)] repr_pages(2) [OF r(2) that] by blast
  have keep: "node_view bp' q = node_view bp q" if "q \<in> set (pages_of ts1) \<or> q \<in> set (pages_of ts2)" for q
    using that ts(1,3) old [of q] g(1) by (auto simp: grown_def)
  have link: "link (ts' @ ts2) e = link (t # ts2) e"
    using link_append [OF ok(2), of ts2 e] link_append [OF ok(4), of ts2 e] g(1) by (simp add: grown_def)
  have parts: "repr_list (node_view bp) ts1 (link (t # ts2) e)" "repr_list (node_view bp) ts2 e"
    using r(2) ts(1) by (simp_all add: repr_list_append [OF ok(1)])
  have "repr_list (node_view bp') ts1 (link (t # ts2) e)" "repr_list (node_view bp') ts2 e"
    using repr_frame(2) [OF parts(1)] repr_frame(2) [OF parts(2)] keep by blast+
  then show "repr_list (node_view bp') (ts1 @ ts' @ ts2) e"
    using g(1) by (simp add: repr_list_append ok link grown_def)
  show "node_view bp' p = node_view bp p"
    using pool_nodes.nodes_dom [OF r(1,3)] ts g(1) by (auto simp: grown_def)
  have d: "Suc (depth u) \<le> depth (BNode p ts)" if "u \<in> set ts" for u
    using depth_child [OF that, of p] by simp
  then show "\<forall>u\<in>set (ts1 @ ts' @ ts2). tree_ok u \<and> tree_entries u \<noteq> [] \<and> Suc (depth u) \<le> depth (BNode p ts)"
    using ts g(1) d [of t] unfolding grown_def by (auto simp del: depth.simps intro: order.trans [OF Suc_le_mono [THEN iffD2]])
  show "entries_of (ts1 @ ts' @ ts2) = insert_entry k v (entries_of ts)"
    using g(1) ts(1) insert_entry_middle [OF k, of v "tree_entries t"] by (simp add: grown_def)
  show "link (ts1 @ ts' @ ts2) e = link ts e"
    using link_append [OF ok(1)] link ts(1) by metis
  obtain new where new: "mset (pages_of ts') = mset (new @ tree_pages t)" "\<forall>q\<in>set new. page_count bp \<le> q"
    using g(1) by (auto simp: grown_def)
  have "p < page_count bp" by (rule pool_nodes.nodes_dom [OF r(1,3)])
  then show "p \<notin> set (pages_of (ts1 @ ts' @ ts2))"
    using ts(1,3) new mset_eq_setD [OF new(1)] by auto
qed

text \<open>The separators: the first key of a subtree with something left of it does not change.\<close>

lemma separators_kept:
  assumes "grown bp t e k v bp' ts'" "ts' \<noteq> []" "tree_entries t \<noteq> []" "ts1 \<noteq> [] \<Longrightarrow> first_key t \<le> k"
  shows "map first_key (tl (ts1 @ ts')) = map first_key (tl (ts1 @ [t])) @ map first_key (tl ts')"
proof (cases ts1)
  case (Cons a as)
  obtain u us where u: "ts' = u # us" using assms(2) by (cases ts') auto
  then have "tree_entries u \<noteq> []" "tree_entries u @ entries_of us = insert_entry k v (tree_entries t)" using assms(1) by (simp_all add: grown_def)
  then have "hd (tree_entries u) = hd (insert_entry k v (tree_entries t))" by (metis hd_append2)
  then have "first_key u = first_key t"
    using hd_insert_entry [OF assms(3), of k v] assms(4) Cons by (simp add: first_key_def)
  then show ?thesis using Cons u by simp
qed simp

lemma page_less_next: "n \<noteq> INVALID_PAGE_ID \<Longrightarrow> n < n + 1"
  using unat_next_page [of n] by (simp add: word_less_nat_alt)

lemma saved_grown_leaf:
  assumes "saved bp p e (insert_entry k v es) [] 1 bp' ts" "link ts e = p" "page_count bp \<noteq> INVALID_PAGE_ID"
  shows "grown bp (BLeaf p es) e k v bp' ts"
  using assms unat_next_page [OF assms(3)] page_less_next [OF assms(3)] unfolding grown_def saved_def
  by (auto simp: link_def intro: exI [of _ "[]"] exI [of _ "[page_count bp]"])

lemma saved_grown_inner:
  assumes ts: "ts = ts1 @ t # ts2" "\<forall>q\<in>set (pages_of ts). q < page_count bp" "p < page_count bp"
    and g: "grown bp t l k v bp1 ts'" "page_count bp1 \<noteq> INVALID_PAGE_ID"
    and s: "saved bp1 p e (insert_entry k v (entries_of ts)) (pages_of (ts1 @ ts' @ ts2)) (depth (BNode p ts)) bp' ts''"
    and l: "link ts'' e = link ts e"
  shows "grown bp (BNode p ts) e k v bp' ts''"
proof -
  obtain new where new: "mset (pages_of ts') = mset (new @ tree_pages t)" "distinct new"
    "\<forall>q\<in>set new. page_count bp \<le> q \<and> q < page_count bp1" "unat (page_count bp1) = unat (page_count bp) + length new"
    "length new \<le> depth t" using g(1) by (auto simp: grown_def)
  have d: "depth t < depth (BNode p ts)" using ts(1) by (intro depth_child) simp
  have le: "page_count bp \<le> page_count bp1" using new(4) by (simp add: word_le_nat_alt)
  have keep: "node_view bp' q = node_view bp q" if "q < page_count bp" "q \<notin> set (tree_pages (BNode p ts))" for q
    using that g(1) s ts(1) le by (auto simp: grown_def saved_def)
  let ?new = "if page_count bp' = page_count bp1 then new else new @ [page_count bp1]"
  have "mset (pages_of ts'') = mset (?new @ tree_pages (BNode p ts)) \<and> distinct ?new \<and>
      (\<forall>q\<in>set ?new. page_count bp \<le> q \<and> q < page_count bp') \<and>
      unat (page_count bp') = unat (page_count bp) + length ?new \<and> length ?new \<le> depth (BNode p ts)"
    using s new ts(1) d le page_less_next [OF g(2)] unat_next_page [OF g(2)]
    by (auto simp: saved_def ac_simps simp del: depth.simps dest: less_trans)
  then have "\<exists>new. mset (pages_of ts'') = mset (new @ tree_pages (BNode p ts)) \<and> distinct new \<and>
      (\<forall>q\<in>set new. page_count bp \<le> q \<and> q < page_count bp') \<and>
      unat (page_count bp') = unat (page_count bp) + length new \<and> length new \<le> depth (BNode p ts)" by blast
  moreover have "link ts'' e = link [BNode p ts] e" using l by (simp add: link_def)
  ultimately show ?thesis using keep s unfolding grown_def saved_def entries_node root_of.simps by blast
qed

lemma insertRec_ok:
  assumes "pool_idle bp" "repr (node_view bp) t e" "tree_ok t" "sorted (map fst (tree_entries t))" "distinct (tree_pages t)"
    and "word_fits k" "word_fits v" "unat (page_count bp) + depth t < 2 ^ 32"
  shows "\<exists>r bp' ts. insertRec k v (root_of t) bp = Some (Inr r, bp') \<and> outcome r ts \<and> grown bp t e k v bp' ts"
  using assms
proof (induction t arbitrary: bp e)
  case (BLeaf p es)
  let ?es = "insert_entry k v es"
  have m: "node_view bp p = Some (leaf_node es e)" using BLeaf.prems by simp
  then obtain bp1 where bp1: "loadNode p bp = (Inr (leaf_node es e), bp1)" "same_nodes bp bp1"
    by (rule load_same [OF BLeaf.prems(1)])
  have len: "length es \<le> 4" "sorted (map fst es)" using BLeaf.prems by simp_all
  have es: "?es \<noteq> []" "length ?es \<le> 5" "list_all entry_ok ?es"
    using BLeaf.prems len(1) by (auto simp: list_all_iff entry_ok_def)
  have s: "pool_idle bp1" "node_view bp1 p \<noteq> None" "page_count bp1 \<noteq> INVALID_PAGE_ID"
    using bp1(2) m room_page [OF BLeaf.prems(8)] by (simp_all add: same_nodes_def)
  from save_or_split_leaf [OF s es] obtain r bp' ts where
    r: "save_or_split p (leaf_node ?es e) bp1 = (Inr r, bp')" "outcome r ts" "saved bp1 p e ?es [] 1 bp' ts" "link ts e = p"
    by blast
  have "insertRec k v (root_of (BLeaf p es)) bp = Some (Inr r, bp')"
    using bp1(1) r(1) leaf_insert_leaf [OF len(2,1), of k v e] by (simp add: insertRec.simps)
  moreover have "grown bp (BLeaf p es) e k v bp' ts"
    using saved_grown_leaf [OF r(3,4) s(3)] grown_same [OF bp1(2)] by simp
  ultimately show ?case using r(2) by blast
next
  case (BNode p ts)
  let ?inner = "\<lambda>us. inner_node (map first_key (tl us)) (map root_of us)"
  have m: "node_view bp p = Some (?inner ts)" using BNode.prems by simp
  then obtain bp1 where bp1: "loadNode p bp = (Inr (?inner ts), bp1)" "same_nodes bp bp1"
    by (rule load_same [OF BNode.prems(1)])
  have ts: "ts \<noteq> []" "\<forall>u\<in>set ts. tree_ok u \<and> tree_entries u \<noteq> []" "sorted (map fst (entries_of ts))"
    "\<forall>u\<in>set ts. tree_entries u \<noteq> []" "length ts \<le> 5" "distinct (p # pages_of ts)" "2 \<le> length ts" using BNode.prems by auto
  obtain ts1 t ts2 where s: "ts = ts1 @ t # ts2" "length ts1 = length (takeWhile (\<lambda>x. x \<le> k) (map first_key (tl ts)))"
    "\<forall>x\<in>set (entries_of ts1). fst x \<le> k" "\<forall>z\<in>set (entries_of ts2). k < fst z" "ts1 \<noteq> [] \<Longrightarrow> first_key t \<le> k"
    using child_split [OF ts(1,4,3), of k] by blast
  have i: "child_index k (?inner ts) = length ts1" using s(2) by (simp add: child_index_inner)
  have root: "fill 6 0 (map root_of ts) ! length ts1 = root_of t" using s(1) by (simp add: nth_append)
  have t: "t \<in> set ts" "tree_ok t" "tree_entries t \<noteq> []" "sorted (map fst (tree_entries t))" "distinct (tree_pages t)"
    using ts s(1) by (auto simp: sorted_append)
  have d: "depth t < depth (BNode p ts)" by (rule depth_child [OF t(1)])
  have b1: "pool_idle bp1" "repr_list (node_view bp1) ts e" "node_view bp1 p \<noteq> None" "page_count bp1 = page_count bp"
    using bp1(2) BNode.prems m by (simp_all add: same_nodes_def)
  have "\<forall>u\<in>set ts1. tree_ok u" using ts(2) s(1) by simp
  then have "repr (node_view bp1) t (link ts2 e)" using b1(2) s(1) by (simp add: repr_list_append)
  with BNode.IH [OF t(1) b1(1) _ t(2,4,5) BNode.prems(6,7)] BNode.prems(8) b1(4) d obtain r bp2 ts' where
    IH: "insertRec k v (root_of t) bp1 = Some (Inr r, bp2)" "outcome r ts'" "grown bp1 t (link ts2 e) k v bp2 ts'"
    by fastforce
  have ts': "ts' \<noteq> []" by (rule outcome_not_Nil [OF IH(2)])
  let ?us = "ts1 @ ts' @ ts2"
  note us = children_grown [OF s(1) ts(2,6) b1(1,2,3) s(3,4) IH(3) ts']
  have old: "\<forall>q\<in>set (pages_of ts). q < page_count bp1" "p < page_count bp1"
    using pool_nodes.nodes_dom [OF b1(1)] repr_pages(2) [OF b1(2)] b1(3) by blast+
  have "unat (page_count bp2) \<le> unat (page_count bp1) + depth t" using IH(3) by (auto simp: grown_def)
  then have room: "page_count bp2 \<noteq> INVALID_PAGE_ID" using BNode.prems(8) b1(4) d by (intro room_page [of _ 1]) simp_all
  note finish = saved_grown_inner [OF s(1) old IH(3) room]
  have seps: "map first_key (tl (ts1 @ ts')) = map first_key (tl (ts1 @ [t])) @ map first_key (tl ts')"
    by (rule separators_kept [OF IH(3) ts' t(3) s(5)])
  have tl_app: "tl (xs @ ys @ zs) = tl (xs @ ys) @ zs" if "ys \<noteq> []" for xs ys zs :: "shape list"
    using that by (cases xs; cases ys) simp_all
  have hd': "root_of (hd ts') = root_of t" using IH(3) by (simp add: grown_def)
  have dp: "Suc (depth (BNode p ts) - 1) = depth (BNode p ts)" by simp
  have ud: "\<forall>x\<in>set ?us. tree_ok x \<and> tree_entries x \<noteq> [] \<and> depth x \<le> depth (BNode p ts) - 1" using us(3) by fastforce
  show ?case
  proof (cases r)
    case None
    then obtain u where u: "ts' = [u]" using IH(2) by (auto simp: outcome_def)
    then have "?inner ts = ?inner ?us" using seps s(1) hd' tl_app [of "[u]" ts1 ts2] tl_app [of "[t]" ts1 ts2] by simp
    then have "repr (node_view bp2) (BNode p ?us) e" using us(1,2) m bp1(2) by (simp add: same_nodes_def)
    moreover have "depth (BNode p ?us) \<le> depth (BNode p ts)" using depth_bound [of ?us "depth (BNode p ts) - 1" p] ud dp by simp
    moreover have "tree_ok (BNode p ?us)" using ud u s(1) ts(5,7) by auto
    moreover have "tree_entries (BNode p ?us) \<noteq> []" using us(4) by simp
    ultimately have "saved bp2 p e (insert_entry k v (entries_of ts)) (pages_of ?us) (depth (BNode p ts)) bp2 [BNode p ?us]"
      using us(4) IH(3) by (simp add: saved_def grown_def link_def del: depth.simps tree_ok.simps repr.simps)
    from finish [OF this] us(5) have "grown bp (BNode p ts) e k v bp2 [BNode p ?us]"
      by (simp add: grown_same [OF bp1(2)] link_def)
    moreover have "insertRec k v (root_of (BNode p ts)) bp = Some (Inr None, bp2)"
      using bp1(1) IH(1) i root None by (simp add: insertRec.simps [of k v p])
    moreover have "outcome None [BNode p ?us]" by (simp add: outcome_def)
    ultimately show ?thesis by blast
  next
    case (Some sp)
    then obtain u w where u: "ts' = [u, w]" "sp = \<lparr>sp_key = first_key w, sp_newPage = root_of w\<rparr>"
      using IH(2) by (auto simp: outcome_def)
    let ?ks = "map first_key (tl (ts1 @ [t]))"
    have "?inner ts = inner_node (?ks @ map first_key ts2) (map root_of ts1 @ root_of t # map root_of ts2)"
      using tl_app [of "[t]" ts1 ts2] s(1) by simp
    moreover have "?inner ?us = inner_node (?ks @ first_key w # map first_key ts2)
        (map root_of ts1 @ root_of t # root_of w # map root_of ts2)"
      using tl_app [of ts' ts1 ts2] seps hd' u by simp
    moreover have "length ?ks = length ts1" by (cases ts1) simp_all
    ultimately have split: "inner_insert (length ts1) sp (?inner ts) = Inr (?inner ?us)"
      using inner_insert_inner [of ?ks "length ts1" "map root_of ts1" "map first_key ts2" "map root_of ts2" sp "root_of t"]
        u ts(5) s(1) by simp
    from save_or_split_inner [OF _ _ room _ _ ud us(1,6)] obtain r' bp' ts'' where
      f: "save_or_split p (?inner ?us) bp2 = (Inr r', bp')" "outcome r' ts''"
        "saved bp2 p e (entries_of ?us) (pages_of ?us) (depth (BNode p ts)) bp' ts''" "link ts'' e = link ?us e"
      using IH(3) us(2) b1(3) u s(1) ts(5,7) unfolding dp by (auto simp: grown_def)
    from finish [OF f(3) [unfolded us(4)] f(4) [unfolded us(5)]] have "grown bp (BNode p ts) e k v bp' ts''"
      by (simp add: grown_same [OF bp1(2)])
    moreover have "insertRec k v (root_of (BNode p ts)) bp = Some (Inr r', bp')"
      using bp1(1) IH(1) i root Some split f(1) by (simp add: insertRec.simps [of k v p])
    ultimately show ?thesis using f(2) by blast
  qed
qed

section \<open>The tree as a sorted list of its entries\<close>

text \<open>
  \<open>base\<close> counts the pages of the file that are not the tree's: it owns the others. A tree has
  less than two pages for each entry.
\<close>

definition btree_holds :: "nat \<Rightarrow> btree \<Rightarrow> entry list \<Rightarrow> bool" where
  "btree_holds base t es \<longleftrightarrow> pool_idle (bt_pool t) \<and> sorted (map fst es) \<and>
     (\<exists>s. root_of s = bt_rootId t \<and> repr (node_view (bt_pool t)) s INVALID_PAGE_ID \<and> tree_ok s \<and>
        distinct (tree_pages s) \<and> tree_entries s = es \<and> unat (page_count (bt_pool t)) = base + length (tree_pages s))"

lemma btree_holdsI:
  "pool_idle (bt_pool t) \<Longrightarrow> sorted (map fst es) \<Longrightarrow> root_of s = bt_rootId t \<Longrightarrow>
   repr (node_view (bt_pool t)) s INVALID_PAGE_ID \<Longrightarrow> tree_ok s \<Longrightarrow> distinct (tree_pages s) \<Longrightarrow> tree_entries s = es \<Longrightarrow>
   unat (page_count (bt_pool t)) = base + length (tree_pages s) \<Longrightarrow> btree_holds base t es"
  by (auto simp: btree_holds_def)

lemma pages_entries: "tree_ok s \<Longrightarrow> tree_entries s \<noteq> [] \<Longrightarrow> length (tree_pages s) < 2 * length (tree_entries s)"
proof (induction s)
  case (BNode p ts)
  have "length (pages_of us) + length us \<le> 2 * length (entries_of us)" if "set us \<subseteq> set ts" for us
    using that BNode by (induction us) fastforce+
  from this [of ts] BNode.prems show ?case by simp
next
  case (BLeaf p es)
  then show ?case by (cases es) simp_all
qed

lemma depth_pages: "depth s \<le> length (tree_pages s)"
proof (induction s)
  case (BNode p ts)
  have "length (tree_pages u) \<le> length (pages_of ts)" if "u \<in> set ts" for u
    using that by (induction ts) auto
  with BNode have "\<forall>u\<in>set ts. depth u \<le> length (pages_of ts)" by (auto intro: order.trans)
  from depth_bound [OF this, of p] show ?case by simp
qed simp

lemma holds_room:
  assumes "tree_ok s" "unat n = base + length (tree_pages s)" "base + 4 * length (tree_entries s) + 3 < 2 ^ 32"
  shows "unat (n :: page_id) + depth s + 1 < 2 ^ 32"
proof -
  have "length (tree_pages s) \<le> 2 * length (tree_entries s) + 1"
    using pages_entries [OF assms(1)] assms(1) by (cases s; cases "tree_entries s = []") (auto simp: entries_of_empty)
  with depth_pages [of s] assms(2,3) show ?thesis by simp
qed

lemma new_root_inner: "new_root p \<lparr>sp_key = k, sp_newPage = q\<rparr> = inner_node [k] [p, q]"
  by (simp add: new_root_def inner_node_def BTreeNode_init_def fill_def numeral_eq_Suc)

lemma BTree_init_holds:
  assumes "pool_idle bp" "page_count bp \<noteq> INVALID_PAGE_ID"
  shows "\<exists>rootId bp'. BTree_init bp = (Inr rootId, bp') \<and>
    btree_holds (unat (page_count bp)) \<lparr>bt_pool = bp', bt_rootId = rootId\<rparr> []"
proof -
  have "node_fits BTreeNode_init" "node_norm BTreeNode_init = leaf_node [] INVALID_PAGE_ID"
    using node_fits_leaf [of "[]"] norm_leaf [of "leaf_node [] INVALID_PAGE_ID" 0 "[]"] by (simp_all add: init_leaf)
  with pool_nodes.alloc_save [OF assms, of BTreeNode_init] obtain bp' where s:
    "BTree_init bp = (Inr (page_count bp), bp')" "pool_idle bp'" "page_count bp' = page_count bp + 1"
    "node_view bp' = (node_view bp)(page_count bp \<mapsto> leaf_node [] INVALID_PAGE_ID)" by (auto simp: BTree_init_def)
  then show ?thesis using unat_next_page [OF assms(2)]
    by (auto simp: btree_holds_def intro: exI [of _ "BLeaf (page_count bp) []"])
qed

lemma bt_insert_holds:
  assumes h: "btree_holds base t es" and w: "word_fits k" "word_fits v" and room: "base + 4 * length es + 3 < 2 ^ 32"
  shows "\<exists>t'. bt_insert k v t = Some (Inr (), t') \<and> btree_holds base t' (insert_entry k v es)"
proof -
  let ?bp = "bt_pool t"
  obtain s where s: "root_of s = bt_rootId t" "repr (node_view ?bp) s INVALID_PAGE_ID" "tree_ok s" "distinct (tree_pages s)"
    "tree_entries s = es" "unat (page_count ?bp) = base + length (tree_pages s)" "pool_idle ?bp" "sorted (map fst es)"
    using h by (auto simp: btree_holds_def)
  have fits: "unat (page_count ?bp) + depth s + 1 < 2 ^ 32" using holds_room [OF s(3,6)] room s(5) by simp
  then obtain r bp1 ts where r: "insertRec k v (bt_rootId t) ?bp = Some (Inr r, bp1)" "outcome r ts"
    "grown ?bp s INVALID_PAGE_ID k v bp1 ts"
    using insertRec_ok [OF s(7,2,3) _ s(4) w] s(1,5,8) by fastforce
  have sorted: "sorted (map fst (insert_entry k v es))" by (rule sorted_insert_entry [OF s(8)])
  obtain new where new: "mset (pages_of ts) = mset (new @ tree_pages s)" "distinct new"
    "\<forall>q\<in>set new. page_count ?bp \<le> q \<and> q < page_count bp1" "unat (page_count bp1) = unat (page_count ?bp) + length new"
    "length new \<le> depth s" using r(3) by (auto simp: grown_def)
  have old: "\<forall>q\<in>set (tree_pages s). q < page_count ?bp"
    using pool_nodes.nodes_dom [OF s(7)] repr_pages(1) [OF s(2)] by blast
  then have "distinct (new @ tree_pages s)" using new(2,3) s(4) by fastforce
  then have dist: "distinct (pages_of ts)" "length (pages_of ts) = length new + length (tree_pages s)"
    using mset_eq_imp_distinct_iff [OF new(1)] mset_eq_length [OF new(1)] by simp_all
  have below: "\<forall>q\<in>set (pages_of ts). q < page_count bp1"
    using old new(3,4) mset_eq_setD [OF new(1)] by (auto simp: word_less_nat_alt)
  show ?thesis
  proof (cases r)
    case None
    then obtain u where u: "ts = [u]" using r(2) by (auto simp: outcome_def)
    have "btree_holds base (t\<lparr>bt_pool := bp1\<rparr>) (insert_entry k v es)"
      unfolding btree_holds_def using u r(3) s(1,5,6) sorted dist new(4)
      by (auto simp: grown_def link_def intro: exI [of _ u])
    then show ?thesis using r(1) None by (simp add: bt_insert_def)
  next
    case (Some sp)
    then obtain u x where u: "ts = [u, x]" "sp = \<lparr>sp_key = first_key x, sp_newPage = root_of x\<rparr>"
      using r(2) by (auto simp: outcome_def)
    let ?n = "inner_node [first_key x] [bt_rootId t, root_of x]" and ?q = "page_count bp1"
    have ok: "\<forall>u\<in>set ts. tree_ok u \<and> tree_entries u \<noteq> []" "pool_idle bp1" "root_of u = bt_rootId t"
      using r(3) u s(1) by (auto simp: grown_def)
    have q: "?q \<noteq> INVALID_PAGE_ID" using fits new(4,5) by (intro room_page [of _ 1]) simp_all
    have n: "node_fits ?n" "node_norm ?n = ?n"
      using node_fits_inner [of "[first_key x]" "[bt_rootId t, root_of x]"] first_key_ok [of x] ok(1) u
        norm_inner [of ?n 1 "[first_key x]" "[bt_rootId t, root_of x]"] by simp_all
    from pool_nodes.alloc_save [OF ok(2) q n(1)] obtain bp2 where f:
      "eff_bind allocNode (\<lambda>p. eff_bind (saveNode p ?n) (\<lambda>_. eff_return p)) bp1 = (Inr ?q, bp2)" "pool_idle bp2"
      "node_view bp2 = (node_view bp1)(?q \<mapsto> ?n)" "page_count bp2 = ?q + 1" unfolding n(2) by blast
    have "?q \<notin> set (pages_of ts)" using below by blast
    then have "node_view bp2 q = node_view bp1 q" if "q \<in> set (pages_of ts)" for q
      unfolding f(3) using that by (intro fun_upd_other) blast
    moreover have "repr_list (node_view bp1) ts INVALID_PAGE_ID" using r(3) unfolding grown_def by blast
    ultimately have "repr_list (node_view bp2) ts INVALID_PAGE_ID" by (rule repr_frame(2) [rotated])
    then have R: "repr (node_view bp2) (BNode ?q ts) INVALID_PAGE_ID" using f(3) u ok(3) by simp
    have T: "tree_ok (BNode ?q ts)" using ok(1) u(1) by simp
    have D: "distinct (tree_pages (BNode ?q ts))" using dist(1) \<open>?q \<notin> set (pages_of ts)\<close> by simp
    have E: "tree_entries (BNode ?q ts) = insert_entry k v es" using r(3) s(5) unfolding grown_def entries_node by blast
    have "unat (page_count bp2) = Suc (unat ?q)" unfolding f(4) using unat_next_page [OF q] by simp
    then have C: "unat (page_count bp2) = base + length (tree_pages (BNode ?q ts))"
      unfolding new(4) s(6) node_parts(2) list.size dist(2) by linarith
    let ?t = "\<lparr>bt_pool = bp2, bt_rootId = ?q\<rparr>"
    have t: "bt_pool ?t = bp2" "bt_rootId ?t = ?q" by (rule btree.select_convs)+
    have "btree_holds base ?t (insert_entry k v es)"
      by (rule btree_holdsI [where t = ?t, unfolded t, OF f(2) sorted root_of.simps(2) R T D E C])
    moreover have "bt_insert k v t = Some (Inr (), \<lparr>bt_pool = bp2, bt_rootId = ?q\<rparr>)"
      using r(1) Some f(1) u(2) by (simp add: bt_insert_def new_root_inner)
    ultimately show ?thesis by blast
  qed
qed

end
