(* ===== verification/Btree_Props.thy ===== *)
theory Btree_Props
  imports Btree_Insert
begin

text \<open>
  What the B-tree promises: after any insertions, searching and scanning a range find what was
  inserted, whatever fits in the pool, and every call returns.
\<close>

section \<open>Search\<close>

text \<open>The leaves of a tree are a linked list in the pages.\<close>

fun next_leaf :: "(page_id \<times> entry list) list \<Rightarrow> page_id \<Rightarrow> page_id" where
  "next_leaf [] e = e"
| "next_leaf (l # ls) e = fst l"

fun chained :: "(page_id \<rightharpoonup> btnode) \<Rightarrow> (page_id \<times> entry list) list \<Rightarrow> page_id \<Rightarrow> bool" where
  "chained m [] e \<longleftrightarrow> True"
| "chained m (l # ls) e \<longleftrightarrow> m (fst l) = Some (leaf_node (snd l) (next_leaf ls e)) \<and> chained m ls e"

lemma next_leaf_append: "next_leaf (xs @ ys) e = next_leaf xs (next_leaf ys e)"
  by (cases xs) simp_all

lemma chained_append: "chained m (xs @ ys) e \<longleftrightarrow> chained m xs (next_leaf ys e) \<and> chained m ys e"
  by (induction xs) (auto simp: next_leaf_append)

lemma link_next_leaf: "link ts e = next_leaf (leaves_of ts) e"
  by (cases "leaves_of ts") (simp_all add: link_def)

lemma repr_chained:
  "repr m s e \<Longrightarrow> chained m (leaves s) e"
  "repr_list m ts e \<Longrightarrow> chained m (leaves_of ts) e"
  by (induction m s e and m ts e rule: repr_repr_list.induct) (auto simp: chained_append link_next_leaf)

text \<open>What a tree needs to be read: any of its leaves can be loaded, and that changes nothing.\<close>

lemma holds_cases:
  assumes "btree_holds base t es"
  obtains s where "root_of s = bt_rootId t" "repr (node_view (bt_pool t)) s INVALID_PAGE_ID" "tree_ok s"
    "tree_entries s = es" "pool_idle (bt_pool t)" "sorted (map fst es)"
    "\<forall>bp. same_nodes (bt_pool t) bp \<longrightarrow> btree_holds base (t\<lparr>bt_pool := bp\<rparr>) es"
  using assms by (auto simp: btree_holds_def same_nodes_def)

lemma bt_search_holds:
  assumes "btree_holds base t es"
  shows "\<exists>r t'. bt_search k t = Some (Inr r, t') \<and> btree_holds base t' es \<and>
    (case r of None \<Rightarrow> k \<notin> fst ` set es | Some v \<Rightarrow> (k, v) \<in> set es)"
proof -
  from assms obtain s where s: "root_of s = bt_rootId t" "repr (node_view (bt_pool t)) s INVALID_PAGE_ID" "tree_ok s"
    "tree_entries s = es" "pool_idle (bt_pool t)" "sorted (map fst es)"
    "\<forall>bp. same_nodes (bt_pool t) bp \<longrightarrow> btree_holds base (t\<lparr>bt_pool := bp\<rparr>) es" by (rule holds_cases)
  have "sorted (map fst (tree_entries s))" using s(4,6) by simp
  from findLeaf_ok [OF s(5,2,3) this, of k] obtain bp1 p ls1 l ls2 where f:
    "findLeaf k (bt_rootId t) (bt_pool t) = Some (Inr p, bp1)" "same_nodes (bt_pool t) bp1" "leaves s = ls1 @ (p, l) # ls2"
    "around k ls1 l ls2" unfolding s(1) by blast
  have "pool_idle bp1" "node_view bp1 p = Some (leaf_node l (next_leaf ls2 INVALID_PAGE_ID))"
    using f(2,3) repr_chained(1) [OF s(2)] by (simp_all add: same_nodes_def chained_append)
  from load_same [OF this] obtain bp2 where b:
    "loadNode p bp1 = (Inr (leaf_node l (next_leaf ls2 INVALID_PAGE_ID)), bp2)" "same_nodes bp1 bp2" by blast
  have h: "btree_holds base (t\<lparr>bt_pool := bp2\<rparr>) es" by (rule s(7) [rule_format, OF same_nodes_trans [OF f(2) b(2)]])
  have e: "es = concat (map snd ls1) @ l @ concat (map snd ls2)" using f(3) s(4) by (simp add: tree_entries_def)
  have "case map_of l k of None \<Rightarrow> k \<notin> fst ` set es | Some v \<Rightarrow> (k, v) \<in> set es"
  proof (cases "map_of l k")
    case (Some v)
    then show ?thesis using map_of_SomeD [OF Some] by (simp add: e)
  next
    case None
    have "fst x \<noteq> k" if "x \<in> set (concat (map snd ls1))" for x
    proof
      assume "fst x = k"
      have "fst x \<le> k \<and> l \<noteq> [] \<and> fst x \<le> fst (hd l) \<and> fst (hd l) \<le> k" using f(4) that unfolding around_def by blast
      then have "l \<noteq> []" "fst (hd l) = k" using \<open>fst x = k\<close> by auto
      then have "k \<in> fst ` set l" by (metis hd_in_set image_eqI)
      with None show False by (simp add: map_of_eq_None_iff)
    qed
    moreover have "k < fst x" if "x \<in> set (concat (map snd ls2))" for x
      using f(4) that unfolding around_def by blast
    ultimately have "k \<notin> fst ` set es" using None unfolding e map_of_eq_None_iff by (force simp del: set_concat)
    then show ?thesis using None by simp
  qed
  moreover have "bt_search k t = Some (Inr (map_of l k), t\<lparr>bt_pool := bp2\<rparr>)"
    using f(1) b(1) by (simp add: bt_search_def find_value_map_of)
  ultimately show ?thesis using h by blast
qed

section \<open>Range scan\<close>

abbreviation in_range :: "string \<Rightarrow> string \<Rightarrow> entry \<Rightarrow> bool" where
  "in_range lo hi \<equiv> \<lambda>(k, v). lo \<le> k \<and> k \<le> hi"

lemma scan_leaf_sorted:
  "sorted (map fst es) \<Longrightarrow> scan_leaf lo hi es = (filter (in_range lo hi) es, \<exists>e\<in>set es. hi < fst e)"
proof (induction lo hi es rule: scan_leaf.induct)
  case (2 lo hi k v es)
  show ?case
  proof (cases "hi < k")
    case True
    with 2(2) have "\<forall>e\<in>set es. hi < fst e" by auto
    then have "filter (in_range lo hi) es = []" by (auto simp: filter_empty_conv)
    then show ?thesis using True by auto
  next
    case False
    then show ?thesis using 2 by auto
  qed
qed simp

lemma zip_entries: "zip (map fst es) (fill 5 [] (map snd es)) = es"
proof -
  have "zip (map fst es) (map snd es @ r) = es" for r by (induction es) auto
  then show ?thesis by (simp add: fill_def)
qed

lemma scan_leaves_chained:
  assumes "pool_idle bp" "chained (node_view bp) ls INVALID_PAGE_ID" "sorted (map fst (concat (map snd ls)))"
  shows "\<exists>bp'. scan_leaves lo hi (next_leaf ls INVALID_PAGE_ID) acc bp =
      Some (Inr (acc @ filter (in_range lo hi) (concat (map snd ls))), bp') \<and> same_nodes bp bp'"
  using assms
proof (induction ls arbitrary: bp acc)
  case Nil
  then show ?case by (simp add: scan_leaves.simps same_nodes_def)
next
  case (Cons l ls)
  obtain p es where l: "l = (p, es)" by (cases l)
  let ?rest = "concat (map snd ls)"
  have m: "node_view bp p = Some (leaf_node es (next_leaf ls INVALID_PAGE_ID))" using Cons.prems(2) l by simp
  from load_same [OF Cons.prems(1) m] obtain bp1 where
    b: "loadNode p bp = (Inr (leaf_node es (next_leaf ls INVALID_PAGE_ID)), bp1)" "same_nodes bp bp1" by blast
  have p: "p \<noteq> INVALID_PAGE_ID" using pool_nodes.nodes_dom [OF Cons.prems(1), of p] m by (intro less_not_invalid) simp
  have srt: "sorted (map fst es)" "sorted (map fst ?rest)" "\<forall>x\<in>set es. \<forall>y\<in>set ?rest. fst x \<le> fst y"
    using Cons.prems(3) l by (auto simp: sorted_append)
  let ?found = "filter (in_range lo hi) es"
  have step: "scan_leaves lo hi p acc bp = (if \<exists>e\<in>set es. hi < fst e then Some (Inr (acc @ ?found), bp1)
      else scan_leaves lo hi (next_leaf ls INVALID_PAGE_ID) (acc @ ?found) bp1)"
    using b(1) p by (simp add: scan_leaves.simps [of lo hi p] zip_entries scan_leaf_sorted [OF srt(1)])
  show ?case
  proof (cases "\<exists>e\<in>set es. hi < fst e")
    case True
    then have "\<forall>y\<in>set ?rest. hi < fst y" using srt(3) by (blast intro: less_le_trans)
    then have "filter (in_range lo hi) ?rest = []" by (auto simp: filter_empty_conv simp del: set_concat)
    then show ?thesis using True step b(2) l by simp
  next
    case False
    have "pool_idle bp1" "chained (node_view bp1) ls INVALID_PAGE_ID" using Cons.prems(2) b(2) by (simp_all add: same_nodes_def)
    from Cons.IH [OF this srt(2), of "acc @ ?found"] obtain bp2 where
      "scan_leaves lo hi (next_leaf ls INVALID_PAGE_ID) (acc @ ?found) bp1 =
        Some (Inr ((acc @ ?found) @ filter (in_range lo hi) ?rest), bp2)" "same_nodes bp1 bp2" by blast
    then show ?thesis using False step l same_nodes_trans [OF b(2)] by (intro exI [of _ bp2]) simp
  qed
qed

lemma bt_rangeScan_holds:
  assumes "btree_holds base t es" "distinct (map fst es)"
  shows "\<exists>t'. bt_rangeScan lo hi t = Some (Inr (filter (in_range lo hi) es), t') \<and> btree_holds base t' es"
proof -
  from assms(1) obtain s where s: "root_of s = bt_rootId t" "repr (node_view (bt_pool t)) s INVALID_PAGE_ID" "tree_ok s"
    "tree_entries s = es" "pool_idle (bt_pool t)" "sorted (map fst es)"
    "\<forall>bp. same_nodes (bt_pool t) bp \<longrightarrow> btree_holds base (t\<lparr>bt_pool := bp\<rparr>) es" by (rule holds_cases)
  have "sorted (map fst (tree_entries s))" using s(4,6) by simp
  from findLeaf_ok [OF s(5,2,3) this, of lo] obtain bp1 p ls1 l ls2 where f:
    "findLeaf lo (bt_rootId t) (bt_pool t) = Some (Inr p, bp1)" "same_nodes (bt_pool t) bp1" "leaves s = ls1 @ (p, l) # ls2"
    "around lo ls1 l ls2" unfolding s(1) by blast
  let ?ls = "(p, l) # ls2"
  have e: "es = concat (map snd ls1) @ concat (map snd ?ls)" using f(3) s(4) by (simp add: tree_entries_def)
  have "pool_idle bp1" "chained (node_view bp1) ?ls INVALID_PAGE_ID" "sorted (map fst (concat (map snd ?ls)))"
    using f(2,3) repr_chained(1) [OF s(2)] s(6) unfolding e by (auto simp: same_nodes_def chained_append sorted_append)
  from scan_leaves_chained [OF this, of lo hi "[]"] obtain bp2 where b:
    "scan_leaves lo hi p [] bp1 = Some (Inr (filter (in_range lo hi) (concat (map snd ?ls))), bp2)" "same_nodes bp1 bp2"
    by auto
  have "fst x < lo" if x: "x \<in> set (concat (map snd ls1))" for x
  proof -
    have le: "fst x \<le> lo" "l \<noteq> []" "fst x \<le> fst (hd l)" "fst (hd l) \<le> lo"
      using f(4) x unfolding around_def by blast+
    have "fst (hd l) \<in> set (map fst (concat (map snd ?ls)))" using le(2) by simp
    moreover have "fst x \<in> set (map fst (concat (map snd ls1)))" using x unfolding set_map by (rule imageI)
    moreover have "set (map fst (concat (map snd ls1))) \<inter> set (map fst (concat (map snd ?ls))) = {}"
      using assms(2) unfolding e map_append distinct_append by (elim conjE)
    ultimately have "fst x \<noteq> fst (hd l)" by (metis disjoint_iff)
    with le show ?thesis by auto
  qed
  then have "filter (in_range lo hi) (concat (map snd ls1)) = []" by (fastforce simp: filter_empty_conv simp del: set_concat)
  then have "filter (in_range lo hi) (concat (map snd ?ls)) = filter (in_range lo hi) es" unfolding e filter_append by simp
  then have "bt_rangeScan lo hi t = Some (Inr (filter (in_range lo hi) es), t\<lparr>bt_pool := bp2\<rparr>)"
    using f(1) b(1) by (simp add: bt_rangeScan_def)
  with s(7) [rule_format, OF same_nodes_trans [OF f(2) b(2)]] show ?thesis by blast
qed

section \<open>Insertion, then search\<close>

text \<open>
  C3. Inserting a key and a value that are words of at most 500 characters (not empty, without white
  space or NUL) into a B-tree of such words refines inserting into a sorted list, with duplicates: the call
  returns, no page is left damaged, the entry comes after the entries whose keys are not above
  its own, and the tree is again one that represents the list, however few pages fit in the
  pool. A search of such a tree finds a value of the key exactly when there is one. Four pages per
  entry must have numbers left, of 32 bits. Other keys damage their node (\<open>node_blank_key\<close>).
\<close>

theorem bt_insert_refines:
  assumes "btree_holds base t es" "word_fits k" "word_fits v" "base + 4 * length es + 3 < 2 ^ 32"
  shows "\<exists>t'. bt_insert k v t = Some (Inr (), t') \<and> btree_holds base t' (insert_entry k v es) \<and>
    (\<forall>key. \<exists>r t''. bt_search key t' = Some (Inr r, t'') \<and> btree_holds base t'' (insert_entry k v es) \<and>
      (case r of None \<Rightarrow> key \<notin> insert k (fst ` set es) | Some value \<Rightarrow> (key, value) \<in> insert (k, v) (set es)))"
proof -
  obtain t' where t': "bt_insert k v t = Some (Inr (), t')" "btree_holds base t' (insert_entry k v es)"
    using bt_insert_holds [OF assms] by blast
  have "\<exists>r t''. bt_search key t' = Some (Inr r, t'') \<and> btree_holds base t'' (insert_entry k v es) \<and>
      (case r of None \<Rightarrow> key \<notin> insert k (fst ` set es) | Some value \<Rightarrow> (key, value) \<in> insert (k, v) (set es))" for key
    using bt_search_holds [OF t'(2), of key] unfolding set_insert_entry image_insert fst_conv .
  with t' show ?thesis by blast
qed

lemma fresh_btree:
  assumes "0 < poolSize" "DiskManager_open None True = Inr d"
  shows "\<exists>rootId bp. BTree_init (BufferPool_init poolSize d) = (Inr rootId, bp) \<and>
    btree_holds 0 \<lparr>bt_pool = bp, bt_rootId = rootId\<rparr> []"
proof -
  have d: "d = \<lparr>dk_file = \<lparr>fs_bytes = [], fs_pos = 0, fs_eof = False, fs_fail = False\<rparr>, dk_pageCount = 0\<rparr>"
    using assms(2) by (simp add: DiskManager_open_def fs_open_def fs_seekg_def)
  then have "disk_ok d" by (simp add: disk_ok_def fs_good_def)
  then have "pool_idle (BufferPool_init poolSize d)" using pool_init_idle assms(1) by blast
  from BTree_init_holds [OF this] show ?thesis by (simp add: d BufferPool_init_def)
qed

theorem bt_insert_refines_witness:
  "\<exists>d rootId bp t'. DiskManager_open None True = Inr d \<and> BTree_init (BufferPool_init 1 d) = (Inr rootId, bp) \<and>
    bt_insert ''ann'' ''7'' \<lparr>bt_pool = bp, bt_rootId = rootId\<rparr> = Some (Inr (), t') \<and> btree_holds 0 t' [(''ann'', ''7'')]"
proof -
  have "\<exists>d. DiskManager_open None True = Inr d" by (simp add: DiskManager_open_def fs_open_def fs_seekg_def)
  then obtain d where d: "DiskManager_open None True = Inr d" by blast
  obtain rootId bp where b: "BTree_init (BufferPool_init 1 d) = (Inr rootId, bp)"
    "btree_holds 0 \<lparr>bt_pool = bp, bt_rootId = rootId\<rparr> []" using fresh_btree [OF _ d, of 1] by auto
  have "word_fits ''ann''" "word_fits ''7''" by (simp_all add: word_fits_def word_ok_def isspace_def)
  from bt_insert_refines [OF b(2) this] d b(1) show ?thesis by (auto simp: insert_entry_def)
qed

end
