(* ===== verification/Index.thy ===== *)
theory Index
  imports Btree_Props
begin

text \<open>
  An ordered index and its two implementations: the B-tree, and the in-memory index of main.cpp
  (\<open>SimpleIndex\<close>, lines 15-41), which stands for it in the demonstration. The contract is a
  locale over a sorted list of tree_entries; \<open>BTree\<close> and \<open>SimpleIndex\<close> are its interpretations.
\<close>

section \<open>The in-memory index\<close>

text \<open>\<open>std::map<std::string, std::string>\<close> is the list of its entries in the order of the keys.\<close>

type_synonym simpleIndex = "entry list"

fun si_insert :: "string \<Rightarrow> string \<Rightarrow> simpleIndex \<Rightarrow> simpleIndex" where
  "si_insert key value [] = [(key, value)]"
| "si_insert key value ((k, v) # es) =
    (if key < k then (key, value) # (k, v) # es
     else if key = k then (key, value) # es
     else (k, v) # si_insert key value es)"

definition si_search :: "string \<Rightarrow> simpleIndex \<Rightarrow> string option" where
  "si_search key es = map_of es key"

text \<open>\<open>lower_bound\<close>, and the loop from there.\<close>

definition lower_bound :: "string \<Rightarrow> simpleIndex \<Rightarrow> entry list" where
  "lower_bound key es = dropWhile (\<lambda>e. fst e < key) es"

fun si_scan :: "string \<Rightarrow> entry list \<Rightarrow> entry list \<Rightarrow> entry list" where
  "si_scan hi [] result = result"
| "si_scan hi (it # its) result = (if fst it \<le> hi then si_scan hi its (result @ [it]) else result)"

definition si_rangeScan :: "string \<Rightarrow> string \<Rightarrow> simpleIndex \<Rightarrow> entry list" where
  "si_rangeScan lo hi es = si_scan hi (lower_bound lo es) []"

section \<open>Uses of an index\<close>

datatype index_op = IxInsert string string | IxSearch string | IxScan string string

datatype index_answer = IxDone | IxFound "string option" | IxEntries "entry list" | IxFailed store_error

type_synonym ('s, 'a) call = "'s \<Rightarrow> ((store_error + 'a) \<times> 's) option"

definition ix_answer :: "('a \<Rightarrow> index_answer) \<Rightarrow> ((store_error + 'a) \<times> 's) option \<Rightarrow> (index_answer \<times> 's) option" where
  "ix_answer f = map_option (map_prod (case_sum IxFailed f) (\<lambda>s. s))"

fun ix_ask :: "(string \<Rightarrow> string \<Rightarrow> ('s, unit) call) \<Rightarrow> (string \<Rightarrow> ('s, string option) call) \<Rightarrow>
    (string \<Rightarrow> string \<Rightarrow> ('s, entry list) call) \<Rightarrow> index_op \<Rightarrow> 's \<Rightarrow> (index_answer \<times> 's) option" where
  "ix_ask ins srch scan (IxInsert k v) s = ix_answer (\<lambda>_. IxDone) (ins k v s)"
| "ix_ask ins srch scan (IxSearch k) s = ix_answer IxFound (srch k s)"
| "ix_ask ins srch scan (IxScan lo hi) s = ix_answer IxEntries (scan lo hi s)"

fun ix_run :: "(index_op \<Rightarrow> 's \<Rightarrow> (index_answer \<times> 's) option) \<Rightarrow> index_op list \<Rightarrow> 's \<Rightarrow> (index_answer list \<times> 's) option" where
  "ix_run call [] s = Some ([], s)"
| "ix_run call (op # ops) s = Option.bind (call op s) (\<lambda>(a, s1).
     Option.bind (ix_run call ops s1) (\<lambda>(as, s2). Some (a # as, s2)))"

text \<open>What the answers should be: those of the list of all entries inserted so far.\<close>

fun ix_spec :: "index_op list \<Rightarrow> entry list \<Rightarrow> index_answer list" where
  "ix_spec [] es = []"
| "ix_spec (IxInsert k v # ops) es = IxDone # ix_spec ops (insert_entry k v es)"
| "ix_spec (IxSearch k # ops) es = IxFound (map_of es k) # ix_spec ops es"
| "ix_spec (IxScan lo hi # ops) es = IxEntries (filter (in_range lo hi) es) # ix_spec ops es"

text \<open>
  Each key is inserted once (\<open>fresh_keys\<close>), and what is inserted are words: not empty, without white
  space or NUL, and of at most 500 characters (\<open>words_fit\<close>).
\<close>

fun fresh_keys :: "index_op list \<Rightarrow> string list \<Rightarrow> bool" where
  "fresh_keys [] ks = True"
| "fresh_keys (IxInsert k v # ops) ks = (k \<notin> set ks \<and> fresh_keys ops (k # ks))"
| "fresh_keys (_ # ops) ks = fresh_keys ops ks"

fun words_fit :: "index_op \<Rightarrow> bool" where
  "words_fit (IxInsert k v) = (word_fits k \<and> word_fits v)"
| "words_fit _ = True"

fun inserts :: "index_op list \<Rightarrow> nat" where
  "inserts [] = 0"
| "inserts (IxInsert k v # ops) = Suc (inserts ops)"
| "inserts (_ # ops) = inserts ops"

section \<open>The contract\<close>

text \<open>\<open>holds n s es\<close>: the index \<open>s\<close> has the entries \<open>es\<close>, and room for \<open>n\<close> more.\<close>

locale ordered_index =
  fixes holds :: "nat \<Rightarrow> 's \<Rightarrow> entry list \<Rightarrow> bool"
    and ins :: "string \<Rightarrow> string \<Rightarrow> ('s, unit) call"
    and srch :: "string \<Rightarrow> ('s, string option) call"
    and scan :: "string \<Rightarrow> string \<Rightarrow> ('s, entry list) call"
  assumes ins_new: "holds (Suc n) s es \<Longrightarrow> k \<notin> fst ` set es \<Longrightarrow> word_fits k \<Longrightarrow> word_fits v \<Longrightarrow>
      \<exists>s'. ins k v s = Some (Inr (), s') \<and> holds n s' (insert_entry k v es)"
    and srch_ok: "holds n s es \<Longrightarrow> \<exists>s'. srch k s = Some (Inr (map_of es k), s') \<and> holds n s' es"
    and scan_ok: "holds n s es \<Longrightarrow> \<exists>s'. scan lo hi s = Some (Inr (filter (in_range lo hi) es), s') \<and> holds n s' es"
begin

lemma run_spec:
  assumes "holds n s es" "fresh_keys ops ks" "fst ` set es \<subseteq> set ks" "inserts ops \<le> n" "list_all words_fit ops"
  shows "\<exists>s'. ix_run (ix_ask ins srch scan) ops s = Some (ix_spec ops es, s')"
  using assms
proof (induction ops arbitrary: n s es ks)
  case Nil
  then show ?case by simp
next
  case (Cons op ops)
  show ?case
  proof (cases op)
    case (IxInsert k v)
    then obtain n' where n: "n = Suc n'" using Cons.prems(4) by (cases n) simp_all
    have "k \<notin> fst ` set es" "word_fits k" "word_fits v" using Cons.prems(2,3,5) IxInsert by auto
    from ins_new [OF Cons.prems(1) [unfolded n] this] obtain s' where
      s': "ins k v s = Some (Inr (), s')" "holds n' s' (insert_entry k v es)" by blast
    have "fresh_keys ops (k # ks)" "fst ` set (insert_entry k v es) \<subseteq> set (k # ks)" "inserts ops \<le> n'"
      using Cons.prems IxInsert n by auto
    from Cons.IH [OF s'(2) this] show ?thesis using s'(1) IxInsert Cons.prems(5) by (auto simp: ix_answer_def)
  next
    case (IxSearch k)
    obtain s' where s': "srch k s = Some (Inr (map_of es k), s')" "holds n s' es"
      using srch_ok [OF Cons.prems(1)] by blast
    from Cons.IH [OF s'(2), of ks] Cons.prems IxSearch s'(1) show ?thesis by (auto simp: ix_answer_def)
  next
    case (IxScan lo hi)
    obtain s' where s': "scan lo hi s = Some (Inr (filter (in_range lo hi) es), s')" "holds n s' es"
      using scan_ok [OF Cons.prems(1)] by blast
    from Cons.IH [OF s'(2), of ks] Cons.prems IxScan s'(1) show ?thesis by (auto simp: ix_answer_def)
  qed
qed

end

section \<open>The B-tree is an ordered index\<close>

definition btree_index :: "nat \<Rightarrow> btree \<Rightarrow> entry list \<Rightarrow> bool" where
  "btree_index n t es \<longleftrightarrow> distinct (map fst es) \<and> (\<exists>base. btree_holds base t es \<and> base + 4 * (length es + n) < 2 ^ 32)"

lemma distinct_insert_entry:
  assumes "k \<notin> fst ` set es" "distinct (map fst es)"
  shows "distinct (map fst (insert_entry k v es))"
proof -
  have "mset (map fst (insert_entry k v es)) = mset (k # map fst es)" by (simp add: mset_insert_entry)
  from mset_eq_imp_distinct_iff [OF this] assms show ?thesis by simp
qed

lemma sorted_distinct_map_of:
  "distinct (map fst es) \<Longrightarrow> (k, v) \<in> set es \<Longrightarrow> map_of es k = Some v"
  by simp

interpretation btree_ix: ordered_index btree_index bt_insert bt_search bt_rangeScan
proof (unfold_locales, goal_cases)
  case (1 n s es k v)
  then obtain base where b: "btree_holds base s es" "base + 4 * (length es + Suc n) < 2 ^ 32" "distinct (map fst es)"
    by (auto simp: btree_index_def)
  have "base + 4 * length es + 3 < 2 ^ 32" using b(2) by simp
  from bt_insert_holds [OF b(1) 1(3,4) this] obtain s' where
    "bt_insert k v s = Some (Inr (), s')" "btree_holds base s' (insert_entry k v es)" by blast
  then show ?case using b distinct_insert_entry [OF 1(2) b(3)] by (auto simp: btree_index_def intro!: exI [of _ base])
next
  case (2 n s es k)
  then obtain base where b: "btree_holds base s es" "base + 4 * (length es + n) < 2 ^ 32" "distinct (map fst es)"
    by (auto simp: btree_index_def)
  from bt_search_holds [OF b(1), of k] obtain r s' where r: "bt_search k s = Some (Inr r, s')" "btree_holds base s' es"
    "case r of None \<Rightarrow> k \<notin> fst ` set es | Some v \<Rightarrow> (k, v) \<in> set es" by blast
  have "r = map_of es k"
  proof (cases r)
    case None
    with r(3) have "map_of es k = None" unfolding map_of_eq_None_iff by simp
    with None show ?thesis by simp
  next
    case (Some v)
    then show ?thesis using r(3) b(3) by simp
  qed
  then show ?case using b r by (auto simp: btree_index_def)
next
  case (3 n s es lo hi)
  then obtain base where b: "btree_holds base s es" "base + 4 * (length es + n) < 2 ^ 32" "distinct (map fst es)"
    by (auto simp: btree_index_def)
  from bt_rangeScan_holds [OF b(1,3), of lo hi] b show ?case by (auto simp: btree_index_def)
qed

section \<open>So is the in-memory index\<close>

lemma si_insert_new:
  "sorted (map fst es) \<Longrightarrow> k \<notin> fst ` set es \<Longrightarrow> si_insert k v es = insert_entry k v es"
proof (induction k v es rule: si_insert.induct)
  case (2 k v k' v' es)
  show ?case
  proof (cases "k < k'")
    case False
    then have "k' < k" using 2(3) by auto
    then show ?thesis using 2 False by (simp add: insert_entry_def)
  qed (auto simp: insert_entry_def)
qed (simp add: insert_entry_def)

lemma si_scan_takeWhile: "si_scan hi es result = result @ takeWhile (\<lambda>e. fst e \<le> hi) es"
  by (induction hi es result rule: si_scan.induct) simp_all

lemma sorted_cuts:
  "sorted (map fst es) \<Longrightarrow> takeWhile (\<lambda>e. fst e \<le> hi) es = filter (\<lambda>e. fst e \<le> hi) es"
  "sorted (map fst es) \<Longrightarrow> dropWhile (\<lambda>e. fst e < lo) es = filter (\<lambda>e. lo \<le> fst e) es"
proof (induction es)
  case (Cons e es)
  { case 1
    show ?case
    proof (cases "fst e \<le> hi")
      case False
      then have "\<forall>x\<in>set es. \<not> fst x \<le> hi" using 1 by (auto dest: order.trans)
      then show ?thesis using False by (simp add: filter_empty_conv)
    qed (use 1 Cons.IH(1) in auto)
  next
    case 2
    show ?case
    proof (cases "fst e < lo")
      case False
      then have "\<forall>x\<in>set es. lo \<le> fst x" using 2 by (auto intro: order.trans)
      then show ?thesis using False by simp
    qed (use 2 Cons.IH(2) in auto)
  }
qed simp_all

lemma si_rangeScan_filter:
  "sorted (map fst es) \<Longrightarrow> si_rangeScan lo hi es = filter (in_range lo hi) es"
proof -
  assume s: "sorted (map fst es)"
  then have "sorted (map fst (filter (\<lambda>e. lo \<le> fst e) es))" by (rule sorted_filter)
  from sorted_cuts(1) [OF this, of hi] sorted_cuts(2) [OF s, of lo] show ?thesis
    by (simp add: si_rangeScan_def lower_bound_def si_scan_takeWhile case_prod_beta' conj_commute)
qed

text \<open>It has room for everything, and never fails.\<close>

definition simple_index :: "nat \<Rightarrow> simpleIndex \<Rightarrow> entry list \<Rightarrow> bool" where
  "simple_index n s es \<longleftrightarrow> s = es \<and> sorted (map fst es)"

definition always :: "('s \<Rightarrow> 'a \<times> 's) \<Rightarrow> ('s, 'a) call" where
  "always f s = (case f s of (x, s') \<Rightarrow> Some (Inr x, s'))"

definition si_ins_call :: "string \<Rightarrow> string \<Rightarrow> (simpleIndex, unit) call" where
  "si_ins_call k v = always (\<lambda>s. ((), si_insert k v s))"

definition si_search_call :: "string \<Rightarrow> (simpleIndex, string option) call" where
  "si_search_call k = always (\<lambda>s. (si_search k s, s))"

definition si_scan_call :: "string \<Rightarrow> string \<Rightarrow> (simpleIndex, entry list) call" where
  "si_scan_call lo hi = always (\<lambda>s. (si_rangeScan lo hi s, s))"

interpretation simple_ix: ordered_index simple_index si_ins_call si_search_call si_scan_call
  by unfold_locales (auto simp: simple_index_def always_def si_ins_call_def si_search_call_def si_scan_call_def
      si_insert_new si_search_def si_rangeScan_filter sorted_insert_entry)

section \<open>The two agree\<close>

lemma btree_run:
  assumes "0 < poolSize" "DiskManager_open None True = Inr d" "fresh_keys ops []" "list_all words_fit ops"
    and "4 * inserts ops < 2 ^ 32"
  shows "\<exists>rootId bp t. BTree_init (BufferPool_init poolSize d) = (Inr rootId, bp) \<and>
    ix_run (ix_ask bt_insert bt_search bt_rangeScan) ops \<lparr>bt_pool = bp, bt_rootId = rootId\<rparr> = Some (ix_spec ops [], t)"
proof -
  obtain rootId bp where b: "BTree_init (BufferPool_init poolSize d) = (Inr rootId, bp)"
    "btree_holds 0 \<lparr>bt_pool = bp, bt_rootId = rootId\<rparr> []" using fresh_btree [OF assms(1,2)] by blast
  then have "btree_index (inserts ops) \<lparr>bt_pool = bp, bt_rootId = rootId\<rparr> []"
    using assms(5) by (auto simp: btree_index_def intro!: exI [of _ 0])
  from btree_ix.run_spec [OF this assms(3) _ _ assms(4)] b(1) show ?thesis by auto
qed

text \<open>
  C7. A new B-tree answers like a sorted list, when each key is inserted once and the keys and
  values inserted are words of at most 500 characters: not empty, without white space or NUL.
  Whatever is searched for and scanned in between, in any order and with any number of pages in
  memory, every call returns, a search gives the value inserted under the key or nothing, and a range
  scan gives exactly the entries of the range, in the order of their keys. (A node stores its keys
  and values as text that \<open>operator>>\<close> reads back: other keys damage it, \<open>node_blank_key\<close>. At most
  a billion insertions, as pages are numbered with 32 bits.)
\<close>

theorem btree_answers:
  assumes "0 < poolSize" "DiskManager_open None True = Inr d" "fresh_keys ops []" "list_all words_fit ops"
    and "4 * inserts ops < 2 ^ 32"
  shows "\<exists>rootId bp t. BTree_init (BufferPool_init poolSize d) = (Inr rootId, bp) \<and>
    ix_run (ix_ask bt_insert bt_search bt_rangeScan) ops \<lparr>bt_pool = bp, bt_rootId = rootId\<rparr> = Some (ix_spec ops [], t)"
  by (rule btree_run [OF assms])

lemma new_disk: "\<exists>d. DiskManager_open None True = Inr d"
  by (simp add: DiskManager_open_def fs_open_def fs_seekg_def)

abbreviation demo_ops :: "index_op list" where
  "demo_ops \<equiv> [IxInsert ''user:003'' ''Carol'', IxInsert ''user:001'' ''Alice'', IxInsert ''user:002'' ''Bob'',
     IxSearch ''user:002'', IxSearch ''user:999'', IxScan ''user:002'' ''user:003'']"

lemma demo_fresh: "fresh_keys demo_ops []" "list_all words_fit demo_ops" "inserts demo_ops = 3"
  "ix_spec demo_ops [] = [IxDone, IxDone, IxDone, IxFound (Some ''Bob''), IxFound None,
     IxEntries [(''user:002'', ''Bob''), (''user:003'', ''Carol'')]]"
  by (simp_all add: word_fits_def word_ok_def isspace_def insert_entry_def)

theorem btree_answers_witness:
  "\<exists>d rootId bp t. DiskManager_open None True = Inr d \<and> BTree_init (BufferPool_init 1 d) = (Inr rootId, bp) \<and>
    ix_run (ix_ask bt_insert bt_search bt_rangeScan) demo_ops \<lparr>bt_pool = bp, bt_rootId = rootId\<rparr> =
      Some ([IxDone, IxDone, IxDone, IxFound (Some ''Bob''), IxFound None,
        IxEntries [(''user:002'', ''Bob''), (''user:003'', ''Carol'')]], t)"
proof -
  obtain d where d: "DiskManager_open None True = Inr d" using new_disk by blast
  from btree_answers [OF _ d demo_fresh(1,2), of 1, unfolded demo_fresh(3,4)] show ?thesis using d by auto
qed

text \<open>
  C34. Where \<open>SimpleIndex\<close>, the index of the demonstration, and \<open>BTree\<close>, over a buffer pool of any size,
  agree: on any sequence of searches, range scans and insertions of new keys, when the keys and
  values inserted are words of at most 500 characters (not empty, without white space or NUL), they give
  the same answers, for up to a billion insertions. Nothing is claimed of other keys: blanks damage a
  node of the B-tree (\<open>node_blank_key\<close>), and of a key inserted twice it keeps both entries.
\<close>

theorem simple_index_agrees:
  assumes "0 < poolSize" "DiskManager_open None True = Inr d" "fresh_keys ops []" "list_all words_fit ops"
    and "4 * inserts ops < 2 ^ 32"
  shows "\<exists>rootId bp. BTree_init (BufferPool_init poolSize d) = (Inr rootId, bp) \<and>
    map_option fst (ix_run (ix_ask si_ins_call si_search_call si_scan_call) ops []) =
    map_option fst (ix_run (ix_ask bt_insert bt_search bt_rangeScan) ops \<lparr>bt_pool = bp, bt_rootId = rootId\<rparr>)"
proof -
  have "simple_index (inserts ops) [] []" by (simp add: simple_index_def)
  from simple_ix.run_spec [OF this assms(3) _ _ assms(4)] btree_run [OF assms] show ?thesis by fastforce
qed

theorem simple_index_agrees_witness:
  "\<exists>d rootId bp. DiskManager_open None True = Inr d \<and> BTree_init (BufferPool_init 1 d) = (Inr rootId, bp) \<and>
    map_option fst (ix_run (ix_ask bt_insert bt_search bt_rangeScan) demo_ops \<lparr>bt_pool = bp, bt_rootId = rootId\<rparr>) =
      Some [IxDone, IxDone, IxDone, IxFound (Some ''Bob''), IxFound None,
        IxEntries [(''user:002'', ''Bob''), (''user:003'', ''Carol'')]]"
proof -
  obtain d where d: "DiskManager_open None True = Inr d" using new_disk by blast
  have "simple_index 3 [] []" by (simp add: simple_index_def)
  from simple_ix.run_spec [OF this demo_fresh(1) _ _ demo_fresh(2), unfolded demo_fresh(3)] obtain s where
    "ix_run (ix_ask si_ins_call si_search_call si_scan_call) demo_ops [] = Some (ix_spec demo_ops [], s)"
    by auto
  with simple_index_agrees [OF _ d demo_fresh(1,2), of 1, unfolded demo_fresh(3)] d show ?thesis
    unfolding demo_fresh(4) by fastforce
qed

end
