(* ===== verification/Demo.thy ===== *)
theory Demo
  imports Queries Rollback Index
begin

text \<open>
  The demonstration program (src/main.cpp, \<open>main\<close>): it runs two queries on a table of five rows,
  commits one transaction and rolls back another, uses the in-memory index, and takes and
  releases locks. Each part is a function that returns what the program prints of it, without the headings
  and the layout of the lines; the lemmas evaluate them.
\<close>

definition demo_row :: "string \<Rightarrow> string \<Rightarrow> string \<Rightarrow> row" where
  "demo_row i n a = fmap_of_list [(''id'', i), (''name'', n), (''age'', a)]"

definition demo_users :: "row list" where
  "demo_users = [demo_row ''1'' ''Alice'' ''35'', demo_row ''2'' ''Bob'' ''22'', demo_row ''3'' ''Carol'' ''31'',
     demo_row ''4'' ''Dave'' ''17'', demo_row ''5'' ''Eve'' ''45'']"

definition demo_storage :: table_storage where
  "demo_storage = [''users'' \<mapsto> demo_users]"

definition demo_queries :: "sorter \<Rightarrow> table_storage \<Rightarrow> (sql_error + row list) option list" where
  "demo_queries srt storage = map (runSQL srt storage)
     [''SELECT id, name FROM users WHERE age >= 30;'', ''SELECT * FROM users WHERE age >= 18 LIMIT 3;'']"

text \<open>A write of the demonstration: it is logged in the transaction and the row is added to the table.\<close>

definition demo_write :: "txn_id \<Rightarrow> string \<Rightarrow> row \<Rightarrow> table_storage \<times> txn_manager \<Rightarrow> table_storage \<times> txn_manager" where
  "demo_write tid key newRow = (\<lambda>(storage, m).
     (storage(''users'' \<mapsto> table_of storage ''users'' @ [newRow]),
      tm_logWrite tid \<lparr>wr_type = WrInsert, wr_table = ''users'', wr_key = key, wr_oldRow = fmempty, wr_newRow = newRow\<rparr> m))"

definition demo_size :: "table_storage \<Rightarrow> nat" where
  "demo_size storage = length (table_of storage ''users'')"

definition demo_transactions ::
  "row_ord \<Rightarrow> lsn \<Rightarrow> table_storage \<Rightarrow> txn_error + (txn_id \<times> nat) \<times> (txn_id \<times> nat \<times> nat) \<times> table_storage" where
  "demo_transactions ord junk storage =
    (let (t1, m1) = tm_begin junk (TransactionManager_init None);
         (storage1, m2) = demo_write t1 ''6'' (demo_row ''6'' ''Frank'' ''28'') (storage, m1)
     in ebind (tm_commit ord junk t1 m2) (\<lambda>m3.
     let (t2, m4) = tm_begin junk m3;
         (storage2, m5) = demo_write t2 ''99'' (demo_row ''99'' ''Temp'' ''0'') (storage1, m4)
     in ebind (tm_rollback ord junk t2 storage2 m5) (\<lambda>(storage3, m6).
     Inr ((t1, demo_size storage1), (t2, demo_size storage2, demo_size storage3), storage3))))"

definition demo_index :: "string list \<times> entry list" where
  "demo_index =
    (let idx = fold (\<lambda>(k, v). si_insert k v)
       [(''005'', ''Alice''), (''003'', ''Carol''), (''007'', ''Bob''), (''001'', ''Dave''),
        (''009'', ''Eve''), (''002'', ''Frank''), (''006'', ''Grace''), (''004'', ''Heidi'')] [];
       value_or = (\<lambda>r. case r of None \<Rightarrow> ''NOT FOUND'' | Some v \<Rightarrow> v)
     in (map (\<lambda>k. value_or (si_search k idx)) [''005'', ''003'', ''999''], si_rangeScan ''003'' ''007'' idx))"

definition demo_locks :: "bool list" where
  "demo_locks =
    (let (ok1, lm1) = acquireLock 1 ''users:1'' Shared Map.empty;
         (ok2, lm2) = acquireLock 2 ''users:1'' Shared lm1;
         (ok3, lm3) = acquireLock 3 ''users:1'' Exclusive lm2;
         (ok4, lm4) = acquireLock 3 ''users:1'' Exclusive (releaseAll 2 (releaseAll 1 lm3))
     in [ok1, ok2, ok3, ok4])"

text \<open>What the demonstration prints, for every iteration order and every sorting routine.\<close>

lemma demo_queries_output:
  "demo_queries srt demo_storage =
    [Some (Inr (map (\<lambda>(i, n). fmap_of_list [(''name'', n), (''id'', i)]) [(''1'', ''Alice''), (''3'', ''Carol''), (''5'', ''Eve'')])),
     Some (Inr [demo_row ''1'' ''Alice'' ''35'', demo_row ''2'' ''Bob'' ''22'', demo_row ''3'' ''Carol'' ''31''])]"
proof -
  have c: "compile_sql ''SELECT id, name FROM users WHERE age >= 30;'' =
      Inr (PhysicalProjection [''id'', ''name''] [PhysicalFilter
        (BinaryExpr ''>='' (ColumnRefExpr [] ''age'') (LiteralExpr LkInteger ''30'')) [PhysicalSeqScan ''users'' []]])"
    "compile_sql ''SELECT * FROM users WHERE age >= 18 LIMIT 3;'' =
      Inr (PhysicalLimit 3 [PhysicalProjection [''*''] [PhysicalFilter
        (BinaryExpr ''>='' (ColumnRefExpr [] ''age'') (LiteralExpr LkInteger ''18'')) [PhysicalSeqScan ''users'' []]]])"
    by code_simp+
  have r: "demo_storage ''users'' = Some demo_users" by (simp add: demo_storage_def)
  have "filter (evaluateExpr (BinaryExpr ''>='' (ColumnRefExpr [] ''age'') (LiteralExpr LkInteger ''30''))) demo_users =
      [demo_row ''1'' ''Alice'' ''35'', demo_row ''3'' ''Carol'' ''31'', demo_row ''5'' ''Eve'' ''45'']"
    "filter (evaluateExpr (BinaryExpr ''>='' (ColumnRefExpr [] ''age'') (LiteralExpr LkInteger ''18''))) demo_users =
      [demo_row ''1'' ''Alice'' ''35'', demo_row ''2'' ''Bob'' ''22'', demo_row ''3'' ''Carol'' ''31'', demo_row ''5'' ''Eve'' ''45'']"
    by code_simp+
  then show ?thesis
    by (simp add: demo_queries_def runSQL_def c execute_rows r SeqScan_rows_def) (simp add: project_row_def demo_row_def)
qed

lemma demo_transactions_output:
  "\<exists>storage. demo_transactions ord junk demo_storage = Inr ((1, 6), (2, 7, 6), storage) \<and>
    table_of storage ''users'' = demo_users @ [demo_row ''6'' ''Frank'' ''28'']"
proof -
  have "filter (\<lambda>r. \<not> has_key ''99'' r) (demo_users @ [demo_row ''6'' ''Frank'' ''28'', demo_row ''99'' ''Temp'' ''0'']) =
      demo_users @ [demo_row ''6'' ''Frank'' ''28'']" by code_simp
  then show ?thesis
    by (simp add: demo_transactions_def demo_write_def demo_size_def demo_storage_def tm_begin_def TransactionManager_init_def
        tm_commit_def tm_rollback_def tm_get_def tm_logWrite_def Transaction_init_def tx_active_def tx_logWrite_def tx_commit_def
        rollback_write_def table_of_def demo_users_def)
qed

lemma demo_index_output:
  "demo_index = ([''Alice'', ''Carol'', ''NOT FOUND''],
     [(''003'', ''Carol''), (''004'', ''Heidi''), (''005'', ''Alice''), (''006'', ''Grace''), (''007'', ''Bob'')])"
  by code_simp

lemma demo_locks_output: "demo_locks = [True, True, False, True]"
  by (simp add: demo_locks_def acquireLock_def entries_def releaseAll_def split: prod.split)

end
