(* ===== verification/Restart.thy ===== *)
theory Restart
  imports Volcano
begin

text \<open>
  Opening an operator again. Pulling rows changes cursors, buffers and hash tables, but not the
  rows the tree stands for, so \<open>open()\<close> starts the stream from its beginning in any state the
  tree is left in: after some rows, after the last one, after \<open>close()\<close>.
\<close>

lemma Filter_next_keeps:
  assumes step: "\<And>s y. nxt s = Some y \<Longrightarrow> Q s \<Longrightarrow> Q (snd y)"
  shows "Filter_next nxt e c = Some y \<Longrightarrow> Q c \<Longrightarrow> Q (snd y)"
proof (rule Filter_next.raw_induct [where P = "\<lambda>f e c y. f = nxt \<longrightarrow> Q c \<longrightarrow> Q (snd y)", rule_format])
  fix rec f e c y
  assume IH: "\<And>f e c y. rec f e c = Some y \<Longrightarrow> f = nxt \<Longrightarrow> Q c \<Longrightarrow> Q (snd y)"
    and eq: "Option.bind (f c) (\<lambda>(r, child'). case r of None \<Rightarrow> Some (None, child')
        | Some row \<Rightarrow> if evaluateExpr e row then Some (Some row, child') else rec f e child') = Some y"
    and f: "f = nxt" and q: "Q c"
  from eq obtain r c1 where c1: "nxt c = Some (r, c1)" by (auto simp: bind_eq_Some_conv f)
  with step [OF c1 q] eq show "Q (snd y)" by (auto simp: f split: option.splits if_splits intro: IH)
qed auto

lemma HashJoin_next_keeps:
  assumes step: "\<And>s y. nxt s = Some y \<Longrightarrow> Q s \<Longrightarrow> Q (snd y)"
  shows "HashJoin_next nxt pk tbl ms pr cur p = Some y \<Longrightarrow> Q p \<Longrightarrow> Q (snd (snd (snd (snd y))))"
proof (rule HashJoin_next.raw_induct [where P = "\<lambda>f pk tbl ms pr cur p y. f = nxt \<longrightarrow> Q p \<longrightarrow> Q (snd (snd (snd (snd y))))", rule_format])
  fix rec f pk tbl ms pr cur p y
  assume IH: "\<And>f pk tbl ms pr cur p y. rec f pk tbl ms pr cur p = Some y \<Longrightarrow> f = nxt \<Longrightarrow> Q p \<Longrightarrow> Q (snd (snd (snd (snd y))))"
    and eq: "(if cur < length ms then Some (Some (join_row pr (ms ! cur)), ms, pr, Suc cur, p)
        else Option.bind (f p) (\<lambda>(r, probe'). case r of None \<Rightarrow> Some (None, ms, pr, cur, probe')
          | Some row \<Rightarrow> (case Option.bind (fmlookup row pk) tbl of
              None \<Rightarrow> rec f pk tbl ms pr cur probe' | Some hit \<Rightarrow> rec f pk tbl hit row 0 probe'))) = Some y"
    and f: "f = nxt" and q: "Q p"
  show "Q (snd (snd (snd (snd y))))"
  proof (cases "cur < length ms")
    case False
    with eq obtain r p1 where p1: "nxt p = Some (r, p1)" by (auto simp: bind_eq_Some_conv f)
    with step [OF p1 q] eq False show ?thesis by (auto simp: f split: option.splits intro: IH)
  qed (use eq q in auto)
qed auto

lemma op_next_rows_raw: "op_next op = Some y \<Longrightarrow> op_rows srt (snd y) = op_rows srt op"
proof (rule op_next.raw_induct [where P = "\<lambda>op y. op_rows srt (snd y) = op_rows srt op"])
  fix rec self y
  assume IH: "\<And>self y. rec self = Some y \<Longrightarrow> op_rows srt (snd y) = op_rows srt self"
    and eq: "(case self of
      SeqScan t rows vrows snap cursor \<Rightarrow>
        (case SeqScan_next rows vrows snap cursor of (r, cursor') \<Rightarrow> Some (r, SeqScan t rows vrows snap cursor'))
    | Filter c e \<Rightarrow> Option.bind (Filter_next rec e c) (\<lambda>(r, c'). Some (r, Filter c' e))
    | Projection c cols \<Rightarrow> Option.bind (Projection_next rec cols c) (\<lambda>(r, c'). Some (r, Projection c' cols))
    | Sort c ob buffered cursor \<Rightarrow>
        (case Sort_next buffered cursor of (r, cursor') \<Rightarrow> Some (r, Sort c ob buffered cursor'))
    | Limit c cnt seen \<Rightarrow> Option.bind (Limit_next rec cnt seen c) (\<lambda>(r, seen', c'). Some (r, Limit c' cnt seen'))
    | HashJoin b p bk pk tbl ms pr cur \<Rightarrow>
        Option.bind (HashJoin_next rec pk tbl ms pr cur p) (\<lambda>(r, ms', pr', cur', p').
          Some (r, HashJoin b p' bk pk tbl ms' pr' cur'))) = Some y"
  show "op_rows srt (snd y) = op_rows srt self"
  proof (cases self)
    case (SeqScan t rows vrows snap cursor)
    then show ?thesis using eq by (auto split: prod.splits)
  next
    case (Filter c e)
    with eq obtain r c' where c': "Filter_next rec e c = Some (r, c')" "y = (r, Filter c' e)"
      by (auto simp: bind_eq_Some_conv)
    from Filter_next_keeps [where Q = "\<lambda>s. op_rows srt s = op_rows srt c", OF _ c'(1)] IH
    show ?thesis using c'(2) Filter by simp
  next
    case (Projection c cols)
    then show ?thesis using eq by (auto simp: bind_eq_Some_conv Projection_next_def dest!: IH)
  next
    case (Sort c ob buffered cursor)
    then show ?thesis using eq by (auto split: prod.splits)
  next
    case (Limit c cnt seen)
    then show ?thesis using eq by (auto simp: bind_eq_Some_conv Limit_next_def dest!: IH split: if_splits option.splits)
  next
    case (HashJoin b p bk pk tbl ms pr cur)
    with eq obtain r ms' pr' cur' p' where p': "HashJoin_next rec pk tbl ms pr cur p = Some (r, ms', pr', cur', p')"
      "y = (r, HashJoin b p' bk pk tbl ms' pr' cur')" by (auto simp: bind_eq_Some_conv)
    from HashJoin_next_keeps [where Q = "\<lambda>s. op_rows srt s = op_rows srt p", OF _ p'(1)] IH
    show ?thesis using p'(2) HashJoin by simp
  qed
qed

lemma op_next_rows: "op_next op = Some (r, op') \<Longrightarrow> op_rows srt op' = op_rows srt op"
  using op_next_rows_raw by fastforce

lemma pull_all_keeps:
  assumes step: "\<And>s y. nxt s = Some y \<Longrightarrow> Q s \<Longrightarrow> Q (snd y)"
  shows "pull_all nxt acc s = Some y \<Longrightarrow> Q s \<Longrightarrow> Q (snd y)"
proof (rule pull_all.raw_induct [where P = "\<lambda>f acc s y. f = nxt \<longrightarrow> Q s \<longrightarrow> Q (snd y)", rule_format])
  fix rec f acc s y
  assume IH: "\<And>f acc s y. rec f acc s = Some y \<Longrightarrow> f = nxt \<Longrightarrow> Q s \<Longrightarrow> Q (snd y)"
    and eq: "Option.bind (f s) (\<lambda>(r, s'). case r of None \<Rightarrow> Some (acc, s') | Some x \<Rightarrow> rec f (acc @ [x]) s') = Some y"
    and f: "f = nxt" and q: "Q s"
  from eq obtain r s1 where s1: "nxt s = Some (r, s1)" by (auto simp: bind_eq_Some_conv f)
  with step [OF s1 q] eq show "Q (snd y)" by (auto simp: f split: option.splits intro: IH)
qed auto

lemma pull_all_rows: "pull_all op_next acc op = Some (xs, op') \<Longrightarrow> op_rows srt op' = op_rows srt op"
  using pull_all_keeps [where Q = "\<lambda>s. op_rows srt s = op_rows srt op" and nxt = op_next] op_next_rows_raw by fastforce

lemma fill_rows_kept:
  "fill op_next r = Some (Inr (xs, op')) \<Longrightarrow> \<exists>op1. r = Some (Inr op1) \<and> op_rows srt op' = op_rows srt op1"
  by (cases r rule: option.exhaust; cases "the r") (auto simp: fill_def dest: pull_all_rows)

lemma opened_Inr: "opened f r = Some (Inr t) \<longleftrightarrow> (\<exists>s. r = Some (Inr s) \<and> t = f s)"
  by (cases r rule: option.exhaust; cases "the r") (auto simp: opened_def)

lemma map_sum_Inr: "map_sum f g x = Inr y \<longleftrightarrow> (\<exists>z. x = Inr z \<and> y = g z)"
  by (cases x) auto

lemma case_error_Inr: "(case x of Inl e \<Rightarrow> Some (Inl e) | Inr y \<Rightarrow> f y) = Some (Inr z) \<longleftrightarrow> (\<exists>y. x = Inr y \<and> f y = Some (Inr z))"
  by (cases x) auto

lemma op_open_keeps: "op_open srt op = Some (Inr op') \<Longrightarrow> op_rows srt' op' = op_rows srt' op"
proof (induction op arbitrary: op')
  case (Sort c ob buffered cursor)
  then obtain sorted c' where c': "Sort_open op_next srt ob (op_open srt c) = Some (Inr (sorted, c'))" "op' = Sort c' ob sorted 0"
    by (auto simp: opened_Inr)
  then obtain xs where "fill op_next (op_open srt c) = Some (Inr (xs, c'))"
    by (cases "fill op_next (op_open srt c)") (auto simp: Sort_open_def map_sum_Inr)
  from fill_rows_kept [OF this, of srt'] Sort.IH c'(2) show ?case by auto
next
  case (HashJoin b p bk pk tbl ms pr cur)
  then obtain tbl' b' p' where o: "HashJoin_open op_next bk (op_open srt b) (op_open srt p) = Some (Inr (tbl', b', p'))"
    "op' = HashJoin b' p' bk pk tbl' [] pr 0" by (auto simp: opened_Inr)
  then obtain b1 rows where "op_open srt b = Some (Inr b1)" "op_open srt p = Some (Inr p')" "pull_all op_next [] b1 = Some (rows, b')"
    by (auto simp: HashJoin_open_def bind_eq_Some_conv case_error_Inr)
  with HashJoin.IH pull_all_rows [of "[]" b1 rows b' srt'] o(2) show ?case by simp
qed (auto simp: opened_Inr)

section \<open>Closing\<close>

text \<open>\<open>close()\<close> closes the children; no operator frees or resets anything of its own.\<close>

primrec op_close :: "oper \<Rightarrow> oper" where
  "op_close (SeqScan t rows vrows snap cursor) = SeqScan t rows vrows snap cursor"
| "op_close (Filter c e) = Filter (op_close c) e"
| "op_close (Projection c cols) = Projection (op_close c) cols"
| "op_close (Sort c ob buffered cursor) = Sort (op_close c) ob buffered cursor"
| "op_close (Limit c cnt seen) = Limit (op_close c) cnt seen"
| "op_close (HashJoin b p bk pk tbl ms pr cur) = HashJoin (op_close b) (op_close p) bk pk tbl ms pr cur"

lemma op_close_id [simp]: "op_close op = op"
  by (induction op) simp_all

section \<open>Any sequence of calls\<close>

inductive op_call :: "sorter \<Rightarrow> oper \<Rightarrow> oper \<Rightarrow> bool" for srt where
  call_open: "op_open srt op = Some (Inr op') \<Longrightarrow> op_call srt op op'"
| call_next: "op_next op = Some (r, op') \<Longrightarrow> op_call srt op op'"
| call_close: "op_call srt op (op_close op)"

lemma op_calls_rows: "(op_call srt)\<^sup>*\<^sup>* op op' \<Longrightarrow> op_rows srt op' = op_rows srt op"
  by (induction rule: rtranclp_induct) (auto elim!: op_call.cases simp: op_open_keeps op_next_rows)

text \<open>
  Whatever was called on a tree before, opening it ends with the error that its rows stand for, or it
  starts the stream of all of them.
\<close>

theorem reopen_restarts:
  assumes "(op_call srt)\<^sup>*\<^sup>* op op'"
  shows "case op_rows srt op of Inl e \<Rightarrow> op_open srt op' = Some (Inl e)
     | Inr xs \<Rightarrow> \<exists>op1. op_open srt op' = Some (Inr op1) \<and> yields op_next op1 xs"
  using op_open_rows [of srt op'] op_calls_rows [OF assms] by simp

theorem reopen_restarts_witness:
  "\<exists>op2. op_open srt (SeqScan ''t'' (Some [r]) [] None 1) = Some (Inr op2) \<and> yields op_next op2 [r]"
proof -
  let ?scan = "SeqScan ''t'' (Some [r]) [] None"
  have "op_next (?scan 0) = Some (Some r, ?scan 1)" by (subst op_next.simps) (simp add: SeqScan_next_def)
  then have "(op_call srt)\<^sup>*\<^sup>* (?scan 0) (?scan 1)" by (blast intro: call_next)
  from reopen_restarts [OF this] show ?thesis by (simp add: SeqScan_rows_def)
qed

end
