(* ===== verification/Row_Print.thy ===== *)
theory Row_Print
  imports Queries Row_Codec
begin

text \<open>
  What the program prints of rows: \<open>printRow\<close> (include/row.h) and the results of a query
  (\<open>runSQL\<close> in main.cpp). Printing is the text that goes to \<open>std::cout\<close>; \<open>ord\<close> is the order in which
  the map of a row is iterated.
\<close>

definition newline :: string where
  "newline = [CHR 0x0A]"

definition printRow :: "row \<Rightarrow> string list \<Rightarrow> string" where
  "printRow row cols =
    concat (map (\<lambda>col. col @ '': '' @ (case fmlookup row col of Some v \<Rightarrow> v | None \<Rightarrow> ''NULL'') @ ''  '') cols) @ newline"

definition print_fields :: "row_ord \<Rightarrow> row \<Rightarrow> string" where
  "print_fields ord row =
    concat (map (\<lambda>col. ''  '' @ col @ ''='' @ (case fmlookup row col of Some v \<Rightarrow> v | None \<Rightarrow> [])) (ord row)) @ newline"

definition print_results :: "row_ord \<Rightarrow> row list \<Rightarrow> string" where
  "print_results ord results =
    ''Results ('' @ nat_to_string (length results) @ '' rows):'' @ newline @ concat (map (print_fields ord) results) @ newline"

text \<open>The text before an exception stands on the console when it is thrown.\<close>

definition print_query :: "row_ord \<Rightarrow> sorter \<Rightarrow> table_storage \<Rightarrow> string \<Rightarrow> (string \<times> sql_error option) option" where
  "print_query ord srt storage sql = map_option
    (\<lambda>r. let echo = ''SQL: '' @ sql @ newline in case r of Inl e \<Rightarrow> (echo, Some e) | Inr rows \<Rightarrow> (echo @ print_results ord rows, None))
    (runSQL srt storage sql)"

section \<open>Printing and projection\<close>

lemma project_row_lookup:
  "cols \<noteq> [''*''] \<Longrightarrow> fmlookup (project_row cols row) c = (if c \<in> set cols then fmlookup row c else None)"
proof -
  have "fmlookup (foldl (\<lambda>p col. case fmlookup row col of None \<Rightarrow> p | Some v \<Rightarrow> fmupd col v p) acc cols) c =
      (if c \<in> set cols \<and> fmlookup row c \<noteq> None then fmlookup row c else fmlookup acc c)" for acc
    by (induction cols arbitrary: acc) (auto split: option.splits)
  then show "cols \<noteq> [''*''] \<Longrightarrow> ?thesis" by (auto simp: project_row_def)
qed

lemma printRow_cong: "(\<And>c. c \<in> set cols \<Longrightarrow> fmlookup r c = fmlookup r' c) \<Longrightarrow> printRow r cols = printRow r' cols"
  by (auto simp: printRow_def intro!: arg_cong [where f = concat])

text \<open>A column that the projection keeps is printed as before; one that it drops is printed as NULL.\<close>

lemma printRow_project:
  "cols \<noteq> [''*''] \<Longrightarrow> set shown \<subseteq> set cols \<Longrightarrow> printRow (project_row cols row) shown = printRow row shown"
  by (rule printRow_cong) (auto simp: project_row_lookup)

lemma printRow_dropped:
  "cols \<noteq> [''*''] \<Longrightarrow> c \<notin> set cols \<Longrightarrow> printRow (project_row cols row) [c] = c @ '': NULL  '' @ newline"
  by (simp add: printRow_def project_row_lookup)

text \<open>A value \<open>NULL\<close> and a missing column look the same.\<close>

lemma printRow_null: "fmlookup row c = None \<Longrightarrow> printRow (fmupd c ''NULL'' row) cols = printRow row cols"
  by (auto simp: printRow_def intro!: arg_cong [where f = concat])

lemma print_query_total:
  "runSQL srt storage sql = Some r \<Longrightarrow> \<exists>out e. print_query ord srt storage sql = Some (''SQL: '' @ sql @ newline @ out, e)"
  by (cases r) (simp_all add: print_query_def Let_def)

text \<open>The first query of the demonstration on a smaller table.\<close>

lemma print_query_example:
  "print_query sorted_ord srt [''t'' \<mapsto> [fmap_of_list [(''id'', ''1''), (''v'', ''7'')], fmap_of_list [(''id'', ''2'')]]] ''SELECT id FROM t LIMIT 1;'' =
    Some (''SQL: SELECT id FROM t LIMIT 1;'' @ newline @ ''Results (1 rows):'' @ newline @ ''  id=1'' @ newline @ newline, None)"
proof -
  have c: "compile_sql ''SELECT id FROM t LIMIT 1;'' =
      Inr (PhysicalLimit 1 [PhysicalProjection [''id''] [PhysicalSeqScan ''t'' []]])" by code_simp
  have p: "project_row [''id''] (fmap_of_list [(''id'', ''1''), (''v'', ''7'')]) = fmap_of_list [(''id'', ''1'')]" by code_simp
  have f: "print_fields sorted_ord (fmap_of_list [(''id'', ''1'')]) = ''  id=1'' @ newline"
    by (simp add: print_fields_def sorted_ord_def sorted_list_of_fset.rep_eq)
  have n: "nat_to_string (Suc 0) = ''1''" by code_simp
  show ?thesis
    by (simp add: print_query_def runSQL_def c execute_rows SeqScan_rows_def p f n print_results_def Let_def del: fmap_of_list_simps)
qed

end
