(* ===== verification/Test_Suite.thy ===== *)
theory Test_Suite
  imports Queries Rollback
begin

text \<open>
  The repository's own tests (TESTS/test_lexer.cpp, test_parser.cpp, test_transaction.cpp) on the
  model: what each of them expects is a lemma that evaluates the operations the test calls. Where
  a test looks at some fields of a result, the lemma gives the whole result.
\<close>

section \<open>test\_lexer.cpp\<close>

definition lex_pairs :: "string \<Rightarrow> (tokenType \<times> string) list option" where
  "lex_pairs sql = (case tokenize (Lexer_init sql) of Inl e \<Rightarrow> None
     | Inr ts \<Rightarrow> Some (map (\<lambda>t. (tk_type t, tk_value t)) ts))"

lemma LexerTest_SimpleSelect:
  "lex_pairs ''SELECT id, name FROM users;'' = Some [(SELECT, ''SELECT''), (IDENTIFIER, ''id''), (COMMA, '',''),
     (IDENTIFIER, ''name''), (FROM, ''FROM''), (IDENTIFIER, ''users''), (SEMICOLON, '';''), (END_OF_FILE, [])]"
  by code_simp

lemma LexerTest_WhereClauseWithOperators:
  "lex_pairs ''SELECT * FROM users WHERE age >= 30 AND name != 'Bob';'' = Some [(SELECT, ''SELECT''), (STAR, ''*''),
     (FROM, ''FROM''), (IDENTIFIER, ''users''), (WHERE, ''WHERE''), (IDENTIFIER, ''age''), (GTE, ''>=''),
     (NUMBER, ''30''), (AND, ''AND''), (IDENTIFIER, ''name''), (NEQ, ''!=''), (STRING, ''Bob''), (SEMICOLON, '';''),
     (END_OF_FILE, [])]"
  by code_simp

lemma LexerTest_LineComment:
  "lex_pairs (''SELECT id -- this is a comment'' @ [CHR 0x0A] @ ''FROM users;'') = Some [(SELECT, ''SELECT''),
     (IDENTIFIER, ''id''), (FROM, ''FROM''), (IDENTIFIER, ''users''), (SEMICOLON, '';''), (END_OF_FILE, [])]"
  by code_simp

lemma LexerTest_UnterminatedStringThrows:
  "tokenize (Lexer_init ''SELECT 'unterminated'') = Inl (Lex_unterminated_string 1 8)"
  by code_simp

section \<open>test\_parser.cpp\<close>

definition parseSQL :: "string \<Rightarrow> sql_error + statement" where
  "parseSQL sql = ebind (map_err Sql_lex (tokenize (Lexer_init sql))) (\<lambda>ts. map_err Sql_parse (parse (Parser_init ts)))"

definition throws_ParseError :: "string \<Rightarrow> bool" where
  "throws_ParseError sql = (case parseSQL sql of Inl (Sql_parse (ParseError _ _ _ _)) \<Rightarrow> True | _ \<Rightarrow> False)"

abbreviation select_from ::
  "string list \<Rightarrow> string \<Rightarrow> expr option \<Rightarrow> orderByClause list \<Rightarrow> int option \<Rightarrow> sql_error + statement" where
  "select_from cols t w ob lim \<equiv>
    Inr (StSelect \<lparr>sel_columns = cols, sel_table = t, sel_where = w, sel_orderBy = ob, sel_limit = lim\<rparr>)"

abbreviation col :: "string \<Rightarrow> expr" where
  "col \<equiv> ColumnRefExpr []"

abbreviation int_lit :: "string \<Rightarrow> expr" where
  "int_lit \<equiv> LiteralExpr LkInteger"

lemma ParserTest_SimpleSelect:
  "parseSQL ''SELECT id, name FROM users;'' = select_from [''id'', ''name''] ''users'' None [] None"
  by code_simp

lemma ParserTest_SelectStar:
  "parseSQL ''SELECT * FROM products;'' = select_from [''*''] ''products'' None [] None"
  by code_simp

lemma ParserTest_SelectWithWhere:
  "parseSQL ''SELECT * FROM users WHERE age >= 30;'' =
    select_from [''*''] ''users'' (Some (BinaryExpr ''>='' (col ''age'') (int_lit ''30''))) [] None"
  by code_simp

lemma ParserTest_SelectWithAndCondition:
  "parseSQL ''SELECT * FROM users WHERE age >= 30 AND name != 'Bob';'' =
    select_from [''*''] ''users'' (Some (BinaryExpr ''AND'' (BinaryExpr ''>='' (col ''age'') (int_lit ''30''))
      (BinaryExpr ''!='' (col ''name'') (LiteralExpr LkString ''Bob'')))) [] None"
  by code_simp

lemma ParserTest_SelectWithOrCondition:
  "parseSQL ''SELECT * FROM users WHERE age < 18 OR age > 60;'' =
    select_from [''*''] ''users'' (Some (BinaryExpr ''OR'' (BinaryExpr ''<'' (col ''age'') (int_lit ''18''))
      (BinaryExpr ''>'' (col ''age'') (int_lit ''60'')))) [] None"
  by code_simp

lemma ParserTest_SelectWithLimit:
  "parseSQL ''SELECT * FROM users LIMIT 5;'' = select_from [''*''] ''users'' None [] (Some 5)"
  by code_simp

lemma ParserTest_SelectWithOrderBy:
  "parseSQL ''SELECT * FROM users ORDER BY name ASC;'' =
    select_from [''*''] ''users'' None [\<lparr>ob_column = ''name'', ob_ascending = True\<rparr>] None"
  "parseSQL ''SELECT * FROM users ORDER BY age DESC;'' =
    select_from [''*''] ''users'' None [\<lparr>ob_column = ''age'', ob_ascending = False\<rparr>] None"
  by code_simp+

lemma ParserTest_SelectFullQuery:
  "parseSQL ''SELECT id, name FROM users WHERE age >= 18 ORDER BY name ASC LIMIT 10;'' =
    select_from [''id'', ''name''] ''users'' (Some (BinaryExpr ''>='' (col ''age'') (int_lit ''18'')))
      [\<lparr>ob_column = ''name'', ob_ascending = True\<rparr>] (Some 10)"
  by code_simp

lemma ParserTest_CaseInsensitive:
  "parseSQL ''select * from users where age = 25;'' =
    select_from [''*''] ''users'' (Some (BinaryExpr ''='' (col ''age'') (int_lit ''25''))) [] None"
  by code_simp

lemma ParserTest_InsertStatement:
  "parseSQL ''INSERT INTO users (id, name, age) VALUES (1, 'Alice', 30);'' =
    Inr (StInsert \<lparr>ins_table = ''users'', ins_columns = [''id'', ''name'', ''age''],
      ins_values = [int_lit ''1'', LiteralExpr LkString ''Alice'', int_lit ''30'']\<rparr>)"
  by code_simp

lemma ParserTest_UpdateStatement:
  "parseSQL ''UPDATE users SET name = 'Bob', age = 25 WHERE id = 1;'' =
    Inr (StUpdate \<lparr>upd_table = ''users'', upd_assignments = [(''name'', LiteralExpr LkString ''Bob''), (''age'', int_lit ''25'')],
      upd_where = Some (BinaryExpr ''='' (col ''id'') (int_lit ''1''))\<rparr>)"
  by code_simp

lemma ParserTest_UpdateWithoutWhere:
  "parseSQL ''UPDATE users SET active = true;'' =
    Inr (StUpdate \<lparr>upd_table = ''users'', upd_assignments = [(''active'', LiteralExpr LkBool ''true'')], upd_where = None\<rparr>)"
  by code_simp

lemma ParserTest_Delete:
  "parseSQL ''DELETE FROM users WHERE id = 1;'' =
    Inr (StDelete \<lparr>del_table = ''users'', del_where = Some (BinaryExpr ''='' (col ''id'') (int_lit ''1''))\<rparr>)"
  "parseSQL ''DELETE FROM users;'' = Inr (StDelete \<lparr>del_table = ''users'', del_where = None\<rparr>)"
  by code_simp+

lemma ParserTest_CreateTable:
  "parseSQL ''CREATE TABLE users (id INT PRIMARY KEY, name TEXT NOT NULL, age INT);'' =
    Inr (StCreateTable \<lparr>ct_table = ''users'', ct_columns =
      [\<lparr>cd_name = ''id'', cd_type = ''INT'', cd_primaryKey = True, cd_notNull = False\<rparr>,
       \<lparr>cd_name = ''name'', cd_type = ''TEXT'', cd_primaryKey = False, cd_notNull = True\<rparr>,
       \<lparr>cd_name = ''age'', cd_type = ''INT'', cd_primaryKey = False, cd_notNull = False\<rparr>]\<rparr>)"
  by code_simp

lemma ParserTest_DropTable:
  "parseSQL ''DROP TABLE users;'' = Inr (StDropTable \<lparr>dt_table = ''users''\<rparr>)"
  by code_simp

lemma ParserTest_Throws:
  "throws_ParseError ''BANANA FROM users;''" "throws_ParseError ''SELECT id users;''"
  "throws_ParseError ''SELECT * FROM;''" "throws_ParseError ''SELECT * FROM users WHERE (age > 30;''"
  by code_simp+

section \<open>test\_transaction.cpp\<close>

definition makeStorage :: table_storage where
  "makeStorage = [''users'' \<mapsto>
     [fmap_of_list [(''id'', ''1''), (''name'', ''Alice''), (''age'', ''30'')],
      fmap_of_list [(''id'', ''2''), (''name'', ''Bob''), (''age'', ''25'')],
      fmap_of_list [(''id'', ''3''), (''name'', ''Carol''), (''age'', ''35'')]]]"

definition test_mgr :: txn_manager where
  "test_mgr = TransactionManager_init None"

definition insert_rec :: "string \<Rightarrow> string \<Rightarrow> writeRecord" where
  "insert_rec key name = \<lparr>wr_type = WrInsert, wr_table = ''users'', wr_key = key, wr_oldRow = fmempty,
     wr_newRow = fmap_of_list [(''id'', key), (''name'', name)]\<rparr>"

definition push_row :: "writeRecord \<Rightarrow> table_storage \<Rightarrow> table_storage" where
  "push_row rec storage = storage(''users'' \<mapsto> table_of storage ''users'' @ [wr_newRow rec])"

lemmas txn_eval = test_mgr_def TransactionManager_init_def tm_begin_def tm_get_def tm_commit_def tm_rollback_def
  tm_logWrite_def rollback_write_def table_of_def

lemma TransactionTest_Begin:
  "\<exists>m t. tm_begin junk test_mgr = (1, m) \<and> tm_get 1 m = Inr t \<and> tx_status t = Active \<and> tx_active t \<and> tx_id t = 1"
  by (simp add: txn_eval)

lemma TransactionTest_EachTransactionGetsUniqueId:
  "\<exists>m1 m2 m3. tm_begin j1 test_mgr = (1, m1) \<and> tm_begin j2 m1 = (2, m2) \<and> tm_begin j3 m2 = (3, m3)"
  by (simp add: txn_eval)

lemma TransactionTest_CommitChangesStatus:
  "\<exists>m t. tm_commit ord junk 1 (snd (tm_begin junk test_mgr)) = Inr m \<and> tm_get 1 m = Inr t \<and>
    tx_status t = Committed \<and> \<not> tx_active t"
  by (simp add: txn_eval)

lemma TransactionTest_RollbackChangesStatus:
  "\<exists>m t. tm_rollback ord junk 1 makeStorage (snd (tm_begin junk test_mgr)) = Inr (makeStorage, m) \<and> tm_get 1 m = Inr t \<and>
    tx_status t = Aborted \<and> \<not> tx_active t"
  by (simp add: txn_eval)

lemma TransactionTest_CommitOnNonActiveTxnThrows:
  "\<exists>m. tm_commit ord junk 1 (snd (tm_begin junk test_mgr)) = Inr m \<and> tm_commit ord junk 1 m = Inl Txn_not_active"
  by (simp add: txn_eval)

lemma TransactionTest_WriteLog:
  "\<exists>t. tm_get 1 (fold (tm_logWrite 1) recs (snd (tm_begin junk test_mgr))) = Inr t \<and> tx_writeLog t = recs"
proof -
  have log: "tm_transactions m 1 = Some t \<Longrightarrow> \<exists>t'. tm_transactions (fold (tm_logWrite 1) recs m) 1 = Some t' \<and>
      tx_writeLog t' = tx_writeLog t @ recs" for m t
  proof (induction recs arbitrary: m t)
    case (Cons r recs)
    then have "tm_transactions (tm_logWrite 1 r m) 1 = Some (tx_logWrite r t)" by (simp add: tm_logWrite_def)
    from Cons.IH [OF this] show ?case by simp
  qed simp
  have "tm_transactions (snd (tm_begin junk test_mgr)) 1 = Some (Transaction_init 1)" by (simp add: txn_eval)
  from log [OF this] show ?thesis by (auto simp: tm_get_def)
qed

lemma TransactionTest_RollbackUndoesInsert:
  "let rec = insert_rec ''99'' ''Temp''; m = tm_logWrite 1 rec (snd (tm_begin junk test_mgr)) in
    length (table_of (push_row rec makeStorage) ''users'') = 4 \<and>
    (\<exists>m'. tm_rollback ord junk 1 (push_row rec makeStorage) m = Inr (makeStorage, m'))"
proof -
  have keys: "filter (\<lambda>r. \<not> has_key ''99'' r) (table_of (push_row (insert_rec ''99'' ''Temp'') makeStorage) ''users'') =
      table_of makeStorage ''users''" by code_simp
  have "makeStorage(''users'' \<mapsto> table_of makeStorage ''users'') = makeStorage" by (simp add: makeStorage_def table_of_def)
  with keys show ?thesis
    by (simp add: Let_def test_mgr_def TransactionManager_init_def tm_begin_def tm_get_def tm_rollback_def tm_logWrite_def
        rollback_write_def insert_rec_def push_row_def) (simp add: makeStorage_def table_of_def)
qed

definition alice :: "string \<Rightarrow> row" where
  "alice age = fmap_of_list [(''id'', ''1''), (''name'', ''Alice''), (''age'', age)]"

lemma TransactionTest_RollbackUndoesUpdate:
  "let rec = \<lparr>wr_type = WrUpdate, wr_table = ''users'', wr_key = ''1'', wr_oldRow = alice ''30'', wr_newRow = alice ''99''\<rparr>;
     m = tm_logWrite 1 rec (snd (tm_begin junk test_mgr));
     updated = makeStorage(''users'' \<mapsto> alice ''99'' # tl (table_of makeStorage ''users'')) in
    (\<exists>m'. tm_rollback ord junk 1 updated m = Inr (makeStorage, m'))"
proof -
  have "restore_first ''1'' (alice ''30'') (alice ''99'' # tl (table_of makeStorage ''users'')) = table_of makeStorage ''users''"
    by code_simp
  moreover have "makeStorage(''users'' \<mapsto> table_of makeStorage ''users'') = makeStorage" by (simp add: makeStorage_def table_of_def)
  ultimately show ?thesis
    by (simp add: Let_def test_mgr_def TransactionManager_init_def tm_begin_def tm_get_def tm_rollback_def tm_logWrite_def
        rollback_write_def)
qed

section \<open>Locks in test\_transaction.cpp\<close>

fun requests :: "(txn_id \<times> string \<times> lockMode) list \<Rightarrow> lock_table \<Rightarrow> bool list \<times> lock_table" where
  "requests [] lm = ([], lm)"
| "requests ((tid, r, mode) # reqs) lm = (let (ok, lm') = acquireLock tid r mode lm; (oks, lm'') = requests reqs lm' in (ok # oks, lm''))"

lemmas lock_eval = acquireLock_def entries_def releaseAll_def

lemma LockManagerTest_Modes:
  "fst (requests [(1, ''users:1'', Shared), (2, ''users:1'', Shared), (3, ''users:1'', Shared)] Map.empty) = [True, True, True]"
  "fst (requests [(1, ''users:1'', Exclusive), (2, ''users:1'', Shared)] Map.empty) = [True, False]"
  "fst (requests [(1, ''users:1'', Shared), (2, ''users:1'', Exclusive)] Map.empty) = [True, False]"
  "fst (requests [(1, ''users:1'', Exclusive), (2, ''users:1'', Exclusive)] Map.empty) = [True, False]"
  "fst (requests [(1, ''users:1'', Shared), (1, ''users:1'', Shared)] Map.empty) = [True, True]"
  by (simp_all add: lock_eval split: prod.split)

lemma LockManagerTest_ReleaseAll:
  "let (_, lm) = requests [(1, ''users:1'', Exclusive), (2, ''users:1'', Shared)] Map.empty in
    fst (acquireLock 2 ''users:1'' Shared (releaseAll 1 lm))"
  "let (_, lm) = requests [(1, ''users:1'', Shared), (2, ''users:1'', Shared)] Map.empty in
    \<not> fst (acquireLock 3 ''users:1'' Exclusive (releaseAll 1 lm))"
  by (simp_all add: lock_eval Let_def)

lemma LockManagerTest_DifferentResourcesDontConflict:
  "fst (requests [(1, ''users:1'', Exclusive), (2, ''users:2'', Exclusive), (3, ''users:3'', Exclusive)] Map.empty) = [True, True, True]"
  by (simp add: lock_eval split: prod.split)

end
