(* ===== verification/Spec2Isabelle.thy ===== *)
theory Spec2Isabelle
  imports Queries Rollback Session Heap_Map Pool_Props Demo Restart Row_Print Test_Suite
begin

text \<open>
  A verification library for MyDatabaseEngine, a small relational engine in C++. File names are
  relative to \<open>src/\<close>; \<open>x.h\<close> is \<open>include/x.h\<close>, \<open>x.cpp\<close> is \<open>src/x.cpp\<close>.

  \<^bold>\<open>The program.\<close> There are three parts that hang together loosely.
  \<^item> SQL over tables in memory. \<open>Lexer\<close> turns text into tokens, \<open>Parser\<close> tokens into a
    statement, \<open>Optimizer\<close> a statement into a logical and then a physical plan, and \<open>Executor\<close>
    builds a tree of Volcano operators from it and pulls the rows. INSERT, UPDATE and DELETE
    change \<open>TableStorage\<close>, a map from table names to vectors of rows, and log what they did in
    the running \<open>Transaction\<close>.
  \<^item> Transactions. \<open>TransactionManager\<close> numbers them, undoes their write logs on rollback,
    writes records to the \<open>WAL\<close> at both ends, and owns the \<open>LockManager\<close>. \<open>WAL::recover\<close> rebuilds
    the tables from the log. \<open>MvccSnapshot\<close> filters what a scan sees.
  \<^item> Pages. \<open>DiskManager\<close> reads and writes 4096-byte pages of a file, \<open>BufferPool\<close> keeps some in
    memory, and \<open>TableHeap\<close> (rows in slotted pages) and \<open>BTree\<close> (an index) work on them. The
    executor uses neither.

  \<^bold>\<open>Conventions\<close> (\<open>Prelude\<close>, \<open>Disk\<close>). An exception is \<open>Inl\<close> of the component's error type. Undefined
  behaviour (an access outside a vector, an array or a page) is an error value of its own, so
  that its absence can be proved and its presence shown. Operations on state return it changed;
  \<open>('s, 'a) eff\<close> returns it with the result or the exception, since pages may have moved before
  the throw. A loop that need not end is a \<open>partial_function (option)\<close>: \<open>None\<close> is not returning, and
  the theorems show \<open>Some\<close>. What C++ leaves open is an argument of the definitions: the order of
  an \<open>unordered_map\<close> (\<open>row_ord\<close>), the sorting routine (\<open>sorter\<close>, with \<open>sort_contract\<close> as the only
  hypothesis on it), uninitialised fields and padding. Machine integers are words of their
  width where they can wrap: page numbers, transaction numbers, log sequence numbers, slots.

  \<^bold>\<open>Theories, bottom up.\<close>
  \<^item> \<open>Prelude\<close>, \<open>Ctype\<close>, \<open>Numeric\<close>, \<open>Stream\<close>: sums as results, character classes, \<open>std::stoi\<close>,
    \<open>std::stod\<close> and decimal output, \<open>std::fstream\<close> with its position and error bits.
  \<^item> \<open>Tokens\<close>, \<open>Lexer\<close>, \<open>Lexer_Props\<close> (token.h, lexer.h, lexer.cpp): the lexer as it walks over
    its source; it never reads behind the end, the source consists of its tokens with blanks and
    comments between them (\<open>lexes\<close>), each token has the position of its own text, and it reads back
    what is printed.
  \<^item> \<open>Ast\<close>, \<open>Parser\<close>, \<open>Parser_Props\<close> (ast.h, parser.h, parser.cpp): recursive descent on the token
    vector; no read outside it, and the round trip with a printer that sets only the
    parentheses the grammar needs, which pins precedence and associativity down.
  \<^item> \<open>Plan\<close> (logical_plan.h, physical_plan.h, optimizer.cpp), \<open>Expr_Eval\<close> (executor.cpp 14-91),
    \<open>Mvcc\<close> (mvcc.h), \<open>Operators\<close>, \<open>Volcano\<close> and \<open>Restart\<close> (operator.h, seq_scan.h, filter.h, projection.h,
    limit.h, sort.h, hash_join.cpp), \<open>Sort_Order\<close>, \<open>Executor\<close>, \<open>Dml\<close>, \<open>Queries\<close> (executor.cpp,
    main.cpp \<open>runSQL\<close>): \<open>next()\<close> of each operator; \<open>row_source\<close> is the contract between an operator
    and its child, interpreted on the tree of all of them; opening a tree again restarts it
    (\<open>reopen_restarts\<close>); what a query computes is the
    relational algebra of its plan, for every SELECT from its text; what each statement does to
    the tables and the write log; when the comparator of ORDER BY is one.
  \<^item> \<open>Transaction\<close>, \<open>Locks\<close>, \<open>Txn_Manager\<close>, \<open>Rollback\<close> (transaction.h, lock_manager.cpp,
    txn_manager.h): every operation of the lock manager runs under its mutex, so its runs are
    the sequences of \<open>lock_step\<close>; mutual exclusion is an invariant of the reachable states.
    Numbers of transactions are fresh, they end once, and what ROLLBACK and COMMIT with recovery
    give back.
  \<^item> \<open>Session\<close>: the executor, the transaction manager and the lock manager under interleaved calls
    of several transactions. While all follow a rule (\<open>careful\<close>: above all, each holds the locks of the
    rows it writes), the tables refine a ledger of committed and pending rows, in which a DELETE is
    final at once; without locks a rollback overwrites committed rows.
  \<^item> \<open>Row_Codec\<close>, \<open>Wal\<close>, \<open>Recovery\<close> (wal.cpp, and the row text of table_heap.cpp): the codec of rows
    and of log records with their round trips; \<open>row_codec\<close> is their contract, and both row
    formats are instances of it. What recovery leaves under each key is given in closed form
    (\<open>replayed\<close>, \<open>unwound\<close>), by way of redo and undo on maps from keys to rows.
  \<^item> \<open>Disk\<close>, \<open>Buffer_Pool\<close>, \<open>Page_Store\<close>, \<open>Pool_Props\<close> (page.h, disk_manager.cpp, buffer_pool.cpp):
    \<open>page_store\<close> is what the clients of the pool rely on, a map from page numbers to bytes; the
    pool provides it with any number of frames. \<open>pool_ok\<close> relates frames, LRU list, iterators and
    file. Which page is evicted, and what a flush makes permanent.
  \<^item> \<open>Table_Heap\<close>, \<open>Heap_Props\<close>, \<open>Heap_Map\<close> (table_heap.cpp): slots and rows in the bytes of a page;
    \<open>row_store\<close> is the contract of a table of rows, a map from row identifiers to rows through any
    sequence of calls, which a page provides while the rows fit in it.
  \<^item> \<open>Btree_Node\<close>, \<open>Btree\<close>, \<open>Btree_Shape\<close>, \<open>Btree_Insert\<close>, \<open>Btree_Props\<close> (btree.h, btree.cpp): a node
    and its text; every node is loaded from and saved to its page (\<open>node_store\<close>, provided by the
    pool). The pages below a root represent a tree (\<open>repr\<close>), whose separators are the first keys
    of the subtrees right of them and whose leaves are chained; \<open>btree_holds\<close> says that it holds
    a sorted list. Insertion refines insertion into that list.
  \<^item> \<open>Index\<close>, \<open>Demo\<close> (main.cpp): \<open>ordered_index\<close> is the contract of an index, provided by the
    B-tree and by the demonstration's \<open>SimpleIndex\<close>; the demonstration itself is evaluated.
  \<^item> \<open>Row_Print\<close> (row.h, main.cpp): the text that is printed of rows and query results.
  \<^item> \<open>Test_Suite\<close> (TESTS/): the repository's tests, each a lemma on the model.

  \<^bold>\<open>Bounds.\<close> Page numbers are 32-bit, so the theorems on new pages bound their number: a B-tree
  has less than two pages for each entry, and one insertion adds at most its depth and a root,
  so \<open>4 * n + 3\<close> pages are enough for \<open>n\<close> entries (\<open>holds_room\<close>). Keys and values of the B-tree are
  words of at most 500 characters (\<open>word_fits\<close>): four of each and the rest of a node's text stay
  below the 4084 bytes of a page, whose last byte must stay NUL for \<open>deserialize\<close> to end. No
  definition runs on fuel.

  \<^bold>\<open>What the theorems show to be wrong.\<close> The log never writes (\<open>wal_never_writes\<close>); recovery loses
  committed updates (\<open>recover_loses_committed_update\<close>), does not undo a DELETE whose row is gone
  (\<open>recover_keeps_uncommitted_delete\<close>) and appends a row without \<open>id\<close> each time (\<open>recover_appends_again\<close>);
  a transaction's own locks do not count against it (\<open>own_locks_never_conflict\<close>); ROLLBACK of an INSERT
  fails without an \<open>id\<close> of its own (\<open>rollback_keeps_row_without_id\<close>, \<open>rollback_removes_namesakes\<close>); ROLLBACK does not bring deleted rows back
  (\<open>rollback_delete_restores_nothing\<close>), and, as nothing takes locks, overwrites what others have
  committed (\<open>rollback_overwrites_commit\<close>); a snapshot sees everything or nothing
  (\<open>snapshot_all_or_nothing\<close>); logical operators in lower case do not work
  (\<open>lowercase_and_matches_nothing\<close>); ORDER BY on mixed columns calls \<open>std::sort\<close> outside its
  contract (\<open>order_by_cycle\<close>); a table heap's page overflows, loses updated rows and can not be
  scanned (\<open>heap_insert_overflow\<close>, \<open>heap_update_loses_row\<close>, \<open>heap_scan_throws\<close>); blanks in a B-tree
  key damage its node (\<open>node_blank_key\<close>).

  \<^bold>\<open>Not modelled.\<close> The headings that \<open>main\<close> prints; destructors; \<open>WAL::flush\<close>, which only asks
  the operating system to write what the stream model has written already; I/O errors of the
  operating system in the middle of a file, and memory that runs out; interleavings inside an
  operation, since only the lock manager has a mutex and the rest is not meant for threads
  (\<open>Session\<close> interleaves whole operations); the test programs that are empty.
\<close>

end
